(* ===== verification/Prelude.thy ===== *)
theory Prelude
  imports Main "HOL-Library.Word" "HOL-Library.Char_ord" "HOL-Library.List_Lexorder"
    "HOL-Library.Multiset"
begin

section \<open>Prelude: results, ordered containers and machine integers\<close>

text \<open>
  What the components share.
  \<^item> \<open>srf_error\<close> and \<open>'a result\<close>: every way the C++ code leaves a function without a
    value. A failed \<^verbatim>\<open>CHECK\<close> or \<^verbatim>\<open>LOG(FATAL)\<close> aborts the process, a \<^verbatim>\<open>throw\<close> unwinds it; both
    are values of the model.
  \<^item> \<open>smap\<close>: \<^verbatim>\<open>std::map\<close> as an association list sorted by key, so that a range-\<^verbatim>\<open>for\<close>
    visits the entries in the order of the list; the laws a client needs are the locale
    \<open>ordered_dict\<close>.
  \<^item> \<open>std::size_t\<close> arithmetic as naturals with the wrap-around written out.
\<close>

named_theorems result_simps "unfolding of the result monad"
named_theorems smap_simps "lookup, insertion and removal of ordered maps"

subsection \<open>Errors as values\<close>

datatype srf_error =
    Check_failed string
  | Fatal string
  | Srf_runtime_error string
  | Std_runtime_error string
  | Invalid_argument string
  | Out_of_range string
  | Logic_error string
  | Bad_alloc
  | Undefined_behaviour string
  | Deadlock string
  | User_exception nat

type_synonym 'a result = "srf_error + 'a"

definition rbind :: "'a result \<Rightarrow> ('a \<Rightarrow> 'b result) \<Rightarrow> 'b result" where
  "rbind m f = (case m of Inl e \<Rightarrow> Inl e | Inr x \<Rightarrow> f x)"

definition rcheck :: "bool \<Rightarrow> string \<Rightarrow> unit result" where
  "rcheck b msg = (if b then Inr () else Inl (Check_failed msg))"

definition is_ok :: "'a result \<Rightarrow> bool" where
  "is_ok r = (case r of Inl _ \<Rightarrow> False | Inr _ \<Rightarrow> True)"

lemma result_runD: "(case x of Inl _ \<Rightarrow> False | Inr r \<Rightarrow> P r) \<Longrightarrow> \<exists>r. x = Inr r \<and> P r"
  by (cases x) simp_all

text \<open>A range-\<^verbatim>\<open>for\<close> whose body updates a state and may throw.\<close>

fun fold_result :: "('a \<Rightarrow> 's \<Rightarrow> 's result) \<Rightarrow> 'a list \<Rightarrow> 's \<Rightarrow> 's result" where
  "fold_result f [] s = Inr s"
| "fold_result f (x # xs) s = (case f x s of Inl e \<Rightarrow> Inl e | Inr s' \<Rightarrow> fold_result f xs s')"

lemma rbind_Inl [simp, result_simps]: "rbind (Inl e) f = Inl e"
  by (simp add: rbind_def)

lemma rbind_Inr [simp, result_simps]: "rbind (Inr x) f = f x"
  by (simp add: rbind_def)

lemma rbind_eq_Inr [result_simps]: "rbind m f = Inr y \<longleftrightarrow> (\<exists>x. m = Inr x \<and> f x = Inr y)"
  by (cases m) auto

lemma is_ok_rbind: "is_ok (rbind m f) \<longleftrightarrow> (\<exists>x. m = Inr x \<and> is_ok (f x))"
  by (cases m) (auto simp: is_ok_def)

lemma is_ok_iff: "is_ok m \<longleftrightarrow> (\<exists>x. m = Inr x)"
  by (cases m) (auto simp: is_ok_def)

lemma rcheck_eq_Inr [simp, result_simps]: "rcheck b msg = Inr u \<longleftrightarrow> b"
  by (simp add: rcheck_def)

lemma rcheck_True [simp]: "rcheck True msg = Inr ()"
  by (simp add: rcheck_def)

lemma rcheck_False [simp]: "rcheck False msg = Inl (Check_failed msg)"
  by (simp add: rcheck_def)

lemma is_ok_simps [simp]: "is_ok (Inl e) = False" "is_ok (Inr x) = True"
  by (simp_all add: is_ok_def)

lemma fold_result_append:
  "fold_result f (xs @ ys) s = rbind (fold_result f xs s) (fold_result f ys)"
  by (induction xs arbitrary: s) (auto split: sum.splits)

lemma fold_result_invariant:
  assumes "\<And>x s s'. x \<in> set xs \<Longrightarrow> I s \<Longrightarrow> f x s = Inr s' \<Longrightarrow> I s'"
    and "I s" and "fold_result f xs s = Inr t"
  shows "I t"
  using assms by (induction xs arbitrary: s) (auto split: sum.splits)

lemma fold_result_Inr:
  assumes "\<And>x s. x \<in> set xs \<Longrightarrow> f x s = Inr (g x s)"
  shows "fold_result f xs s = Inr (fold g xs s)"
  using assms by (induction xs arbitrary: s) auto

subsection \<open>Lists updated in place\<close>

lemma length_filter_update:
  "i < length xs \<Longrightarrow>
   length (filter P (xs[i := y])) + (if P (xs ! i) then 1 else 0) = length (filter P xs) + (if P y then 1 else 0)"
proof (induction xs arbitrary: i)
  case Nil
  then show ?case by simp
next
  case (Cons x xs)
  then show ?case by (cases i) (auto split: if_splits)
qed

lemma list_update_all:
  "(\<forall>j < length (xs[i := y]). P j (xs[i := y] ! j)) \<longleftrightarrow>
   (\<forall>j < length xs. j \<noteq> i \<longrightarrow> P j (xs ! j)) \<and> (i < length xs \<longrightarrow> P i y)"
  unfolding length_list_update by (metis nth_list_update nth_list_update_neq)

text \<open>A loop that catches what its body throws and remembers the first exception, to rethrow it at the end. A wait that does not
  end (\<open>Deadlock\<close>) is no exception: the loop does not get past it.\<close>

definition blocked :: "'a result \<Rightarrow> bool" where
  "blocked r \<longleftrightarrow> (case r of Inl (Deadlock _) \<Rightarrow> True | _ \<Rightarrow> False)"

definition remember :: "srf_error option \<Rightarrow> 'a result \<Rightarrow> srf_error option" where
  "remember first_exception r = (case r of Inl e \<Rightarrow> (if first_exception = None then Some e else first_exception) | Inr _ \<Rightarrow> first_exception)"

definition rethrow :: "srf_error option \<Rightarrow> unit result" where
  "rethrow first_exception = (case first_exception of None \<Rightarrow> Inr () | Some e \<Rightarrow> Inl e)"

text \<open>The first error of a list of results.\<close>

fun first_error :: "'a result list \<Rightarrow> unit result" where
  "first_error [] = Inr ()"
| "first_error (Inl e # rs) = Inl e"
| "first_error (Inr _ # rs) = first_error rs"

lemma first_error_Inr: "first_error rs = Inr () \<longleftrightarrow> (\<forall>r \<in> set rs. is_ok r)"
  by (induction rs rule: first_error.induct) (auto simp: is_ok_def)

lemma first_error_append: "first_error (rs @ ts) = (case first_error rs of Inl e \<Rightarrow> Inl e | Inr _ \<Rightarrow> first_error ts)"
  by (induction rs rule: first_error.induct) auto

lemma first_error_InlD:
  "first_error rs = Inl e \<Longrightarrow> \<exists>us vs. rs = us @ Inl e # vs \<and> (\<forall>r \<in> set us. is_ok r)"
proof (induction rs rule: first_error.induct)
  case (2 e' rs)
  then show ?case by (intro exI [of _ "[]"] exI [of _ rs]) simp
next
  case (3 x rs)
  then obtain us vs where "rs = us @ Inl e # vs" "\<forall>r \<in> set us. is_ok r" by auto
  then show ?case by (intro exI [of _ "Inr x # us"] exI [of _ vs]) (simp add: is_ok_def)
qed simp

lemma remember_first: "fold (\<lambda>r first. remember first r) rs (Some e) = Some e"
  by (induction rs) (auto simp: remember_def split: sum.splits)

lemma rethrow_remember: "rethrow (fold (\<lambda>r first. remember first r) rs first) = (case first of Some e \<Rightarrow> Inl e | None \<Rightarrow> first_error rs)"
proof (cases first)
  case None
  then show ?thesis
    by (induction rs arbitrary: first rule: first_error.induct) (simp_all add: remember_def rethrow_def remember_first [unfolded remember_def])
next
  case (Some e)
  then show ?thesis by (simp add: remember_first rethrow_def)
qed

lemma first_error_concat: "first_error (map first_error rss) = first_error (concat rss)"
proof (induction rss)
  case (Cons rs rss)
  then show ?case by (cases "first_error rs") (simp_all add: first_error_append)
qed simp

subsection \<open>Ordered maps\<close>

type_synonym ('k, 'v) smap = "('k \<times> 'v) list"

definition smap_ok :: "('k::linorder, 'v) smap \<Rightarrow> bool" where
  "smap_ok m = sorted_wrt (<) (map fst m)"

abbreviation smap_find :: "('k, 'v) smap \<Rightarrow> 'k \<Rightarrow> 'v option" where
  "smap_find \<equiv> map_of"

fun smap_put :: "'k::linorder \<Rightarrow> 'v \<Rightarrow> ('k, 'v) smap \<Rightarrow> ('k, 'v) smap" where
  "smap_put k v [] = [(k, v)]"
| "smap_put k v ((k', v') # m) =
     (if k < k' then (k, v) # (k', v') # m
      else if k = k' then (k, v) # m
      else (k', v') # smap_put k v m)"

definition smap_erase :: "'k \<Rightarrow> ('k, 'v) smap \<Rightarrow> ('k, 'v) smap" where
  "smap_erase k m = filter (\<lambda>p. fst p \<noteq> k) m"

definition smap_upper_bound :: "'k::linorder \<Rightarrow> ('k, 'v) smap \<Rightarrow> ('k \<times> 'v) option" where
  "smap_upper_bound k m = find (\<lambda>p. k < fst p) m"

definition smap_keys :: "('k, 'v) smap \<Rightarrow> 'k list" where
  "smap_keys m = map fst m"

lemma smap_ok_Nil [simp]: "smap_ok []"
  by (simp add: smap_ok_def)

lemma smap_ok_Cons [simp]: "smap_ok ((k, v) # m) \<longleftrightarrow> (\<forall>k' \<in> fst ` set m. k < k') \<and> smap_ok m"
  by (simp add: smap_ok_def)

lemma smap_ok_distinct: "smap_ok m \<Longrightarrow> distinct (map fst m)"
  by (induction m) (auto simp: smap_ok_def)

lemma smap_ok_less_None: "(\<forall>k' \<in> fst ` set m. (k :: 'k :: linorder) < k') \<Longrightarrow> smap_find m k = None"
  by (induction m) auto

lemma keys_smap_put [smap_simps]: "fst ` set (smap_put k v m) = insert k (fst ` set m)"
  by (induction m rule: smap_put.induct) auto

lemma set_smap_put: "set (smap_put k v m) \<subseteq> insert (k, v) (set m)"
  by (induction k v m rule: smap_put.induct) auto

lemma smap_ok_put [simp, intro]: "smap_ok m \<Longrightarrow> smap_ok (smap_put k v m)"
  by (induction k v m rule: smap_put.induct) (auto simp: keys_smap_put smap_ok_def)

lemma smap_find_put [simp, smap_simps]: "smap_find (smap_put k v m) = (smap_find m)(k \<mapsto> v)"
  by (induction k v m rule: smap_put.induct) (auto simp: fun_eq_iff)

lemma smap_find_erase [simp, smap_simps]: "smap_find (smap_erase k m) = (smap_find m)(k := None)"
  by (induction m) (auto simp: smap_erase_def fun_eq_iff)

lemma smap_ok_erase [simp, intro]: "smap_ok m \<Longrightarrow> smap_ok (smap_erase k m)"
  by (induction m) (auto simp: smap_ok_def smap_erase_def)

lemma set_smap_erase [smap_simps]: "set (smap_erase k m) = {p \<in> set m. fst p \<noteq> k}"
  by (simp add: smap_erase_def)

lemma dom_smap_find: "dom (smap_find m) = fst ` set m"
  by (rule dom_map_of_conv_image_fst)

lemma set_smap_keys [simp]: "set (smap_keys m) = dom (smap_find m)"
  by (simp add: smap_keys_def dom_map_of_conv_image_fst)

lemma smap_keys_sorted: "smap_ok m \<Longrightarrow> sorted (smap_keys m) \<and> distinct (smap_keys m)"
  by (simp add: smap_ok_def smap_keys_def strict_sorted_iff)

lemma smap_eqI: "smap_ok m \<Longrightarrow> smap_ok n \<Longrightarrow> smap_find m = smap_find n \<Longrightarrow> m = n"
proof (induction m arbitrary: n)
  case Nil
  then show ?case by (cases n) (auto simp: fun_eq_iff split: if_splits)
next
  case (Cons p m)
  obtain k v where p: "p = (k, v)" by force
  have domeq: "fst ` set (p # m) = fst ` set n"
    using Cons.prems(3) by (metis dom_map_of_conv_image_fst)
  then obtain k' v' n' where n: "n = (k', v') # n'" by (cases n) (auto simp: p)
  have "k = k'"
    using domeq Cons.prems(1,2) unfolding p n
    by (auto simp: set_eq_iff image_iff) (metis less_asym fst_conv)+
  moreover have "v = v'"
    using Cons.prems(3) \<open>k = k'\<close> unfolding p n by (auto dest: fun_cong [where x = k])
  moreover have "smap_find m = smap_find n'"
  proof
    fix x
    have "k \<notin> fst ` set m" "k \<notin> fst ` set n'"
      using Cons.prems(1,2) \<open>k = k'\<close> unfolding p n by auto
    then have "smap_find m k = None" "smap_find n' k = None"
      unfolding map_of_eq_None_iff by blast+
    then show "smap_find m x = smap_find n' x"
      using fun_cong [OF Cons.prems(3), of x] \<open>k = k'\<close> unfolding p n
      by (cases "x = k") simp_all
  qed
  then have "m = n'"
    using Cons.IH Cons.prems(1,2) unfolding p n by simp
  ultimately show ?case by (simp add: p n)
qed

lemma find_eq_SomeD: "find P xs = Some x \<Longrightarrow> P x \<and> x \<in> set xs"
  by (auto simp: find_Some_iff)

subsection \<open>The dictionary interface\<close>

text \<open>
  What a client of a dictionary relies on. \<open>puts\<close> is the loop
  \<^verbatim>\<open>for (x : xs) m[key(x)] = val(x)\<close>, which several components run.
\<close>

locale ordered_dict =
  fixes look :: "'m \<Rightarrow> 'k \<Rightarrow> 'v option"
    and put :: "'k \<Rightarrow> 'v \<Rightarrow> 'm \<Rightarrow> 'm"
    and erase :: "'k \<Rightarrow> 'm \<Rightarrow> 'm"
    and inv :: "'m \<Rightarrow> bool"
  assumes look_put: "look (put k v m) = (look m)(k \<mapsto> v)"
    and look_erase: "look (erase k m) = (look m)(k := None)"
    and inv_put: "inv m \<Longrightarrow> inv (put k v m)"
    and inv_erase: "inv m \<Longrightarrow> inv (erase k m)"
    and look_ext: "inv m \<Longrightarrow> inv n \<Longrightarrow> look m = look n \<Longrightarrow> m = n"
begin

lemma put_put_same: "inv m \<Longrightarrow> put k v (put k w m) = put k v m"
  by (rule look_ext) (simp_all add: inv_put look_put)

lemma put_commute: "inv m \<Longrightarrow> k \<noteq> k' \<Longrightarrow> put k v (put k' v' m) = put k' v' (put k v m)"
  by (rule look_ext) (simp_all add: inv_put look_put, rule fun_upd_twist, simp)

lemma erase_put_fresh: "inv m \<Longrightarrow> look m k = None \<Longrightarrow> erase k (put k v m) = m"
  by (rule look_ext) (auto simp: inv_put inv_erase look_put look_erase)

lemma put_look_same: "inv m \<Longrightarrow> look m k = Some v \<Longrightarrow> put k v m = m"
  by (rule look_ext) (auto simp: inv_put look_put)

lemma inv_puts: "inv m \<Longrightarrow> inv (fold (\<lambda>x. put (f x) (g x)) xs m)"
  by (induction xs arbitrary: m) (auto simp: inv_put)

lemma dom_puts: "dom (look (fold (\<lambda>x. put (f x) (g x)) xs m)) = dom (look m) \<union> f ` set xs"
  by (induction xs arbitrary: m) (auto simp: look_put)

lemma look_puts_notin:
  "k \<notin> f ` set xs \<Longrightarrow> look (fold (\<lambda>x. put (f x) (g x)) xs m) k = look m k"
  by (induction xs arbitrary: m) (auto simp: look_put)

lemma look_puts_in:
  "distinct (map f xs) \<Longrightarrow> x \<in> set xs \<Longrightarrow>
   look (fold (\<lambda>x. put (f x) (g x)) xs m) (f x) = Some (g x)"
proof (induction xs arbitrary: m)
  case Nil
  then show ?case by simp
next
  case (Cons y ys)
  then show ?case
    by (cases "x = y") (auto simp: look_puts_notin look_put)
qed

end

interpretation smap: ordered_dict smap_find smap_put smap_erase smap_ok
  by unfold_locales (auto intro: smap_eqI)

subsection \<open>size\_t and int arithmetic\<close>

definition size_max :: nat where
  "size_max = 2 ^ 64 - 1"

definition add_sz :: "nat \<Rightarrow> nat \<Rightarrow> nat" where
  "add_sz a b = (a + b) mod 2 ^ 64"

definition sub_sz :: "nat \<Rightarrow> nat \<Rightarrow> nat" where
  "sub_sz a b = (a + (2 ^ 64 - b mod 2 ^ 64)) mod 2 ^ 64"

definition int_max :: int where
  "int_max = 2 ^ 31 - 1"

definition int_min :: int where
  "int_min = - (2 ^ 31)"

lemma add_sz_small [simp]: "a + b < 2 ^ 64 \<Longrightarrow> add_sz a b = a + b"
  by (simp add: add_sz_def)

lemma sub_sz_le [simp]: "b \<le> a \<Longrightarrow> a < 2 ^ 64 \<Longrightarrow> sub_sz a b = a - b"
proof -
  assume "b \<le> a" and "a < 2 ^ 64"
  then have "a + (2 ^ 64 - b mod 2 ^ 64) = (a - b) + 2 ^ 64"
    by simp
  then show ?thesis
    unfolding sub_sz_def using \<open>a < 2 ^ 64\<close> by simp
qed

lemma sub_sz_bound: "sub_sz a b < 2 ^ 64"
  by (simp add: sub_sz_def)

lemma add_sz_bound: "add_sz a b < 2 ^ 64"
  by (simp add: add_sz_def)

end
