(* ===== verification/Addresses.thy ===== *)
theory Addresses
  imports Prelude
begin

section \<open>Name hashes and segment and port addresses\<close>

text \<open>
  \<^verbatim>\<open>src/public/core/addresses.cpp\<close>: the 16-bit name hash (32-bit FNV-1a folded to its
  low half), the 32-bit segment address (id and rank) and the 64-bit port address (id, rank
  and port), with their decoders and printers. \<^verbatim>\<open>include/srf/segment/utils.hpp\<close>: \<open>info\<close>.
  Widths are kept: \<^verbatim>\<open>SegmentID\<close>, \<^verbatim>\<open>SegmentRank\<close> and \<^verbatim>\<open>PortID\<close> are \<open>16 word\<close>,
  \<^verbatim>\<open>SegmentAddress\<close> is \<open>32 word\<close>, \<^verbatim>\<open>PortAddress\<close> is \<open>64 word\<close>.
\<close>

unbundle bit_operations_syntax

type_synonym segment_id = "16 word"
type_synonym segment_rank = "16 word"
type_synonym port_id = "16 word"
type_synonym segment_address = "32 word"
type_synonym port_address = "64 word"

subsection \<open>Decimal printing\<close>

text \<open>\<^verbatim>\<open>std::to_string\<close> and \<^verbatim>\<open>operator<<\<close> on an unsigned integer.\<close>

definition digit_char :: "nat \<Rightarrow> char" where
  "digit_char d = char_of (48 + d)"

fun show_nat :: "nat \<Rightarrow> string" where
  "show_nat n = (if n < 10 then [digit_char n] else show_nat (n div 10) @ [digit_char (n mod 10)])"

declare show_nat.simps [simp del]

subsection \<open>FNV-1a\<close>

definition fnv_offset_basis :: "32 word" where
  "fnv_offset_basis = 0x811C9DC5"

definition fnv_prime :: "32 word" where
  "fnv_prime = 0x01000193"

text \<open>\<^verbatim>\<open>std::uint32_t(a_string[0])\<close>: \<^verbatim>\<open>char\<close> is signed, so the byte is sign-extended.\<close>

definition char_u32 :: "char \<Rightarrow> 32 word" where
  "char_u32 c = signed_take_bit 7 (of_nat (of_char c))"

fun fnv1a_hash :: "string \<Rightarrow> 32 word \<Rightarrow> 32 word" where
  "fnv1a_hash [] val = val"
| "fnv1a_hash (c # cs) val =
     (if c = CHR 0x00 then val else fnv1a_hash cs ((val XOR char_u32 c) * fnv_prime))"

definition hash_16 :: "string \<Rightarrow> 16 word" where
  "hash_16 name = ucast (fnv1a_hash name fnv_offset_basis AND 0x0000FFFF)"

definition segment_name_hash :: "string \<Rightarrow> 16 word" where
  "segment_name_hash name = hash_16 name"

definition port_name_hash :: "string \<Rightarrow> 16 word" where
  "port_name_hash name = hash_16 name"

subsection \<open>Segment addresses\<close>

definition segment_address_encode :: "segment_id \<Rightarrow> segment_rank \<Rightarrow> segment_address" where
  "segment_address_encode seg_id seg_rank =
     (let i = ucast seg_id :: 32 word; r = ucast seg_rank :: 32 word in push_bit 16 i OR r)"

definition segment_address_decode :: "segment_address \<Rightarrow> segment_id \<times> segment_rank" where
  "segment_address_decode address =
     (ucast (drop_bit 16 address AND 0x0000FFFF), ucast (address AND 0x0000FFFF))"

definition segment_address_string :: "segment_id \<Rightarrow> segment_rank \<Rightarrow> string" where
  "segment_address_string id' rank =
     ''[segment id: '' @ show_nat (unat id') @ ''; rank: '' @ show_nat (unat rank) @ '']''"

definition segment_address_string_of :: "segment_address \<Rightarrow> string" where
  "segment_address_string_of address =
     (let (id', rank) = segment_address_decode address in segment_address_string id' rank)"

definition segment_info :: "segment_address \<Rightarrow> string" where
  "segment_info address =
     (let (id', rank) = segment_address_decode address
      in ''[Segment: '' @ show_nat (unat id') @ ''/'' @ show_nat (unat rank) @ ''/''
           @ show_nat (unat address) @ '']'')"

subsection \<open>Port addresses\<close>

definition port_address_encode_seg :: "segment_address \<Rightarrow> port_id \<Rightarrow> port_address" where
  "port_address_encode_seg seg_addr port =
     (let a = ucast seg_addr :: 64 word; p = ucast port :: 64 word in push_bit 16 a OR p)"

definition port_address_encode :: "segment_id \<Rightarrow> segment_rank \<Rightarrow> port_id \<Rightarrow> port_address" where
  "port_address_encode seg_id seg_rank port =
     port_address_encode_seg (segment_address_encode seg_id seg_rank) port"

definition port_address_decode :: "port_address \<Rightarrow> segment_id \<times> segment_rank \<times> port_id" where
  "port_address_decode address =
     (ucast (drop_bit 32 address AND 0x000000000000FFFF),
      ucast (drop_bit 16 address AND 0x000000000000FFFF),
      ucast (address AND 0x000000000000FFFF))"

definition port_address_string :: "segment_id \<Rightarrow> segment_rank \<Rightarrow> port_id \<Rightarrow> string" where
  "port_address_string id' rank port =
     ''[segment id: '' @ show_nat (unat id') @ ''; rank: '' @ show_nat (unat rank) @ ''; port: ''
       @ show_nat (unat port) @ '']''"

definition port_address_string_of :: "port_address \<Rightarrow> string" where
  "port_address_string_of address =
     (let (id', rank, port) = port_address_decode address in port_address_string id' rank port)"

subsection \<open>Bits of the encodings\<close>

lemma mask_16_32: "(0x0000FFFF :: 32 word) = mask 16"
  by (simp add: mask_eq_exp_minus_1)

lemma mask_16_64: "(0x000000000000FFFF :: 64 word) = mask 16"
  by (simp add: mask_eq_exp_minus_1)

lemmas address_bits = bit_and_iff bit_or_iff bit_push_bit_iff bit_drop_bit_eq bit_mask_iff
  bit_ucast_iff

lemma bit_segment_address_encode:
  "bit (segment_address_encode i r) n \<longleftrightarrow> (if n < 16 then bit r n else bit i (n - 16))"
  using bit_imp_le_length [of r n] bit_imp_le_length [of i "n - 16"]
  by (auto simp: segment_address_encode_def Let_def address_bits)

lemma bit_port_address_encode_seg:
  "bit (port_address_encode_seg a p) n \<longleftrightarrow> (if n < 16 then bit p n else bit a (n - 16))"
  using bit_imp_le_length [of p n] bit_imp_le_length [of a "n - 16"]
  by (auto simp: port_address_encode_seg_def Let_def address_bits)

lemma bit_port_address_encode:
  "bit (port_address_encode i r p) n \<longleftrightarrow>
     (if n < 16 then bit p n else if n < 32 then bit r (n - 16) else bit i (n - 32))"
  by (auto simp: port_address_encode_def bit_port_address_encode_seg bit_segment_address_encode)

text \<open>Decoding a segment address inverts encoding it, and encoding inverts decoding: the
  32-bit address is a bijection with (id, rank).\<close>

lemma segment_address_roundtrip:
  "segment_address_decode (segment_address_encode i r) = (i, r)
   \<and> (case segment_address_decode a of (j, q) \<Rightarrow> segment_address_encode j q) = a"
proof
  show "segment_address_decode (segment_address_encode i r) = (i, r)"
    unfolding segment_address_decode_def mask_16_32
    by (auto intro!: bit_word_eqI simp: bit_segment_address_encode address_bits)
  show "(case segment_address_decode a of (j, q) \<Rightarrow> segment_address_encode j q) = a"
    unfolding segment_address_decode_def mask_16_32
    by (auto intro!: bit_word_eqI simp: bit_segment_address_encode address_bits split: if_splits)
qed

text \<open>Decoding a port address returns the id, rank and port it was encoded from; the encoded
  address never uses the upper 16 bits, which is what the decoder's debug check demands, and the
  segment part of the port address is the segment address.\<close>

lemma port_address_roundtrip:
  "port_address_decode (port_address_encode i r p) = (i, r, p)
   \<and> port_address_encode i r p AND 0xFFFF000000000000 = 0
   \<and> ucast (drop_bit 16 (port_address_encode i r p)) = segment_address_encode i r"
proof (intro conjI)
  show "port_address_decode (port_address_encode i r p) = (i, r, p)"
    unfolding port_address_decode_def mask_16_64
    by (auto intro!: bit_word_eqI simp: bit_port_address_encode address_bits)
  have m: "(0xFFFF000000000000 :: 64 word) = push_bit 48 (mask 16)"
    by (simp add: mask_eq_exp_minus_1 push_bit_eq_mult)
  show "port_address_encode i r p AND 0xFFFF000000000000 = 0"
    unfolding m
  proof (rule bit_word_eqI)
    fix n assume "n < LENGTH(64)"
    show "bit (port_address_encode i r p AND push_bit 48 (mask 16)) n = bit (0 :: 64 word) n"
      using bit_imp_le_length [of i "n - 32"]
      by (auto simp: bit_port_address_encode address_bits)
  qed
  show "ucast (drop_bit 16 (port_address_encode i r p)) = segment_address_encode i r"
    by (rule bit_word_eqI)
      (auto simp: bit_port_address_encode bit_segment_address_encode address_bits)
qed

end
