(* ===== verification/Names.thy ===== *)
theory Names
  imports Addresses
begin

section \<open>Name registration: collision detector, segment definitions, pipeline registry\<close>

text \<open>
  \<^verbatim>\<open>src/internal/utils/collision_detector.cpp\<close> (\<open>CollisionDetector\<close>),
  \<^verbatim>\<open>src/internal/segment/definition.cpp\<close> (\<open>Definition\<close>, its port validation) and
  \<^verbatim>\<open>src/internal/pipeline/pipeline.cpp\<close> (\<open>Pipeline\<close>).
  An operation that throws returns \<open>Inl\<close>; where a throw leaves a partial update behind the
  operation returns the state beside the result.
\<close>

subsection \<open>CollisionDetector\<close>

record collision_detector =
  m_hashes :: "(16 word, string) smap"

definition new_collision_detector :: collision_detector where
  "new_collision_detector = \<lparr>m_hashes = []\<rparr>"

definition register_name ::
  "string \<Rightarrow> collision_detector \<Rightarrow> (16 word \<times> collision_detector) result" where
  "register_name nm cd =
     (let hash = port_name_hash nm
      in case smap_find (m_hashes cd) hash of
           None \<Rightarrow> Inr (hash, cd\<lparr>m_hashes := smap_put hash nm (m_hashes cd)\<rparr>)
         | Some other \<Rightarrow>
             if other \<noteq> nm then Inl (Srf_runtime_error ''name registration collision'')
             else Inr (hash, cd))"

definition lookup_name :: "collision_detector \<Rightarrow> string \<Rightarrow> 16 word result" where
  "lookup_name cd nm =
     (let hash = port_name_hash nm
      in case smap_find (m_hashes cd) hash of
           None \<Rightarrow> Inl (Srf_runtime_error ''name not registered'')
         | Some other \<Rightarrow>
             if other \<noteq> nm then Inl (Srf_runtime_error ''name registration collision'')
             else Inr hash)"

definition name_of_hash :: "collision_detector \<Rightarrow> 16 word \<Rightarrow> string result" where
  "name_of_hash cd hash =
     (case smap_find (m_hashes cd) hash of
        None \<Rightarrow> Inl (Srf_runtime_error ''hash not registered'')
      | Some nm \<Rightarrow> Inr nm)"

definition cd_ok :: "collision_detector \<Rightarrow> bool" where
  "cd_ok cd \<longleftrightarrow> smap_ok (m_hashes cd) \<and> (\<forall>(h, n) \<in> set (m_hashes cd). port_name_hash n = h)"

definition cd_names :: "collision_detector \<Rightarrow> string set" where
  "cd_names cd = ran (smap_find (m_hashes cd))"

lemma cd_ok_find: "cd_ok cd \<Longrightarrow> smap_find (m_hashes cd) h = Some n \<Longrightarrow> port_name_hash n = h"
  by (auto simp: cd_ok_def dest: map_of_SomeD)

lemma cd_okI:
  assumes "smap_ok (m_hashes cd)"
    and "\<And>h n. smap_find (m_hashes cd) h = Some n \<Longrightarrow> port_name_hash n = h"
  shows "cd_ok cd"
  using assms by (auto simp: cd_ok_def smap_ok_distinct)

lemma cd_ok_new [simp]: "cd_ok new_collision_detector"
  by (simp add: cd_ok_def new_collision_detector_def)

lemma cd_names_iff:
  "cd_ok cd \<Longrightarrow> n \<in> cd_names cd \<longleftrightarrow> smap_find (m_hashes cd) (port_name_hash n) = Some n"
  by (auto simp: cd_names_def ran_def dest: cd_ok_find)

lemma register_name_ok:
  "cd_ok cd \<Longrightarrow> register_name nm cd = Inr (h, cd') \<Longrightarrow> cd_ok cd'"
  by (auto simp: register_name_def Let_def split: option.splits if_splits
      intro!: cd_okI dest: cd_ok_find)
    (auto simp: cd_ok_def)

lemma register_name_names:
  assumes "cd_ok cd" and "register_name nm cd = Inr (h, cd')"
  shows "cd_names cd' = insert nm (cd_names cd) \<and> h = port_name_hash nm"
  using assms
  by (auto simp: register_name_def Let_def cd_names_def insert_absorb ranI
      split: option.splits if_splits)

lemma register_name_find:
  "register_name nm cd = Inr (h, cd') \<Longrightarrow>
   smap_find (m_hashes cd') = (smap_find (m_hashes cd))(port_name_hash nm \<mapsto> nm)"
  by (auto simp: register_name_def Let_def split: option.splits if_splits)

text \<open>Two registered names with the same hash are the same name.\<close>

lemma cd_names_inj: "cd_ok cd \<Longrightarrow> inj_on port_name_hash (cd_names cd)"
  by (auto simp: inj_on_def cd_names_iff)

text \<open>Registering a name fails exactly when a different name with the same 16-bit hash is
  already registered; otherwise the returned hash is the name's hash, looking the name up
  returns that hash, looking the hash up returns the name, every earlier name stays registered
  and the detector keeps its invariant.\<close>

lemma register_name_correct:
  assumes "cd_ok cd"
  shows "(\<exists>m. m \<in> cd_names cd \<and> m \<noteq> nm \<and> port_name_hash m = port_name_hash nm
            \<and> register_name nm cd = Inl (Srf_runtime_error ''name registration collision''))
       \<or> (\<exists>cd'. register_name nm cd = Inr (port_name_hash nm, cd') \<and> cd_ok cd'
            \<and> lookup_name cd' nm = Inr (port_name_hash nm)
            \<and> name_of_hash cd' (port_name_hash nm) = Inr nm
            \<and> cd_names cd' = insert nm (cd_names cd)
            \<and> (\<forall>m \<in> cd_names cd. m \<noteq> nm \<longrightarrow> port_name_hash m \<noteq> port_name_hash nm))"
proof (cases "register_name nm cd")
  case (Inl e)
  then obtain m where "smap_find (m_hashes cd) (port_name_hash nm) = Some m" "m \<noteq> nm"
      "e = Srf_runtime_error ''name registration collision''"
    by (auto simp: register_name_def Let_def split: option.splits if_splits)
  moreover from this have "port_name_hash m = port_name_hash nm"
    using cd_ok_find [OF assms] by simp
  moreover from calculation have "m \<in> cd_names cd"
    by (simp add: cd_names_iff [OF assms])
  ultimately show ?thesis using Inl by blast
next
  case (Inr p)
  obtain h cd' where p: "p = (h, cd')" by force
  have ok: "cd_ok cd'" and nms: "cd_names cd' = insert nm (cd_names cd)"
    and h: "h = port_name_hash nm"
    using Inr register_name_ok [OF assms] register_name_names [OF assms] by (auto simp: p)
  have f: "smap_find (m_hashes cd') (port_name_hash nm) = Some nm"
    using register_name_find Inr by (simp add: p)
  have "port_name_hash m \<noteq> port_name_hash nm" if "m \<in> cd_names cd" "m \<noteq> nm" for m
    using cd_names_inj [OF ok] that nms by (auto simp: inj_on_def)
  then show ?thesis
    using Inr ok nms f by (auto simp: p h lookup_name_def name_of_hash_def Let_def)
qed

lemma register_name_correct_witness:
  "cd_ok new_collision_detector
   \<and> (\<exists>cd'. register_name ''in'' new_collision_detector = Inr (port_name_hash ''in'', cd')
        \<and> lookup_name cd' ''in'' = Inr (port_name_hash ''in'')
        \<and> name_of_hash cd' (port_name_hash ''in'') = Inr ''in'')"
proof -
  have "cd_names new_collision_detector = {}"
    by (simp add: cd_names_def new_collision_detector_def)
  then show ?thesis
    using register_name_correct [OF cd_ok_new, of "''in''"] by auto
qed

subsection \<open>Segment definitions\<close>

text \<open>The initializers are values of the client's; the definition only keeps them by name.\<close>

record ('i, 'e, 'b) segment_definition =
  sd_name :: string
  sd_id :: segment_id
  sd_backend_initializer :: 'b
  sd_egress_initializers :: "(string, 'e) smap"
  sd_ingress_initializers :: "(string, 'i) smap"

definition ingress_port_names :: "('i, 'e, 'b) segment_definition \<Rightarrow> string list" where
  "ingress_port_names sd = map fst (sd_ingress_initializers sd)"

definition egress_port_names :: "('i, 'e, 'b) segment_definition \<Rightarrow> string list" where
  "egress_port_names sd = map fst (sd_egress_initializers sd)"

definition validate_ports :: "('i, 'e, 'b) segment_definition \<Rightarrow> unit result" where
  "validate_ports sd =
     (let names = map fst (sd_ingress_initializers sd) @ map fst (sd_egress_initializers sd);
          port_names = set names;
          port_hashes = set (map port_name_hash names)
      in if card port_names \<noteq> length names
         then Inl (Srf_runtime_error ''ingress and egress port names must be unique'')
         else if card port_hashes \<noteq> length names
         then Inl (Srf_runtime_error ''hash collection detected in port names'')
         else Inr ())"

definition make_definition ::
  "string \<Rightarrow> (string, 'i) smap \<Rightarrow> (string, 'e) smap \<Rightarrow> 'b \<Rightarrow> ('i, 'e, 'b) segment_definition result"
where
  "make_definition nm ins outs backend =
     (let sd = \<lparr>sd_name = nm, sd_id = segment_name_hash nm, sd_backend_initializer = backend,
                sd_egress_initializers = outs, sd_ingress_initializers = ins\<rparr>
      in case validate_ports sd of Inl e \<Rightarrow> Inl e | Inr _ \<Rightarrow> Inr sd)"

definition port_names :: "('i, 'e, 'b) segment_definition \<Rightarrow> string list" where
  "port_names sd = ingress_port_names sd @ egress_port_names sd"

lemma port_names_eq:
  "port_names sd = map fst (sd_ingress_initializers sd) @ map fst (sd_egress_initializers sd)"
  by (simp add: port_names_def ingress_port_names_def egress_port_names_def)

text \<open>Port validation accepts a definition exactly when no name is used by two ports and no
  two port names share a 16-bit hash; the uniqueness error takes precedence over the hash
  error.\<close>

lemma validate_ports_iff:
  "validate_ports sd =
     (if \<not> distinct (port_names sd)
      then Inl (Srf_runtime_error ''ingress and egress port names must be unique'')
      else if \<not> inj_on port_name_hash (set (port_names sd))
      then Inl (Srf_runtime_error ''hash collection detected in port names'')
      else Inr ())"
proof -
  have a: "card (set xs) = length xs \<longleftrightarrow> distinct xs" for xs :: "string list"
    using card_distinct distinct_card by blast
  have b: "card (set (map port_name_hash xs)) = length xs
      \<longleftrightarrow> inj_on port_name_hash (set xs)" if "distinct xs" for xs
    using that card_distinct [of "map port_name_hash xs"] distinct_card [of "map port_name_hash xs"]
    by (auto simp: distinct_map)
  show ?thesis
    using b by (auto simp: validate_ports_def Let_def a simp flip: port_names_eq)
qed

subsection \<open>The pipeline's registry of segments\<close>

record ('i, 'e, 'b) pipeline =
  m_segment_hasher :: collision_detector
  m_port_hasher :: collision_detector
  p_segments :: "(segment_id, ('i, 'e, 'b) segment_definition) smap"

definition new_pipeline :: "('i, 'e, 'b) pipeline" where
  "new_pipeline = \<lparr>m_segment_hasher = new_collision_detector,
                   m_port_hasher = new_collision_detector, p_segments = []\<rparr>"

text \<open>The two port loops; a collision throws out of the loop, with the ports before it registered.\<close>

fun register_ports ::
  "string list \<Rightarrow> collision_detector \<Rightarrow> collision_detector \<times> unit result" where
  "register_ports [] cd = (cd, Inr ())"
| "register_ports (n # ns) cd =
     (case register_name n cd of
        Inl e \<Rightarrow> (cd, Inl e)
      | Inr (pid, cd') \<Rightarrow> register_ports ns cd')"

definition add_segment ::
  "('i, 'e, 'b) segment_definition \<Rightarrow> ('i, 'e, 'b) pipeline \<Rightarrow> ('i, 'e, 'b) pipeline \<times> unit result"
where
  "add_segment seg p =
     (case register_name (sd_name seg) (m_segment_hasher p) of
        Inl e \<Rightarrow> (p, Inl e)
      | Inr (id', hasher) \<Rightarrow>
          (let p1 = p\<lparr>m_segment_hasher := hasher\<rparr>
           in if smap_find (p_segments p1) id' \<noteq> None
              then (p1, Inl (Srf_runtime_error ''duplicate segment registration''))
              else
                (let (ph, r) = register_ports (ingress_port_names seg) (m_port_hasher p1);
                     p2 = p1\<lparr>m_port_hasher := ph\<rparr>
                 in case r of Inl e \<Rightarrow> (p2, Inl e)
                    | Inr _ \<Rightarrow>
                        (let (ph', r') = register_ports (egress_port_names seg) (m_port_hasher p2);
                             p3 = p2\<lparr>m_port_hasher := ph'\<rparr>
                         in case r' of Inl e \<Rightarrow> (p3, Inl e)
                            | Inr _ \<Rightarrow> (p3\<lparr>p_segments := smap_put id' seg (p_segments p3)\<rparr>, Inr ())))))"

definition find_segment ::
  "('i, 'e, 'b) pipeline \<Rightarrow> segment_id \<Rightarrow> ('i, 'e, 'b) segment_definition result" where
  "find_segment p id' =
     (case smap_find (p_segments p) id' of
        None \<Rightarrow> Inl (Check_failed ''search != m_segments.end()'')
      | Some seg \<Rightarrow> Inr seg)"

definition pipeline_ok :: "('i, 'e, 'b) pipeline \<Rightarrow> bool" where
  "pipeline_ok p \<longleftrightarrow> cd_ok (m_segment_hasher p) \<and> cd_ok (m_port_hasher p) \<and> smap_ok (p_segments p)
     \<and> (\<forall>(i, seg) \<in> set (p_segments p). i = port_name_hash (sd_name seg)
          \<and> sd_name seg \<in> cd_names (m_segment_hasher p)
          \<and> set (port_names seg) \<subseteq> cd_names (m_port_hasher p))"

lemma register_ports_ok:
  "cd_ok cd \<Longrightarrow> register_ports ns cd = (cd', r) \<Longrightarrow>
   cd_ok cd' \<and> cd_names cd \<subseteq> cd_names cd' \<and> (r = Inr () \<longrightarrow> cd_names cd' = cd_names cd \<union> set ns)"
proof (induction ns arbitrary: cd)
  case Nil
  then show ?case by auto
next
  case (Cons n ns)
  show ?case
  proof (cases "register_name n cd")
    case (Inl e)
    with Cons.prems show ?thesis by auto
  next
    case (Inr q)
    obtain pid cd1 where q: "q = (pid, cd1)" by force
    have "cd_ok cd1" and "cd_names cd1 = insert n (cd_names cd)"
      using register_name_ok register_name_names Cons.prems(1) Inr by (auto simp: q)
    with Cons.IH [of cd1] Cons.prems Inr show ?thesis by (auto simp: q)
  qed
qed

lemma add_segment_cases:
  assumes "add_segment seg p = (p', r)"
  obtains (name) e where "register_name (sd_name seg) (m_segment_hasher p) = Inl e" "p' = p" "r = Inl e"
  | (later) hasher ph where
      "register_name (sd_name seg) (m_segment_hasher p) = Inr (port_name_hash (sd_name seg), hasher)"
      "p' = p\<lparr>m_segment_hasher := hasher, m_port_hasher := ph\<rparr>" "r \<noteq> Inr ()"
      "cd_ok (m_port_hasher p) \<longrightarrow> cd_ok ph \<and> cd_names (m_port_hasher p) \<subseteq> cd_names ph"
  | (added) hasher ph where
      "register_name (sd_name seg) (m_segment_hasher p) = Inr (port_name_hash (sd_name seg), hasher)"
      "smap_find (p_segments p) (port_name_hash (sd_name seg)) = None" "r = Inr ()"
      "p' = p\<lparr>m_segment_hasher := hasher, m_port_hasher := ph,
             p_segments := smap_put (port_name_hash (sd_name seg)) seg (p_segments p)\<rparr>"
      "cd_ok (m_port_hasher p) \<longrightarrow>
         cd_ok ph \<and> cd_names ph = cd_names (m_port_hasher p) \<union> set (port_names seg)"
proof (cases "register_name (sd_name seg) (m_segment_hasher p)")
  case (Inl e)
  then have "p' = p" "r = Inl e" using assms by (simp_all add: add_segment_def)
  with Inl show ?thesis by (rule name)
next
  case (Inr q)
  then obtain hasher where q: "q = (port_name_hash (sd_name seg), hasher)"
    by (cases q) (auto simp: register_name_def Let_def split: option.splits if_splits)
  obtain ph1 r1 where r1: "register_ports (ingress_port_names seg) (m_port_hasher p) = (ph1, r1)"
    by force
  obtain ph2 r2 where r2: "register_ports (egress_port_names seg) ph1 = (ph2, r2)" by force
  note ok1 = register_ports_ok [OF _ r1] and ok2 = register_ports_ok [OF _ r2]
  show ?thesis
  proof (cases "smap_find (p_segments p) (port_name_hash (sd_name seg))")
    case (Some s)
    then have "p' = p\<lparr>m_segment_hasher := hasher, m_port_hasher := m_port_hasher p\<rparr>"
        "r = Inl (Srf_runtime_error ''duplicate segment registration'')"
      using assms Inr q by (cases p; auto simp: add_segment_def)+
    then show ?thesis using later [of hasher "m_port_hasher p"] Inr q by simp
  next
    case None
    show ?thesis
    proof (cases r1)
      case r1e: (Inl e)
      have "p' = p\<lparr>m_segment_hasher := hasher, m_port_hasher := ph1\<rparr>" "r = Inl e"
        using None assms Inr q r1 r1e by (simp_all add: add_segment_def)
      then show ?thesis using later [of hasher ph1] Inr q ok1 by simp
    next
      case r1o: (Inr u)
      show ?thesis
      proof (cases r2)
        case r2e: (Inl e)
        have "p' = p\<lparr>m_segment_hasher := hasher, m_port_hasher := ph2\<rparr>" "r = Inl e"
          using None assms Inr q r1 r1o r2 r2e by (simp_all add: add_segment_def)
        then show ?thesis using later [of hasher ph2] Inr q ok1 ok2 by auto
      next
        case r2o: (Inr v)
        have "p' = p\<lparr>m_segment_hasher := hasher, m_port_hasher := ph2,
             p_segments := smap_put (port_name_hash (sd_name seg)) seg (p_segments p)\<rparr>" "r = Inr ()"
          using None assms Inr q r1 r1o r2 r2o by (simp_all add: add_segment_def)
        then show ?thesis
          using added [of hasher ph2] Inr q None ok1 ok2 r1o r2o by (auto simp: port_names_def)
      qed
    qed
  qed
qed

lemma pipeline_okD:
  assumes "pipeline_ok p" and "(i, seg) \<in> set (p_segments p)"
  shows "i = port_name_hash (sd_name seg)" "sd_name seg \<in> cd_names (m_segment_hasher p)"
    "set (port_names seg) \<subseteq> cd_names (m_port_hasher p)"
  using assms by (auto simp: pipeline_ok_def)

text \<open>C24. Adding a segment keeps the registry consistent whether it succeeds or throws (every
  stored segment sits under the hash of its own name, and the name and all its ports are
  registered), stores the segment under its id exactly on success, and leaves the stored
  segments untouched on every error path.\<close>

theorem add_segment_correct:
  assumes "pipeline_ok p" and "add_segment seg p = (p', r)"
  shows "pipeline_ok p'
     \<and> (r = Inr () \<longrightarrow> find_segment p' (segment_name_hash (sd_name seg)) = Inr seg
          \<and> smap_find (p_segments p) (segment_name_hash (sd_name seg)) = None)
     \<and> (r \<noteq> Inr () \<longrightarrow> p_segments p' = p_segments p)"
  using assms(2)
proof (cases rule: add_segment_cases)
  case (name e)
  with assms(1) show ?thesis by simp
next
  case (later hasher ph)
  have nm: "cd_ok hasher" "cd_names hasher = insert (sd_name seg) (cd_names (m_segment_hasher p))"
    using register_name_ok register_name_names later(1) assms(1) by (auto simp: pipeline_ok_def)
  show ?thesis
    using assms(1) later nm by (fastforce simp: pipeline_ok_def)
next
  case (added hasher ph)
  have nm: "cd_ok hasher" "cd_names hasher = insert (sd_name seg) (cd_names (m_segment_hasher p))"
    using register_name_ok register_name_names added(1) assms(1) by (auto simp: pipeline_ok_def)
  have ph: "cd_ok ph" "cd_names ph = cd_names (m_port_hasher p) \<union> set (port_names seg)"
    using added(5) assms(1) by (auto simp: pipeline_ok_def)
  have "case q of (i, s) \<Rightarrow> i = port_name_hash (sd_name s) \<and> sd_name s \<in> cd_names hasher
          \<and> set (port_names s) \<subseteq> cd_names ph"
    if "q \<in> set (smap_put (port_name_hash (sd_name seg)) seg (p_segments p))" for q
  proof -
    have "q = (port_name_hash (sd_name seg), seg) \<or> q \<in> set (p_segments p)"
      using that set_smap_put by fastforce
    then show ?thesis
      using pipeline_okD [OF assms(1)] nm(2) ph(2) by (cases q) fastforce
  qed
  then have "pipeline_ok p'"
    using assms(1) added(4) nm(1) ph(1) by (auto simp: pipeline_ok_def)
  then show ?thesis
    using added by (simp add: find_segment_def segment_name_hash_def port_name_hash_def)
qed

lemma pipeline_ok_new [simp]: "pipeline_ok new_pipeline"
  by (simp add: pipeline_ok_def new_pipeline_def)

definition example_segment :: "(unit, unit, unit) segment_definition" where
  "example_segment = \<lparr>sd_name = ''seg'', sd_id = segment_name_hash ''seg'',
     sd_backend_initializer = (), sd_egress_initializers = [(''out'', ())],
     sd_ingress_initializers = []\<rparr>"

lemma add_example_segment: "\<exists>p'. add_segment example_segment new_pipeline = (p', Inr ())"
  by (simp add: add_segment_def new_pipeline_def new_collision_detector_def example_segment_def
      register_name_def ingress_port_names_def egress_port_names_def Let_def)

theorem add_segment_correct_witness:
  "\<exists>p'. pipeline_ok (new_pipeline :: (unit, unit, unit) pipeline)
      \<and> add_segment example_segment new_pipeline = (p', Inr ()) \<and> pipeline_ok p'
      \<and> find_segment p' (segment_name_hash ''seg'') = Inr example_segment"
proof -
  obtain p' where p': "add_segment example_segment new_pipeline = (p', Inr ())"
    using add_example_segment by blast
  show ?thesis
    using add_segment_correct [OF pipeline_ok_new p'] p' by (auto simp: example_segment_def)
qed

end
