(* ===== verification/Arena_Blocks.thy ===== *)
theory Arena_Blocks
  imports Prelude
begin

section \<open>Arena blocks and the free set\<close>

text \<open>
  \<^verbatim>\<open>include/srf/memory/resources/detail/arena.hpp\<close>, first half: \<open>block\<close>, \<open>first_fit\<close> and
  \<open>coalesce_block\<close>. Addresses and sizes are naturals, address 0 is \<^verbatim>\<open>nullptr\<close>.
  A \<^verbatim>\<open>std::set<block>\<close> orders blocks by address only; it is a list strictly sorted by address.

  \<open>coalesce_block\<close> reads \<open>*previous\<close> even when the set is empty, where \<open>previous\<close> is
  \<^verbatim>\<open>end()\<close>. That read is undefined, so nothing is assumed about it: the parameter \<open>end_blk\<close> is \<open>None\<close> when
  the program does not survive it, and \<open>Some\<close> of whatever block it yields otherwise; merging with that block is
  undefined behaviour again.
\<close>

named_theorems blk_simps "arithmetic of blocks"

record block =
  bptr :: nat
  bsize :: nat

definition null_block :: block where
  "null_block = \<lparr>bptr = 0, bsize = 0\<rparr>"

definition minimum_superblock_size :: nat where
  "minimum_superblock_size = 2 ^ 18"

definition is_valid :: "block \<Rightarrow> bool" where
  "is_valid b \<longleftrightarrow> bptr b \<noteq> 0"

definition is_superblock :: "block \<Rightarrow> bool" where
  "is_superblock b \<longleftrightarrow> bsize b \<ge> minimum_superblock_size"

definition is_contiguous_before :: "block \<Rightarrow> block \<Rightarrow> bool" where
  "is_contiguous_before b blk \<longleftrightarrow> bptr b + bsize b = bptr blk"

definition fits :: "block \<Rightarrow> nat \<Rightarrow> bool" where
  "fits b size' \<longleftrightarrow> bsize b \<ge> size'"

definition split_block :: "block \<Rightarrow> nat \<Rightarrow> block \<times> block" where
  "split_block b size' =
     (if bsize b > size'
      then (\<lparr>bptr = bptr b, bsize = size'\<rparr>, \<lparr>bptr = bptr b + size', bsize = bsize b - size'\<rparr>)
      else (b, null_block))"

definition merge_block :: "block \<Rightarrow> block \<Rightarrow> block" where
  "merge_block b blk = \<lparr>bptr = bptr b, bsize = bsize b + bsize blk\<rparr>"

definition block_less :: "block \<Rightarrow> block \<Rightarrow> bool" where
  "block_less b blk \<longleftrightarrow> bptr b < bptr blk"

definition block_size_compare :: "block \<Rightarrow> block \<Rightarrow> bool" where
  "block_size_compare lhs rhs \<longleftrightarrow> bsize lhs < bsize rhs"

subsection \<open>std::set of blocks\<close>

type_synonym block_set = "block list"

fun set_insert :: "block \<Rightarrow> block_set \<Rightarrow> block_set" where
  "set_insert b [] = [b]"
| "set_insert b (c # cs) =
     (if block_less b c then b # c # cs
      else if block_less c b then c # set_insert b cs
      else c # cs)"

definition set_erase :: "block \<Rightarrow> block_set \<Rightarrow> block_set" where
  "set_erase b fs = filter (\<lambda>c. bptr c \<noteq> bptr b) fs"

definition first_fit :: "block_set \<Rightarrow> nat \<Rightarrow> block \<times> block_set" where
  "first_fit free_blocks size' =
     (case find (\<lambda>blk. fits blk size') free_blocks of
        None \<Rightarrow> (null_block, free_blocks)
      | Some blk \<Rightarrow>
          (let erased = set_erase blk free_blocks
           in if bsize blk > size'
              then (let (a, b) = split_block blk size' in (a, set_insert b erased))
              else (blk, erased)))"

definition coalesce_block :: "block option \<Rightarrow> block_set \<Rightarrow> block \<Rightarrow> (block \<times> block_set) result" where
  "coalesce_block end_blk free_blocks blk =
     (if \<not> is_valid blk then Inr (blk, free_blocks)
      else
        (let before = takeWhile (\<lambda>c. block_less c blk) free_blocks;
             after = dropWhile (\<lambda>c. block_less c blk) free_blocks;
             next' = (if after = [] then None else Some (hd after));
             previous = (if before = [] then next' else Some (last before))
         in case (previous, next') of
              (None, _) \<Rightarrow>
                (case end_blk of
                   None \<Rightarrow> Inl (Undefined_behaviour ''read of *end()'')
                 | Some e \<Rightarrow>
                     if is_contiguous_before e blk then Inl (Undefined_behaviour ''erase(end())'')
                     else Inr (blk, set_insert blk free_blocks))
            | (Some p, None) \<Rightarrow>
                if is_contiguous_before p blk
                then (let merged = merge_block p blk
                      in Inr (merged, set_insert merged (set_erase p free_blocks)))
                else Inr (blk, set_insert blk free_blocks)
            | (Some p, Some n) \<Rightarrow>
                (let merge_prev = is_contiguous_before p blk; merge_next = is_contiguous_before blk n
                 in if merge_prev \<and> merge_next
                    then (let merged = merge_block (merge_block p blk) n
                          in Inr (merged, set_insert merged (set_erase n (set_erase p free_blocks))))
                    else if merge_prev
                    then (let merged = merge_block p blk
                          in Inr (merged, set_insert merged (set_erase p free_blocks)))
                    else if merge_next
                    then (let merged = merge_block blk n
                          in Inr (merged, set_insert merged (set_erase n free_blocks)))
                    else Inr (blk, set_insert blk free_blocks))))"

definition total_block_size :: "block list \<Rightarrow> nat" where
  "total_block_size blocks = fold (\<lambda>rhs lhs. add_sz lhs (bsize rhs)) blocks 0"

subsection \<open>Bytes and the free-set invariant\<close>

abbreviation blk_end :: "block \<Rightarrow> nat" where
  "blk_end b \<equiv> bptr b + bsize b"

definition bytes_of :: "block \<Rightarrow> nat set" where
  "bytes_of b = {bptr b..<blk_end b}"

definition free_bytes :: "block_set \<Rightarrow> nat set" where
  "free_bytes fs = (\<Union>b \<in> set fs. bytes_of b)"

text \<open>Address order, real and non-empty blocks, and no two blocks adjacent: neighbours have been
  coalesced.\<close>

definition free_ok :: "block_set \<Rightarrow> bool" where
  "free_ok fs \<longleftrightarrow> sorted_wrt (\<lambda>a b. blk_end a < bptr b) fs \<and> (\<forall>b \<in> set fs. 0 < bptr b \<and> 0 < bsize b)"

lemmas block_defs = is_valid_def is_superblock_def is_contiguous_before_def fits_def
  split_block_def merge_block_def block_less_def null_block_def

lemma bptr_null [simp]: "bptr null_block = 0" "bsize null_block = 0"
  by (simp_all add: null_block_def)

lemma not_valid_null [simp]: "\<not> is_valid null_block"
  by (simp add: is_valid_def)

lemma free_bytes_simps [simp]:
  "free_bytes [] = {}" "free_bytes (b # fs) = bytes_of b \<union> free_bytes fs"
  "free_bytes (fs @ gs) = free_bytes fs \<union> free_bytes gs"
  by (auto simp: free_bytes_def)

lemma free_ok_Nil [simp]: "free_ok []"
  by (simp add: free_ok_def)

lemma free_ok_Cons:
  "free_ok (b # fs) \<longleftrightarrow> 0 < bptr b \<and> 0 < bsize b \<and> (\<forall>c \<in> set fs. blk_end b < bptr c) \<and> free_ok fs"
  by (auto simp: free_ok_def)

lemma free_ok_append:
  "free_ok (fs @ gs) \<longleftrightarrow>
     free_ok fs \<and> free_ok gs \<and> (\<forall>a \<in> set fs. \<forall>b \<in> set gs. blk_end a < bptr b)"
  by (auto simp: free_ok_def sorted_wrt_append)

lemma bytes_of_eq_empty [simp]: "bytes_of b = {} \<longleftrightarrow> bsize b = 0"
  by (auto simp: bytes_of_def)

lemma bytes_of_split:
  "size' < bsize b \<Longrightarrow> bytes_of b = bytes_of (fst (split_block b size')) \<union> bytes_of (snd (split_block b size'))
     \<and> bytes_of (fst (split_block b size')) \<inter> bytes_of (snd (split_block b size')) = {}"
  by (auto simp: split_block_def bytes_of_def)

lemma bytes_of_merge:
  "is_contiguous_before a b \<Longrightarrow> bytes_of (merge_block a b) = bytes_of a \<union> bytes_of b"
  by (auto simp: merge_block_def bytes_of_def is_contiguous_before_def)

lemma free_bytes_positive: "free_ok fs \<Longrightarrow> x \<in> free_bytes fs \<Longrightarrow> 0 < x"
  by (force simp: free_bytes_def bytes_of_def free_ok_def)

lemma set_insert_middle:
  assumes "\<And>c. c \<in> set xs \<Longrightarrow> bptr c < bptr b" and "\<And>c. c \<in> set ys \<Longrightarrow> bptr b < bptr c"
  shows "set_insert b (xs @ ys) = xs @ b # ys"
  using assms(1)
proof (induction xs)
  case Nil
  show ?case using assms(2) by (cases ys) (auto simp: block_less_def)
next
  case (Cons x xs)
  have "bptr x < bptr b" using Cons.prems by simp
  moreover have "set_insert b (xs @ ys) = xs @ b # ys" using Cons by simp
  ultimately show ?case by (simp add: block_less_def)
qed

lemma set_erase_middle:
  assumes "\<And>c. c \<in> set xs \<Longrightarrow> bptr c \<noteq> bptr b" and "\<And>c. c \<in> set ys \<Longrightarrow> bptr c \<noteq> bptr b"
  shows "set_erase b (xs @ b # ys) = xs @ ys"
  using assms by (simp add: set_erase_def)

subsection \<open>First fit\<close>

lemma find_split:
  "find P xs = Some x \<Longrightarrow> \<exists>us vs. xs = us @ x # vs \<and> P x \<and> (\<forall>u \<in> set us. \<not> P u)"
proof (induction xs)
  case Nil
  then show ?case by simp
next
  case (Cons y ys)
  show ?case
  proof (cases "P y")
    case True
    with Cons.prems show ?thesis by (auto intro: exI [of _ "[]"])
  next
    case False
    with Cons obtain us vs where "ys = us @ x # vs" "P x" "\<forall>u \<in> set us. \<not> P u" by auto
    with False show ?thesis by (intro exI [of _ "y # us"] exI [of _ vs]) auto
  qed
qed

text \<open>What first fit does to the free list: the first block that fits gives up its low end.\<close>

lemma first_fit_cases:
  assumes "first_fit fs n = (r, fs')" and "free_ok fs"
  obtains (none) "\<forall>b \<in> set fs. bsize b < n" "r = null_block" "fs' = fs"
  | (exact) us b vs where "fs = us @ b # vs" "\<forall>u \<in> set us. bsize u < n" "bsize b = n"
      "r = b" "fs' = us @ vs"
  | (split) us b vs where "fs = us @ b # vs" "\<forall>u \<in> set us. bsize u < n" "n < bsize b"
      "r = \<lparr>bptr = bptr b, bsize = n\<rparr>"
      "fs' = us @ \<lparr>bptr = bptr b + n, bsize = bsize b - n\<rparr> # vs"
proof (cases "find (\<lambda>blk. fits blk n) fs")
  case None
  then have "first_fit fs n = (null_block, fs)" "\<forall>b \<in> set fs. bsize b < n"
    by (simp add: first_fit_def) (use None in \<open>auto simp: find_None_iff fits_def not_le\<close>)
  then show ?thesis using none assms(1) by simp
next
  case (Some b)
  then obtain us vs where fs: "fs = us @ b # vs" and b: "fits b n" and us: "\<forall>u \<in> set us. \<not> fits u n"
    using find_split by fastforce
  have less: "\<forall>u \<in> set us. blk_end u < bptr b" "\<forall>v \<in> set vs. blk_end b < bptr v"
    using assms(2) by (auto simp: fs free_ok_append free_ok_Cons)
  have er: "set_erase b fs = us @ vs"
    unfolding fs using less by (intro set_erase_middle) fastforce+
  have us': "\<forall>u \<in> set us. bsize u < n" using us by (simp add: fits_def not_le)
  show ?thesis
  proof (cases "n < bsize b")
    case True
    have "set_insert \<lparr>bptr = bptr b + n, bsize = bsize b - n\<rparr> (us @ vs)
        = us @ \<lparr>bptr = bptr b + n, bsize = bsize b - n\<rparr> # vs"
      using less True by (intro set_insert_middle) fastforce+
    then show ?thesis
      using split [OF fs us' True] Some er True assms(1) by (simp add: first_fit_def split_block_def)
  next
    case False
    then have "bsize b = n" using b by (simp add: fits_def)
    then show ?thesis
      using exact [OF fs us'] Some er assms(1) by (simp add: first_fit_def)
  qed
qed

lemma first_fit_result:
  assumes "free_ok fs" and "0 < n" and "first_fit fs n = (b, fs')"
  shows "free_ok fs'
     \<and> (\<not> is_valid b \<longrightarrow> fs' = fs \<and> (\<forall>c \<in> set fs. bsize c < n))
     \<and> (is_valid b \<longrightarrow> bsize b = n \<and> bytes_of b \<union> free_bytes fs' = free_bytes fs
          \<and> bytes_of b \<inter> free_bytes fs' = {}
          \<and> (\<exists>c \<in> set fs. bptr c = bptr b \<and> n \<le> bsize c
               \<and> (\<forall>d \<in> set fs. n \<le> bsize d \<longrightarrow> bptr c \<le> bptr d)))"
  using assms(3,1)
proof (cases rule: first_fit_cases)
  case none
  with assms show ?thesis by simp
next
  case (exact us c vs)
  with assms show ?thesis
    by (fastforce simp: free_ok_append free_ok_Cons is_valid_def bytes_of_def free_bytes_def)
next
  case (split us c vs)
  with assms have b: "b = \<lparr>bptr = bptr c, bsize = n\<rparr>"
    and fs': "fs' = us @ \<lparr>bptr = bptr c + n, bsize = bsize c - n\<rparr> # vs" by simp_all
  have "free_ok fs'"
    using assms(1) split(1,3) unfolding fs' by (fastforce simp: free_ok_append free_ok_Cons)
  moreover have "bytes_of b \<union> free_bytes fs' = free_bytes fs"
    using split(1,3) unfolding fs' b by (auto simp: bytes_of_def)
  moreover have "bytes_of b \<inter> free_bytes fs' = {}"
    using assms(1) split(1,3) unfolding fs' b
    by (fastforce simp: bytes_of_def free_bytes_def free_ok_append free_ok_Cons)
  moreover have "\<exists>x \<in> set fs. bptr x = bptr b \<and> n \<le> bsize x
      \<and> (\<forall>d \<in> set fs. n \<le> bsize d \<longrightarrow> bptr x \<le> bptr d)"
    using assms(1) split(1-3) unfolding b by (fastforce simp: free_ok_append free_ok_Cons)
  moreover have "is_valid b"
    using assms(1) split(1) by (auto simp: b is_valid_def free_ok_append free_ok_Cons)
  ultimately show ?thesis by (simp add: b)
qed

text \<open>First fit on a well-formed free set: it fails only when no block is large enough;
  otherwise it returns a block of exactly the requested size, at the lowest address of the first
  block in address order that fits; the bytes of the free set are split exactly between the
  returned block and the new free set, which is again well formed (ordered and coalesced).\<close>

lemma first_fit_correct:
  assumes "free_ok fs" and "0 < n" and "first_fit fs n = (b, fs')"
  shows "free_ok fs'
     \<and> (\<not> is_valid b \<longrightarrow> fs' = fs \<and> (\<forall>c \<in> set fs. bsize c < n))
     \<and> (is_valid b \<longrightarrow> bsize b = n \<and> bytes_of b \<union> free_bytes fs' = free_bytes fs
          \<and> bytes_of b \<inter> free_bytes fs' = {}
          \<and> (\<exists>c \<in> set fs. bptr c = bptr b \<and> n \<le> bsize c
               \<and> (\<forall>d \<in> set fs. n \<le> bsize d \<longrightarrow> bptr c \<le> bptr d)))"
  by (rule first_fit_result [OF assms])

subsection \<open>Coalescing\<close>

text \<open>Where a block that is disjoint from the free set falls: between \<open>xs\<close> and \<open>ys\<close>.\<close>

lemma neighbours:
  assumes "free_ok fs" and "0 < bsize blk" and "bytes_of blk \<inter> free_bytes fs = {}"
  defines "xs \<equiv> takeWhile (\<lambda>c. block_less c blk) fs" and "ys \<equiv> dropWhile (\<lambda>c. block_less c blk) fs"
  shows "fs = xs @ ys" "\<forall>x \<in> set xs. blk_end x \<le> bptr blk" "\<forall>y \<in> set ys. blk_end blk \<le> bptr y"
proof -
  show fs: "fs = xs @ ys" by (simp add: xs_def ys_def)
  have disj: "bytes_of blk \<inter> bytes_of c = {}" "0 < bsize c" if "c \<in> set fs" for c
    using assms(1,3) that by (auto simp: free_bytes_def free_ok_def)
  show "\<forall>x \<in> set xs. blk_end x \<le> bptr blk"
  proof
    fix x assume x: "x \<in> set xs"
    then have "bptr x < bptr blk" by (auto simp: xs_def block_less_def dest: set_takeWhileD)
    moreover have "x \<in> set fs" using x fs by simp
    ultimately show "blk_end x \<le> bptr blk"
      using disj [of x] assms(2) by (fastforce simp: bytes_of_def set_eq_iff not_le)
  qed
  show "\<forall>y \<in> set ys. blk_end blk \<le> bptr y"
  proof
    fix y assume y: "y \<in> set ys"
    then obtain h t where ys: "ys = h # t" by (cases ys) auto
    then have "\<not> block_less h blk" by (metis ys_def dropWhile_eq_Cons_conv)
    then have h: "bptr blk \<le> bptr h" by (simp add: block_less_def)
    have "y = h \<or> blk_end h < bptr y"
      using assms(1) y unfolding fs ys by (auto simp: free_ok_append free_ok_Cons)
    then have "bptr blk \<le> bptr y" using h by auto
    moreover have "y \<in> set fs" using y fs by simp
    ultimately show "blk_end blk \<le> bptr y"
      using disj [of y] by (fastforce simp: bytes_of_def set_eq_iff not_le)
  qed
qed

lemma free_ok_place:
  "free_ok (us @ vs) \<Longrightarrow> 0 < bptr m \<Longrightarrow> 0 < bsize m \<Longrightarrow> \<forall>u \<in> set us. blk_end u < bptr m \<Longrightarrow>
   \<forall>v \<in> set vs. blk_end m < bptr v \<Longrightarrow> free_ok (us @ m # vs)"
  by (auto simp: free_ok_append free_ok_Cons)

lemma set_insert_place:
  assumes "\<forall>u \<in> set us. bptr u < bptr m" and "\<forall>v \<in> set vs. bptr m < bptr v"
  shows "set_insert m (us @ vs) = us @ m # vs"
  using assms by (intro set_insert_middle) auto

lemma gap_before:
  "free_ok xs \<Longrightarrow> \<forall>x \<in> set xs. blk_end x \<le> a \<Longrightarrow> xs = [] \<or> blk_end (last xs) \<noteq> a \<Longrightarrow>
   \<forall>x \<in> set xs. blk_end x < a"
  by (cases xs rule: rev_cases) (fastforce simp: free_ok_append free_ok_Cons)+

lemma gap_after:
  "free_ok ys \<Longrightarrow> \<forall>y \<in> set ys. a \<le> bptr y \<Longrightarrow> ys = [] \<or> a \<noteq> bptr (hd ys) \<Longrightarrow>
   \<forall>y \<in> set ys. a < bptr y"
  by (cases ys) (fastforce simp: free_ok_append free_ok_Cons)+

text \<open>The parts of the free list that a block merges with: \<open>ps\<close> on its left, \<open>ns\<close> on its
  right, each at most one block.\<close>

definition merge_parts :: "block_set \<Rightarrow> block \<Rightarrow> block_set \<times> block_set \<times> block_set \<times> block_set" where
  "merge_parts fs blk =
     (let xs = takeWhile (\<lambda>c. block_less c blk) fs; ys = dropWhile (\<lambda>c. block_less c blk) fs;
          mp = (xs \<noteq> [] \<and> is_contiguous_before (last xs) blk);
          mn = (ys \<noteq> [] \<and> is_contiguous_before blk (hd ys))
      in (if mp then butlast xs else xs, if mp then [last xs] else [],
          if mn then [hd ys] else [], if mn then tl ys else ys))"

lemma merge_parts_props:
  assumes ok: "free_ok fs" and v: "is_valid blk" "0 < bsize blk"
    and disj: "bytes_of blk \<inter> free_bytes fs = {}"
    and parts: "merge_parts fs blk = (us, ps, ns, vs)"
  shows "fs = us @ ps @ ns @ vs" "length ps \<le> 1" "length ns \<le> 1"
    "\<forall>p \<in> set ps. blk_end p = bptr blk" "\<forall>q \<in> set ns. bptr q = blk_end blk"
    "\<forall>u \<in> set us. blk_end u < bptr blk" "\<forall>w \<in> set vs. blk_end blk < bptr w"
proof -
  obtain xs ys where xs: "xs = takeWhile (\<lambda>c. block_less c blk) fs"
    and ys: "ys = dropWhile (\<lambda>c. block_less c blk) fs" by blast
  note n = neighbours [OF ok v(2) disj, folded xs ys]
  have p: "us = (if xs \<noteq> [] \<and> is_contiguous_before (last xs) blk then butlast xs else xs)"
    "ps = (if xs \<noteq> [] \<and> is_contiguous_before (last xs) blk then [last xs] else [])"
    "ns = (if ys \<noteq> [] \<and> is_contiguous_before blk (hd ys) then [hd ys] else [])"
    "vs = (if ys \<noteq> [] \<and> is_contiguous_before blk (hd ys) then tl ys else ys)"
    using parts by (auto simp: merge_parts_def xs ys Let_def)
  have xsp: "xs = us @ ps" and ysp: "ys = ns @ vs" by (simp_all add: p)
  show fs: "fs = us @ ps @ ns @ vs" using n(1) by (simp add: xsp ysp)
  show len: "length ps \<le> 1" "length ns \<le> 1" by (simp_all add: p)
  show ps: "\<forall>q \<in> set ps. blk_end q = bptr blk" and ns: "\<forall>q \<in> set ns. bptr q = blk_end blk"
    by (auto simp: p is_contiguous_before_def)
  have okx: "free_ok xs" and oky: "free_ok ys" using ok n(1) by (simp_all add: free_ok_append)
  show "\<forall>u \<in> set us. blk_end u < bptr blk"
  proof (cases "ps = []")
    case True
    then have "xs = [] \<or> blk_end (last xs) \<noteq> bptr blk"
      using p(2) by (auto simp: is_contiguous_before_def split: if_splits)
    then show ?thesis using gap_before [OF okx n(2)] xsp True by simp
  next
    case False
    then obtain q where q: "ps = [q]" using len(1) by (cases ps) auto
    have "blk_end u < bptr q" if "u \<in> set us" for u
      using okx that by (simp add: xsp q free_ok_append)
    moreover have "bptr q \<le> bptr blk" using ps q by auto
    ultimately show ?thesis by fastforce
  qed
  show "\<forall>w \<in> set vs. blk_end blk < bptr w"
  proof (cases "ns = []")
    case True
    then have "ys = [] \<or> blk_end blk \<noteq> bptr (hd ys)"
      using p(3) by (auto simp: is_contiguous_before_def split: if_splits)
    then show ?thesis using gap_after [OF oky n(3)] ysp True by simp
  next
    case False
    then obtain q where q: "ns = [q]" using len(2) by (cases ns) auto
    have "blk_end q < bptr w" if "w \<in> set vs" for w
      using oky that by (simp add: ysp q free_ok_Cons)
    moreover have "blk_end blk \<le> blk_end q" using ns q by auto
    ultimately show ?thesis by fastforce
  qed
qed

text \<open>The block that coalescing produces from its parts.\<close>

definition merged_block :: "block_set \<Rightarrow> block \<Rightarrow> block_set \<Rightarrow> block" where
  "merged_block ps blk ns =
     \<lparr>bptr = (case ps of [] \<Rightarrow> bptr blk | p # _ \<Rightarrow> bptr p),
      bsize = sum_list (map bsize ps) + bsize blk + sum_list (map bsize ns)\<rparr>"

lemma merged_block_low:
  fixes us ps ns :: block_set
  assumes "free_ok (us @ ps)" and "0 < bptr blk" and "length ps \<le> 1"
    and "\<forall>p \<in> set ps. blk_end p = bptr blk" and "\<forall>u \<in> set us. blk_end u < bptr blk"
  defines "m \<equiv> merged_block ps blk ns"
  shows "0 < bptr m" "\<forall>u \<in> set us. blk_end u < bptr m"
    "bptr m + sum_list (map bsize ps) = bptr blk" "free_bytes ps = {bptr m..<bptr blk}"
proof -
  have "ps = [] \<or> (\<exists>p. ps = [p])" using assms(3) by (cases ps) auto
  then have "0 < bptr m \<and> (\<forall>u \<in> set us. blk_end u < bptr m)
      \<and> bptr m + sum_list (map bsize ps) = bptr blk \<and> free_bytes ps = {bptr m..<bptr blk}"
  proof (elim disjE exE)
    assume "ps = []"
    then show ?thesis using assms(2,5) by (simp add: m_def merged_block_def)
  next
    fix p assume ps: "ps = [p]"
    then have "bptr m = bptr p" by (simp add: m_def merged_block_def)
    moreover have "0 < bptr p" "\<forall>u \<in> set us. blk_end u < bptr p"
      using assms(1) ps by (simp_all add: free_ok_append free_ok_Cons)
    moreover have "blk_end p = bptr blk" using assms(4) ps by simp
    ultimately show ?thesis by (simp add: ps bytes_of_def)
  qed
  then show "0 < bptr m" "\<forall>u \<in> set us. blk_end u < bptr m"
    "bptr m + sum_list (map bsize ps) = bptr blk" "free_bytes ps = {bptr m..<bptr blk}" by blast+
qed

lemma merged_block_high:
  assumes "free_ok (ns @ vs)" and "length ns \<le> 1"
    and "\<forall>q \<in> set ns. bptr q = blk_end blk" and "\<forall>w \<in> set vs. blk_end blk < bptr w"
  shows "\<forall>w \<in> set vs. blk_end blk + sum_list (map bsize ns) < bptr w"
    "free_bytes ns = {blk_end blk..<blk_end blk + sum_list (map bsize ns)}"
proof -
  have "ns = [] \<or> (\<exists>q. ns = [q])" using assms(2) by (cases ns) auto
  then have "(\<forall>w \<in> set vs. blk_end blk + sum_list (map bsize ns) < bptr w)
      \<and> free_bytes ns = {blk_end blk..<blk_end blk + sum_list (map bsize ns)}"
  proof (elim disjE exE)
    assume "ns = []"
    then show ?thesis using assms(4) by simp
  next
    fix q assume ns: "ns = [q]"
    have "\<forall>w \<in> set vs. blk_end q < bptr w" using assms(1) ns by (simp add: free_ok_Cons)
    moreover have "bptr q = blk_end blk" using assms(3) ns by simp
    ultimately show ?thesis by (simp add: ns bytes_of_def)
  qed
  then show "\<forall>w \<in> set vs. blk_end blk + sum_list (map bsize ns) < bptr w"
    "free_bytes ns = {blk_end blk..<blk_end blk + sum_list (map bsize ns)}" by blast+
qed

lemma merged_block_props:
  assumes ok: "free_ok fs" and v: "is_valid blk" "0 < bsize blk"
    and disj: "bytes_of blk \<inter> free_bytes fs = {}"
    and parts: "merge_parts fs blk = (us, ps, ns, vs)"
  defines "m \<equiv> merged_block ps blk ns"
  shows "free_ok (us @ m # vs)" "bytes_of m = free_bytes ps \<union> bytes_of blk \<union> free_bytes ns"
    "\<forall>u \<in> set us. bptr u < bptr m" "\<forall>w \<in> set vs. bptr m < bptr w"
proof -
  note pp = merge_parts_props [OF ok v disj parts]
  have okf: "free_ok (us @ ps @ ns @ vs)" using ok unfolding pp(1) .
  have okl: "free_ok (us @ ps)" and okh: "free_ok (ns @ vs)" and okm: "free_ok (us @ vs)"
    using okf by (simp_all add: free_ok_append)
  have b0: "0 < bptr blk" using v by (simp add: is_valid_def)
  note lo = merged_block_low [OF okl b0 pp(2,4,6), of ns, folded m_def]
  note hi = merged_block_high [OF okh pp(3,5,7)]
  have me: "blk_end m = blk_end blk + sum_list (map bsize ns)"
    using lo(3) by (simp add: m_def merged_block_def)
  have m0: "0 < bsize m" using v by (simp add: m_def merged_block_def)
  have we: "\<forall>w \<in> set vs. blk_end m < bptr w" using hi(1) unfolding me .
  show "\<forall>u \<in> set us. bptr u < bptr m" using lo(2) by fastforce
  show "\<forall>w \<in> set vs. bptr m < bptr w" using we by fastforce
  show "bytes_of m = free_bytes ps \<union> bytes_of blk \<union> free_bytes ns"
    unfolding lo(4) hi(2) bytes_of_def me using lo(3) by auto
  show "free_ok (us @ m # vs)" by (rule free_ok_place [OF okm lo(1) m0 lo(2) we])
qed

lemma free_ok_erase:
  "free_ok (us @ b # vs) \<Longrightarrow> set_erase b (us @ b # vs) = us @ vs"
  by (intro set_erase_middle) (fastforce simp: free_ok_append free_ok_Cons)+

text \<open>The read of \<^verbatim>\<open>*end()\<close> is survived and yields no block that ends where \<open>blk\<close> starts.\<close>

definition harmless :: "block option \<Rightarrow> block \<Rightarrow> bool" where
  "harmless end_blk blk \<longleftrightarrow> (case end_blk of None \<Rightarrow> False | Some e \<Rightarrow> \<not> is_contiguous_before e blk)"

lemma coalesce_block_eq:
  assumes ok: "free_ok fs" and v: "is_valid blk" "0 < bsize blk"
    and disj: "bytes_of blk \<inter> free_bytes fs = {}"
    and sentinel: "fs = [] \<Longrightarrow> harmless end_blk blk"
    and parts: "merge_parts fs blk = (us, ps, ns, vs)"
  defines "m \<equiv> merged_block ps blk ns"
  shows "coalesce_block end_blk fs blk = Inr (m, us @ m # vs)"
proof -
  obtain xs ys where xs: "takeWhile (\<lambda>c. block_less c blk) fs = xs"
    and ys: "dropWhile (\<lambda>c. block_less c blk) fs = ys" by blast
  note n = neighbours [OF ok v(2) disj, unfolded xs ys]
  note mb = merged_block_props [OF ok v disj parts, folded m_def]
  have ins: "set_insert m (us @ vs) = us @ m # vs" by (rule set_insert_place [OF mb(3,4)])
  have fs: "fs = us @ ps @ ns @ vs" by (rule merge_parts_props(1) [OF ok v disj parts])
  have okf: "free_ok (us @ ps @ ns @ vs)" using ok unfolding fs .
  have hd_ys: "\<not> is_contiguous_before (hd ys) blk" if "ys \<noteq> []"
    using n(3) that v(2) by (cases ys) (auto simp: is_contiguous_before_def)
  have p: "us = (if xs \<noteq> [] \<and> is_contiguous_before (last xs) blk then butlast xs else xs)"
    "ps = (if xs \<noteq> [] \<and> is_contiguous_before (last xs) blk then [last xs] else [])"
    "ns = (if ys \<noteq> [] \<and> is_contiguous_before blk (hd ys) then [hd ys] else [])"
    "vs = (if ys \<noteq> [] \<and> is_contiguous_before blk (hd ys) then tl ys else ys)"
    using parts by (auto simp: merge_parts_def xs ys Let_def)
  have mm: "m = (if xs \<noteq> [] \<and> is_contiguous_before (last xs) blk
      then if ys \<noteq> [] \<and> is_contiguous_before blk (hd ys)
           then merge_block (merge_block (last xs) blk) (hd ys) else merge_block (last xs) blk
      else if ys \<noteq> [] \<and> is_contiguous_before blk (hd ys) then merge_block blk (hd ys) else blk)"
    by (simp add: m_def merged_block_def merge_block_def p(2,3))
  let ?mp = "xs \<noteq> [] \<and> is_contiguous_before (last xs) blk"
  let ?mn = "ys \<noteq> [] \<and> is_contiguous_before blk (hd ys)"
  have er: "set_erase (last xs) fs = us @ ns @ vs" if "?mp"
    using free_ok_erase [of us "last xs" "ns @ vs"] okf that p(2) by (simp add: fs)
  have en: "set_erase (hd ys) (us @ ns @ vs) = us @ vs" if "?mn"
    using free_ok_erase [of us "hd ys" vs] okf that p(3) by (simp add: free_ok_append)
  have e: "?mp \<Longrightarrow> ?mn \<Longrightarrow> set_erase (hd ys) (set_erase (last xs) fs) = us @ vs"
    "?mp \<Longrightarrow> \<not> ?mn \<Longrightarrow> set_erase (last xs) fs = us @ vs"
    "\<not> ?mp \<Longrightarrow> ?mn \<Longrightarrow> set_erase (hd ys) fs = us @ vs" "\<not> ?mp \<Longrightarrow> \<not> ?mn \<Longrightarrow> fs = us @ vs"
    using er en fs p(2,3) by auto
  have se: "\<exists>c. end_blk = Some c \<and> \<not> is_contiguous_before c blk" if "xs = []" "ys = []"
    using sentinel that n(1) by (simp add: harmless_def split: option.splits)
  show ?thesis
    unfolding coalesce_block_def Let_def xs ys using v(1) ins
    by (cases "xs = []"; cases "ys = []"; cases "is_contiguous_before (last xs) blk";
        cases "is_contiguous_before blk (hd ys)") (use se in \<open>auto simp: mm hd_ys e\<close>)
qed

text \<open>The form the arenas use: coalescing reads \<^verbatim>\<open>*end()\<close> of an empty set, or succeeds, and its result is known up to bytes.\<close>

lemma coalesce_block_result:
  assumes "free_ok fs" and "is_valid blk" and "0 < bsize blk" and "bytes_of blk \<inter> free_bytes fs = {}"
  obtains (undefined) msg where "fs = []" "\<not> harmless end_blk blk" "coalesce_block end_blk fs blk = Inl (Undefined_behaviour msg)"
  | (merged) m fs' where "fs = [] \<longrightarrow> harmless end_blk blk" "coalesce_block end_blk fs blk = Inr (m, fs')" "free_ok fs'" "m \<in> set fs'"
    "bytes_of blk \<subseteq> bytes_of m" "free_bytes fs' = free_bytes fs \<union> bytes_of blk"
proof (cases "fs = [] \<and> \<not> harmless end_blk blk")
  case True
  then have "\<exists>msg. coalesce_block end_blk fs blk = Inl (Undefined_behaviour msg)"
    using assms(2) by (auto simp: coalesce_block_def harmless_def split: option.splits)
  then show ?thesis using True undefined by blast
next
  case False
  obtain us ps ns vs where parts: "merge_parts fs blk = (us, ps, ns, vs)" by (metis prod_cases4)
  note pr = assms(1-4) parts
  have "fs = [] \<Longrightarrow> harmless end_blk blk" using False by simp
  note eq = coalesce_block_eq [OF assms(1-4) this parts]
  note mb = merged_block_props [OF pr]
  have "free_bytes (us @ merged_block ps blk ns # vs) = free_bytes fs \<union> bytes_of blk"
    using merge_parts_props(1) [OF pr] mb(2) by auto
  with eq mb(1,2) False show ?thesis by (intro merged) auto
qed

text \<open>C11. Returning a block to a well-formed free set it does not overlap: the block is merged with the neighbour that ends where
  it starts and with the one that starts where it ends, the merged block is in the new set, the bytes of the set grow
  by exactly the returned bytes, and no two blocks of the new set overlap or touch. The one thing that can go wrong is
  the read of \<^verbatim>\<open>*end()\<close> when the set is empty: it is undefined, and unless it happens to be harmless so is the call.\<close>

theorem coalesce_block_correct:
  assumes "free_ok fs" and "is_valid blk" and "0 < bsize blk" and "bytes_of blk \<inter> free_bytes fs = {}"
  shows "case coalesce_block end_blk fs blk of
      Inl e \<Rightarrow> fs = [] \<and> \<not> harmless end_blk blk \<and> (\<exists>msg. e = Undefined_behaviour msg)
    | Inr (m, fs') \<Rightarrow> (fs = [] \<longrightarrow> harmless end_blk blk) \<and> free_ok fs' \<and> m \<in> set fs'
        \<and> bytes_of blk \<subseteq> bytes_of m \<and> free_bytes fs' = free_bytes fs \<union> bytes_of blk"
  by (rule coalesce_block_result [OF assms, of end_blk]) simp_all

theorem coalesce_block_correct_witness:
  "case coalesce_block None [\<lparr>bptr = 256, bsize = 256\<rparr>, \<lparr>bptr = 768, bsize = 256\<rparr>] \<lparr>bptr = 512, bsize = 256\<rparr> of
     Inl e \<Rightarrow> False
   | Inr (m, fs') \<Rightarrow> free_ok fs' \<and> m \<in> set fs' \<and> bytes_of \<lparr>bptr = 512, bsize = 256\<rparr> \<subseteq> bytes_of m
     \<and> free_bytes fs' = free_bytes [\<lparr>bptr = 256, bsize = 256\<rparr>, \<lparr>bptr = 768, bsize = 256\<rparr>]
          \<union> bytes_of \<lparr>bptr = 512, bsize = 256\<rparr>"
proof -
  let ?fs = "[\<lparr>bptr = 256, bsize = 256\<rparr>, \<lparr>bptr = 768, bsize = 256\<rparr>]"
  have "free_ok ?fs" "bytes_of \<lparr>bptr = 512, bsize = 256\<rparr> \<inter> free_bytes ?fs = {}"
    by (auto simp: free_ok_def is_valid_def bytes_of_def)
  from coalesce_block_correct [OF this(1) _ _ this(2), of None] show ?thesis
    by (auto simp: is_valid_def split: sum.splits prod.splits)
qed

lemma first_fit_correct_witness:
  "free_ok [\<lparr>bptr = 256, bsize = 256\<rparr>, \<lparr>bptr = 1024, bsize = 1024\<rparr>]
   \<and> (\<exists>fs'. first_fit [\<lparr>bptr = 256, bsize = 256\<rparr>, \<lparr>bptr = 1024, bsize = 1024\<rparr>] 512
        = (\<lparr>bptr = 1024, bsize = 512\<rparr>, fs') \<and> free_ok fs'
      \<and> bytes_of \<lparr>bptr = 1024, bsize = 512\<rparr> \<inter> free_bytes fs' = {})"
proof -
  let ?fs = "[\<lparr>bptr = 256, bsize = 256\<rparr>, \<lparr>bptr = 1024, bsize = 1024\<rparr>]"
  have ok: "free_ok ?fs" by (simp add: free_ok_def)
  have run: "first_fit ?fs 512
      = (\<lparr>bptr = 1024, bsize = 512\<rparr>, [\<lparr>bptr = 256, bsize = 256\<rparr>, \<lparr>bptr = 1536, bsize = 512\<rparr>])"
    by (simp add: first_fit_def block_defs set_erase_def)
  from first_fit_correct [OF ok _ run] ok run show ?thesis by (simp add: is_valid_def)
qed

end
