(* ===== verification/Allocator.thy ===== *)
theory Allocator
  imports Prelude
begin

section \<open>The contract of an allocator\<close>

text \<open>
  What a client of \<^verbatim>\<open>include/srf/memory/resources/memory_resource.hpp\<close> relies on, and what follows
  from it for any sequence of calls. \<open>inv s out\<close> says that \<open>s\<close> is a consistent state in which the
  bytes of \<open>out\<close>, and no others, are handed out. A call is made by a caller \<open>t\<close> (a thread).
  Allocation returns an address, 0 for \<^verbatim>\<open>nullptr\<close>, or an error, and a state in each case.
  \<open>extent n\<close> is the number of bytes that a request of \<open>n\<close> bytes really occupies. An operation may run into
  undefined behaviour, of which nothing is promised: the run of the program ends there.
\<close>

type_synonym ('t, 's) alloc_op = "'t \<Rightarrow> 's \<Rightarrow> nat \<Rightarrow> nat result \<times> 's"
type_synonym ('t, 's) dealloc_op = "'t \<Rightarrow> 's \<Rightarrow> nat \<Rightarrow> nat \<Rightarrow> 's result"
type_synonym ('t, 's) tidy_op = "'t \<Rightarrow> 's \<Rightarrow> 's result"

definition extent_bytes :: "(nat \<Rightarrow> nat) \<Rightarrow> nat \<times> nat \<Rightarrow> nat set" where
  "extent_bytes extent pn = {fst pn..<fst pn + extent (snd pn)}"

definition live_bytes :: "(nat \<Rightarrow> nat) \<Rightarrow> (nat \<times> nat) list \<Rightarrow> nat set" where
  "live_bytes extent live = (\<Union>pn \<in> set live. extent_bytes extent pn)"

fun undefined_error :: "srf_error \<Rightarrow> bool" where
  "undefined_error (Undefined_behaviour _) = True"
| "undefined_error _ = False"

text \<open>One call of a client that frees only what it holds, with the size it asked for. \<open>live\<close> lists
  the allocations it holds.\<close>

inductive client_step ::
  "('t, 's) alloc_op \<Rightarrow> ('t, 's) dealloc_op \<Rightarrow> ('t, 's) tidy_op \<Rightarrow> (nat \<Rightarrow> bool) \<Rightarrow>
     's \<times> (nat \<times> nat) list \<Rightarrow> 's \<times> (nat \<times> nat) list \<Rightarrow> bool"
  for alloc dealloc tidy usable where
  allocated: "alloc t s n = (Inr p, s') \<Longrightarrow> usable n \<Longrightarrow> p \<noteq> 0 \<Longrightarrow>
     client_step alloc dealloc tidy usable (s, live) (s', (p, n) # live)"
| refused: "alloc t s n = (Inr 0, s') \<Longrightarrow> usable n \<Longrightarrow>
     client_step alloc dealloc tidy usable (s, live) (s', live)"
| failed: "alloc t s n = (Inl e, s') \<Longrightarrow> \<not> undefined_error e \<Longrightarrow> usable n \<Longrightarrow>
     client_step alloc dealloc tidy usable (s, live) (s', live)"
| freed: "dealloc t s p n = Inr s' \<Longrightarrow>
     client_step alloc dealloc tidy usable (s, xs @ (p, n) # ys) (s', xs @ ys)"
| tidied: "tidy t s = Inr s' \<Longrightarrow> client_step alloc dealloc tidy usable (s, live) (s', live)"

text \<open>Every allocation the client holds is a real address and no two overlap.\<close>

definition live_ok :: "(nat \<Rightarrow> nat) \<Rightarrow> (nat \<times> nat) list \<Rightarrow> bool" where
  "live_ok extent live \<longleftrightarrow> (\<forall>pn \<in> set live. 0 < fst pn \<and> 0 < snd pn \<and> snd pn \<le> extent (snd pn))
     \<and> sorted_wrt (\<lambda>a b. extent_bytes extent a \<inter> extent_bytes extent b = {}) live"

lemma live_bytes_simps [simp]:
  "live_bytes extent [] = {}"
  "live_bytes extent (a # live) = extent_bytes extent a \<union> live_bytes extent live"
  "live_bytes extent (xs @ ys) = live_bytes extent xs \<union> live_bytes extent ys"
  by (auto simp: live_bytes_def)

lemma live_ok_Nil [simp]: "live_ok extent []"
  by (simp add: live_ok_def)

lemma live_ok_Cons:
  "live_ok extent (a # live) \<longleftrightarrow> 0 < fst a \<and> 0 < snd a \<and> snd a \<le> extent (snd a)
     \<and> extent_bytes extent a \<inter> live_bytes extent live = {} \<and> live_ok extent live"
  by (auto simp: live_ok_def live_bytes_def)

lemma live_ok_middle:
  "live_ok extent (xs @ a # ys) \<Longrightarrow>
   live_ok extent (xs @ ys) \<and> 0 < fst a \<and> 0 < snd a \<and> extent_bytes extent a \<inter> live_bytes extent (xs @ ys) = {}"
  by (fastforce simp: live_ok_def live_bytes_def sorted_wrt_append)

locale allocator =
  fixes alloc :: "('t, 's) alloc_op" and dealloc :: "('t, 's) dealloc_op"
    and inv :: "'s \<Rightarrow> nat set \<Rightarrow> bool" and extent :: "nat \<Rightarrow> nat" and usable :: "nat \<Rightarrow> bool"
  assumes extent_covers: "usable n \<Longrightarrow> n \<le> extent n"
    and alloc_some: "inv s out \<Longrightarrow> usable n \<Longrightarrow> alloc t s n = (Inr p, s') \<Longrightarrow> p \<noteq> 0 \<Longrightarrow>
          0 < n \<and> {p..<p + extent n} \<inter> out = {} \<and> inv s' (out \<union> {p..<p + extent n})"
    and alloc_null: "inv s out \<Longrightarrow> usable n \<Longrightarrow> alloc t s n = (Inr 0, s') \<Longrightarrow> inv s' out"
    and alloc_error: "inv s out \<Longrightarrow> usable n \<Longrightarrow> alloc t s n = (Inl e, s') \<Longrightarrow> \<not> undefined_error e \<Longrightarrow> inv s' out"
    and dealloc_ok: "inv s out \<Longrightarrow> 0 < p \<Longrightarrow> 0 < n \<Longrightarrow> n \<le> extent n \<Longrightarrow> {p..<p + extent n} \<subseteq> out \<Longrightarrow>
          (case dealloc t s p n of Inl e \<Rightarrow> undefined_error e | Inr s' \<Rightarrow> inv s' (out - {p..<p + extent n}))"
begin

lemma dealloc_back:
  "inv s out \<Longrightarrow> 0 < p \<Longrightarrow> 0 < n \<Longrightarrow> n \<le> extent n \<Longrightarrow> {p..<p + extent n} \<subseteq> out \<Longrightarrow>
   dealloc t s p n = Inr s' \<Longrightarrow> inv s' (out - {p..<p + extent n})"
  using dealloc_ok [of s out p n t] by fastforce

text \<open>What is allocated can be freed at once (undefined behaviour aside), and then nothing is handed out that was
  not before.\<close>

lemma alloc_dealloc:
  assumes "inv s out" and "usable n" and "alloc t s n = (Inr p, s')" and "p \<noteq> 0"
  shows "case dealloc t' s' p n of Inl e \<Rightarrow> undefined_error e | Inr s'' \<Rightarrow> inv s'' out"
proof -
  have a: "0 < n" "{p..<p + extent n} \<inter> out = {}" "inv s' (out \<union> {p..<p + extent n})"
    using alloc_some [OF assms] by blast+
  have "out \<union> {p..<p + extent n} - {p..<p + extent n} = out" using a(2) by blast
  note law = dealloc_ok [OF a(3), of p n t', unfolded this]
  show ?thesis by (rule law) (use a(1) assms(4) extent_covers [OF assms(2)] in auto)
qed

end

locale tidy_allocator = allocator alloc dealloc inv extent usable
  for alloc :: "('t, 's) alloc_op" and dealloc :: "('t, 's) dealloc_op"
    and inv :: "'s \<Rightarrow> nat set \<Rightarrow> bool" and extent :: "nat \<Rightarrow> nat" and usable :: "nat \<Rightarrow> bool" +
  fixes tidy :: "('t, 's) tidy_op"
  assumes tidy_ok: "inv s out \<Longrightarrow> (case tidy t s of Inl e \<Rightarrow> undefined_error e | Inr s' \<Rightarrow> inv s' out)"
begin

text \<open>The client's view is sound after every call: it holds disjoint allocations and the allocator
  accounts for exactly their bytes.\<close>

lemma client_step_safe:
  assumes "client_step alloc dealloc tidy usable (s, live) (s', live')"
    and "inv s (live_bytes extent live)" and "live_ok extent live"
  shows "inv s' (live_bytes extent live') \<and> live_ok extent live'"
  using assms
proof (induction "(s, live)" "(s', live')" rule: client_step.induct)
  case (allocated t n p)
  have "{p..<p + extent n} \<inter> live_bytes extent live = {}"
    "inv s' (live_bytes extent live \<union> {p..<p + extent n})" "0 < n"
    using alloc_some [OF allocated.prems(1) allocated.hyps(2,1,3)] by blast+
  then show ?case
    using allocated extent_covers by (simp add: live_ok_Cons extent_bytes_def Un_commute flip: allocated.hyps(4))
next
  case (refused t n)
  then show ?case using alloc_null by simp
next
  case (failed t n e)
  then show ?case using alloc_error by simp
next
  case (freed t p n xs ys)
  have live: "live = xs @ (p, n) # ys" using freed by simp
  have ok: "live_ok extent (xs @ ys)" "0 < p" "0 < n"
    "extent_bytes extent (p, n) \<inter> live_bytes extent (xs @ ys) = {}"
    using live_ok_middle [of extent xs "(p, n)" ys] freed.prems(2) live by auto
  have le: "n \<le> extent n" using freed.prems(2) live by (auto simp: live_ok_def)
  have "inv s' (live_bytes extent live - {p..<p + extent n})"
    by (rule dealloc_back [OF freed.prems(1) ok(2,3) le _ freed.hyps(1)]) (auto simp: live extent_bytes_def)
  moreover have "live_bytes extent live - {p..<p + extent n} = live_bytes extent (xs @ ys)"
    using ok(4) by (auto simp: live extent_bytes_def)
  ultimately show ?case using ok(1) freed by simp
next
  case (tidied t)
  then show ?case using tidy_ok [OF tidied.prems(1), of t] by fastforce
qed

lemma client_safe:
  assumes "(client_step alloc dealloc tidy usable)\<^sup>*\<^sup>* (s, []) (s', live)" and "inv s {}"
  shows "inv s' (live_bytes extent live) \<and> live_ok extent live"
  using assms(1)
proof (induction "(s', live)" arbitrary: s' live rule: rtranclp_induct)
  case base
  then show ?case using assms(2) by simp
next
  case (step y)
  obtain s1 live1 where "y = (s1, live1)" by (cases y)
  with step show ?case using client_step_safe by blast
qed

text \<open>A client is never stuck with an allocation: freeing one it holds is not refused, and releases its bytes.\<close>

lemma client_can_free:
  assumes "(client_step alloc dealloc tidy usable)\<^sup>*\<^sup>* (s, []) (s', live)" and "inv s {}"
    and "(p, n) \<in> set live"
  shows "case dealloc t s' p n of
      Inl e \<Rightarrow> undefined_error e
    | Inr s'' \<Rightarrow> inv s'' (live_bytes extent live - extent_bytes extent (p, n))"
proof -
  note safe = client_safe [OF assms(1,2)]
  have "0 < p" "0 < n" "n \<le> extent n" using safe assms(3) by (auto simp: live_ok_def)
  moreover have "{p..<p + extent n} \<subseteq> live_bytes extent live"
    using assms(3) by (auto simp: live_bytes_def extent_bytes_def)
  ultimately show ?thesis using dealloc_ok [of s' "live_bytes extent live" p n t] safe by (simp add: extent_bytes_def split: sum.splits)
qed

end

end
