(* ===== verification/Global_Arena.thy ===== *)
theory Global_Arena
  imports Arena_Blocks Allocator
begin

section \<open>The global arena\<close>

text \<open>
  \<^verbatim>\<open>class global_arena\<close> of \<^verbatim>\<open>include/srf/memory/resources/detail/arena.hpp\<close>. Each member function
  runs under the arena's mutex, so it is one transition. The parameters of the model are the
  upstream memory resource, the alignment functions of rmm, \<^verbatim>\<open>cudaMemGetInfo\<close>, and what comes of the read
  of \<^verbatim>\<open>*end()\<close> that \<open>coalesce_block\<close> makes of an empty set: \<open>g_end_block\<close> for the set of the global arena,
  \<open>end_block\<close> for that of an arena. Nothing is assumed of the two.
\<close>

record 'u arena_env =
  rmm_align_up :: "nat \<Rightarrow> nat \<Rightarrow> nat"
  rmm_align_down :: "nat \<Rightarrow> nat \<Rightarrow> nat"
  cuda_allocation_alignment :: nat
  cuda_mem_get_info :: "(nat \<times> nat) result"
  up_allocate :: "'u \<Rightarrow> nat \<Rightarrow> (nat \<times> 'u) result"
  up_deallocate :: "'u \<Rightarrow> nat \<Rightarrow> nat \<Rightarrow> 'u"
  end_block :: "block option"
  g_end_block :: "block option"

definition align_up :: "'u arena_env \<Rightarrow> nat \<Rightarrow> nat" where
  "align_up env v = rmm_align_up env v (cuda_allocation_alignment env)"

definition align_down :: "'u arena_env \<Rightarrow> nat \<Rightarrow> nat" where
  "align_down env v = rmm_align_down env v (cuda_allocation_alignment env)"

record 'u global_arena =
  upstream_mr :: 'u
  maximum_size :: nat
  current_size :: nat
  g_free_blocks :: block_set
  upstream_blocks :: "block list"

definition default_initial_size :: nat where
  "default_initial_size = size_max"

definition default_maximum_size :: nat where
  "default_maximum_size = size_max"

definition reserved_size :: nat where
  "reserved_size = 2 ^ 26"

definition global_expand_arena :: "'u arena_env \<Rightarrow> 'u global_arena \<Rightarrow> nat \<Rightarrow> (block \<times> 'u global_arena) result" where
  "global_expand_arena env g size' =
     (if size' > 0
      then rbind (up_allocate env (upstream_mr g) size') (\<lambda>(p, u).
             (let blk = \<lparr>bptr = p, bsize = size'\<rparr>
              in Inr (blk, g\<lparr>upstream_mr := u, upstream_blocks := upstream_blocks g @ [blk],
                             current_size := add_sz (current_size g) size'\<rparr>)))
      else Inr (null_block, g))"

definition size_to_grow :: "'u global_arena \<Rightarrow> nat \<Rightarrow> nat" where
  "size_to_grow g size' =
     (if add_sz (current_size g) size' > maximum_size g then 0
      else sub_sz (maximum_size g) (current_size g))"

definition global_get_block :: "'u arena_env \<Rightarrow> 'u global_arena \<Rightarrow> nat \<Rightarrow> (block \<times> 'u global_arena) result" where
  "global_get_block env g size' =
     (let (blk, fs) = first_fit (g_free_blocks g) size'; g = g\<lparr>g_free_blocks := fs\<rparr>
      in if is_valid blk then Inr (blk, g)
         else rbind (global_expand_arena env g (size_to_grow g size')) (\<lambda>(upstream_block, g).
              rbind (coalesce_block (g_end_block env) (g_free_blocks g) upstream_block) (\<lambda>(_, fs).
                (let (blk, fs) = first_fit fs size' in Inr (blk, g\<lparr>g_free_blocks := fs\<rparr>)))))"

definition global_allocate :: "'u arena_env \<Rightarrow> 'u global_arena \<Rightarrow> nat \<Rightarrow> (block \<times> 'u global_arena) result" where
  "global_allocate env g bytes = global_get_block env g bytes"

definition global_deallocate :: "'u arena_env \<Rightarrow> 'u global_arena \<Rightarrow> block \<Rightarrow> 'u global_arena result" where
  "global_deallocate env g blk =
     rbind (coalesce_block (g_end_block env) (g_free_blocks g) blk) (\<lambda>(_, fs). Inr (g\<lparr>g_free_blocks := fs\<rparr>))"

definition global_deallocate_set :: "'u arena_env \<Rightarrow> 'u global_arena \<Rightarrow> block_set \<Rightarrow> 'u global_arena result" where
  "global_deallocate_set env g free_blocks = fold_result (\<lambda>blk g. global_deallocate env g blk) free_blocks g"

text \<open>The default sizes of the constructor, taken from the free memory of the device.\<close>

definition resolve_sizes :: "'u arena_env \<Rightarrow> nat \<Rightarrow> nat \<Rightarrow> (nat \<times> nat) result" where
  "resolve_sizes env initial_size max_size =
     (if initial_size = default_initial_size \<or> max_size = default_maximum_size
      then rbind (cuda_mem_get_info env) (\<lambda>(free, total).
             Inr (if initial_size = default_initial_size then align_up env (min free (total div 2))
                  else initial_size,
                  if max_size = default_maximum_size then sub_sz (align_down env free) reserved_size
                  else max_size))
      else Inr (initial_size, max_size))"

definition global_arena_new :: "'u arena_env \<Rightarrow> 'u \<Rightarrow> nat \<Rightarrow> nat \<Rightarrow> 'u global_arena result" where
  "global_arena_new env u initial_size max_size =
     (if \<not> (initial_size = default_initial_size \<or> initial_size = align_up env initial_size)
      then Inl (Logic_error ''Error, Initial arena size required to be a multiple of 256 bytes'')
      else if \<not> (max_size = default_maximum_size \<or> max_size = align_up env max_size)
      then Inl (Logic_error ''Error, Maximum arena size required to be a multiple of 256 bytes'')
      else rbind (resolve_sizes env initial_size max_size) (\<lambda>(initial_size, max_size).
        if \<not> initial_size \<le> max_size
        then Inl (Logic_error ''Initial arena size exceeds the maximum pool size!'')
        else rbind (global_expand_arena env
                      \<lparr>upstream_mr = u, maximum_size = max_size, current_size = 0,
                       g_free_blocks = [], upstream_blocks = []\<rparr> initial_size) (\<lambda>(blk, g).
               Inr (g\<lparr>g_free_blocks := set_insert blk (g_free_blocks g)\<rparr>))))"

definition global_arena_destroy :: "'u arena_env \<Rightarrow> 'u global_arena \<Rightarrow> 'u" where
  "global_arena_destroy env g =
     fold (\<lambda>blk u. up_deallocate env u (bptr blk) (bsize blk)) (upstream_blocks g) (upstream_mr g)"

subsection \<open>What the upstream resource promises\<close>

text \<open>\<open>held u\<close> is the memory that the upstream resource has handed out. A new region is a real
  address, overlaps nothing handed out and stays handed out.\<close>

definition upstream_laws :: "'u arena_env \<Rightarrow> ('u \<Rightarrow> nat set) \<Rightarrow> bool" where
  "upstream_laws env held \<longleftrightarrow>
     (\<forall>u n p u'. 0 < n \<longrightarrow> up_allocate env u n = Inr (p, u') \<longrightarrow>
        0 < p \<and> {p..<p + n} \<inter> held u = {} \<and> held u \<union> {p..<p + n} \<subseteq> held u')"

lemma upstream_lawsD:
  assumes "upstream_laws env held" and "0 < n" and "up_allocate env u n = Inr (p, u')"
  shows "0 < p" "{p..<p + n} \<inter> held u = {}" "held u \<union> {p..<p + n} \<subseteq> held u'"
  using assms unfolding upstream_laws_def by blast+

subsection \<open>Invariant\<close>

text \<open>The upstream blocks are split exactly between the free set and \<open>out\<close>, the bytes the global
  arena has handed out; the accounting never exceeds the configured maximum.\<close>

definition global_ok :: "'u arena_env \<Rightarrow> ('u \<Rightarrow> nat set) \<Rightarrow> 'u global_arena \<Rightarrow> nat set \<Rightarrow> bool" where
  "global_ok env held g out \<longleftrightarrow>
     upstream_laws env held \<and> free_ok (g_free_blocks g)
     \<and> free_bytes (g_free_blocks g) \<inter> out = {}
     \<and> free_bytes (g_free_blocks g) \<union> out = free_bytes (upstream_blocks g)
     \<and> free_bytes (upstream_blocks g) \<subseteq> held (upstream_mr g)
     \<and> current_size g = sum_list (map bsize (upstream_blocks g))
     \<and> current_size g \<le> maximum_size g \<and> maximum_size g \<le> size_max"

lemma global_okD:
  assumes "global_ok env held g out"
  shows "upstream_laws env held" "free_ok (g_free_blocks g)" "free_bytes (g_free_blocks g) \<inter> out = {}"
    "free_bytes (g_free_blocks g) \<union> out = free_bytes (upstream_blocks g)"
    "free_bytes (upstream_blocks g) \<subseteq> held (upstream_mr g)"
    "current_size g = sum_list (map bsize (upstream_blocks g))"
    "current_size g \<le> maximum_size g" "maximum_size g \<le> size_max"
  using assms unfolding global_ok_def by blast+

lemma global_take:
  assumes "global_ok env held g out" and "0 < n" and "first_fit (g_free_blocks g) n = (b, fs)" and "is_valid b"
  shows "bsize b = n" "bytes_of b \<inter> out = {}" "global_ok env held (g\<lparr>g_free_blocks := fs\<rparr>) (out \<union> bytes_of b)"
proof -
  note g = global_okD [OF assms(1)]
  have f: "free_ok fs" "bsize b = n" "bytes_of b \<union> free_bytes fs = free_bytes (g_free_blocks g)"
    "bytes_of b \<inter> free_bytes fs = {}"
    using first_fit_result [OF g(2) assms(2,3)] assms(4) by blast+
  show "bsize b = n" by (rule f(2))
  show "bytes_of b \<inter> out = {}" using f(3) g(3) by blast
  show "global_ok env held (g\<lparr>g_free_blocks := fs\<rparr>) (out \<union> bytes_of b)"
    unfolding global_ok_def using g f by auto
qed

lemma global_take_none:
  assumes "global_ok env held g out" and "0 < n" and "first_fit (g_free_blocks g) n = (b, fs)" and "\<not> is_valid b"
  shows "g\<lparr>g_free_blocks := fs\<rparr> = g" "\<forall>c \<in> set (g_free_blocks g). bsize c < n"
  using first_fit_result [OF global_okD(2) [OF assms(1)] assms(2,3)] assms(4) by (cases g; simp)+

lemma global_coalesce:
  assumes "global_ok env held g out" and "is_valid b" and "0 < bsize b" and "bytes_of b \<subseteq> out"
  obtains (undefined) msg where "g_free_blocks g = []" "\<not> harmless (g_end_block env) b"
    "coalesce_block (g_end_block env) (g_free_blocks g) b = Inl (Undefined_behaviour msg)"
  | (merged) m fs where "coalesce_block (g_end_block env) (g_free_blocks g) b = Inr (m, fs)"
    "m \<in> set fs" "bytes_of b \<subseteq> bytes_of m" "free_ok fs"
    "global_ok env held (g\<lparr>g_free_blocks := fs\<rparr>) (out - bytes_of b)"
proof -
  note g = global_okD [OF assms(1)]
  have "bytes_of b \<inter> free_bytes (g_free_blocks g) = {}" using assms(4) g(3) by blast
  with g(2) assms(2,3) show ?thesis
  proof (cases rule: coalesce_block_result [where end_blk = "g_end_block env"])
    case (undefined msg)
    then show ?thesis by (rule that(1))
  next
    case c: (merged m fs)
    have "free_bytes fs \<union> (out - bytes_of b) = free_bytes (upstream_blocks g)" using g(4) c(6) assms(4) by blast
    moreover have "free_bytes fs \<inter> (out - bytes_of b) = {}" using g(3) c(6) by blast
    ultimately have "global_ok env held (g\<lparr>g_free_blocks := fs\<rparr>) (out - bytes_of b)"
      unfolding global_ok_def using g c(3) by simp
    with c show ?thesis by (intro that(2)) auto
  qed
qed

lemma global_give:
  assumes "global_ok env held g out" and "is_valid b" and "0 < bsize b" and "bytes_of b \<subseteq> out"
  obtains (undefined) msg where "g_free_blocks g = []" "\<not> harmless (g_end_block env) b"
    "global_deallocate env g b = Inl (Undefined_behaviour msg)"
  | (given) g' where "global_deallocate env g b = Inr g'" "global_ok env held g' (out - bytes_of b)"
  by (rule global_coalesce [OF assms]) (simp_all add: global_deallocate_def)

lemma global_expand:
  assumes "global_ok env held g out" and "0 < n" and "n \<le> maximum_size g - current_size g"
    and "global_expand_arena env g n = Inr (b, g')"
  shows "is_valid b" "bsize b = n" "bytes_of b \<inter> out = {}" "global_ok env held g' (out \<union> bytes_of b)"
    "g_free_blocks g' = g_free_blocks g"
proof -
  note g = global_okD [OF assms(1)]
  obtain p u where up: "up_allocate env (upstream_mr g) n = Inr (p, u)" "b = \<lparr>bptr = p, bsize = n\<rparr>"
    "g' = g\<lparr>upstream_mr := u, upstream_blocks := upstream_blocks g @ [b],
            current_size := add_sz (current_size g) n\<rparr>"
    using assms(2,4) by (auto simp: global_expand_arena_def Let_def rbind_eq_Inr split: prod.splits)
  note l = upstream_lawsD [OF g(1) assms(2) up(1)]
  have b: "bytes_of b = {p..<p + n}" by (simp add: up(2) bytes_of_def)
  show "is_valid b" "bsize b = n" "g_free_blocks g' = g_free_blocks g"
    using l(1) by (simp_all add: up(2,3) is_valid_def)
  have d: "bytes_of b \<inter> free_bytes (upstream_blocks g) = {}" using l(2) g(5) b by blast
  then show "bytes_of b \<inter> out = {}" using g(4) by blast
  have "add_sz (current_size g) n = current_size g + n"
    using assms(3) g(7,8) by (intro add_sz_small) (simp add: size_max_def)
  then have "current_size g' = sum_list (map bsize (upstream_blocks g'))"
    "current_size g' \<le> maximum_size g'" "maximum_size g' \<le> size_max"
    using g(6,7,8) assms(3) by (simp_all add: up(2,3))
  moreover have "free_bytes (upstream_blocks g') \<subseteq> held (upstream_mr g')"
    using l(3) g(5) b by (auto simp: up(3))
  moreover have "free_bytes (g_free_blocks g') \<inter> (out \<union> bytes_of b) = {}"
    "free_bytes (g_free_blocks g') \<union> (out \<union> bytes_of b) = free_bytes (upstream_blocks g')"
    using g(3,4) d by (auto simp: up(3))
  ultimately show "global_ok env held g' (out \<union> bytes_of b)"
    unfolding global_ok_def using g(1,2) by (simp add: up(3))
qed

text \<open>Growing gives memory only up to the maximum.\<close>

lemma size_to_grow_le:
  "global_ok env held g out \<Longrightarrow> size_to_grow g n \<le> maximum_size g - current_size g"
  using global_okD(7,8) [of env held g out] by (simp add: size_to_grow_def size_max_def)

lemma global_get_block_ok:
  assumes "global_ok env held g out" and "0 < n" and "global_get_block env g n = Inr (b, g')"
  shows "(is_valid b \<longrightarrow> bsize b = n \<and> bytes_of b \<inter> out = {} \<and> global_ok env held g' (out \<union> bytes_of b))
     \<and> (\<not> is_valid b \<longrightarrow> global_ok env held g' out)"
proof -
  obtain c fs where ff: "first_fit (g_free_blocks g) n = (c, fs)" by fastforce
  show ?thesis
  proof (cases "is_valid c")
    case True
    then have "b = c" "g' = g\<lparr>g_free_blocks := fs\<rparr>" using assms(3) ff by (auto simp: global_get_block_def)
    then show ?thesis using global_take [OF assms(1,2) ff True] True by simp
  next
    case False
    note none = global_take_none [OF assms(1,2) ff False]
    obtain ub g1 m fs1 where ex: "global_expand_arena env g (size_to_grow g n) = Inr (ub, g1)"
      and co: "coalesce_block (g_end_block env) (g_free_blocks g1) ub = Inr (m, fs1)"
      and fit: "g' = g1\<lparr>g_free_blocks := snd (first_fit fs1 n)\<rparr>" "b = fst (first_fit fs1 n)"
      using assms(3) ff False none(1)
      by (auto simp: global_get_block_def rbind_eq_Inr Let_def split_beta)
    have g1: "global_ok env held (g1\<lparr>g_free_blocks := fs1\<rparr>) out"
    proof (cases "size_to_grow g n = 0")
      case True
      then have "ub = null_block" "g1 = g" using ex by (auto simp: global_expand_arena_def)
      then have "g1\<lparr>g_free_blocks := fs1\<rparr> = g" using co by (cases g) (simp add: coalesce_block_def)
      then show ?thesis using assms(1) by simp
    next
      case False
      then have pos: "0 < size_to_grow g n" by simp
      note e = global_expand [OF assms(1) pos size_to_grow_le [OF assms(1)] ex]
      have "0 < bsize ub" using e(2) pos by simp
      from e(4,1) this have "global_ok env held (g1\<lparr>g_free_blocks := fs1\<rparr>) (out \<union> bytes_of ub - bytes_of ub)"
        by (cases rule: global_coalesce) (use co in auto)
      moreover have "out \<union> bytes_of ub - bytes_of ub = out" using e(3) by blast
      ultimately show ?thesis by simp
    qed
    have ff1: "first_fit (g_free_blocks (g1\<lparr>g_free_blocks := fs1\<rparr>)) n = (b, snd (first_fit fs1 n))"
      by (simp add: fit(2))
    show ?thesis
      using global_take [OF g1 assms(2) ff1] global_take_none(1) [OF g1 assms(2) ff1] g1 fit(1)
      by (cases "is_valid b") simp_all
  qed
qed

text \<open>A request fails only inside the upstream resource, or in the read of \<^verbatim>\<open>*end()\<close> of the empty free set.\<close>

lemma global_get_block_error:
  assumes "global_ok env held g out" and "0 < n" and "global_get_block env g n = Inl e"
  shows "(0 < size_to_grow g n \<and> up_allocate env (upstream_mr g) (size_to_grow g n) = Inl e)
     \<or> (g_free_blocks g = [] \<and> undefined_error e)"
proof -
  obtain c fs where ff: "first_fit (g_free_blocks g) n = (c, fs)" by fastforce
  have nv: "\<not> is_valid c" using assms(3) ff by (auto simp: global_get_block_def)
  note none = global_take_none [OF assms(1,2) ff nv]
  let ?s = "size_to_grow g n"
  show ?thesis
  proof (cases "global_expand_arena env g ?s")
    case (Inl e')
    then have "e' = e" using assms(3) ff nv none(1) by (auto simp: global_get_block_def Let_def)
    then show ?thesis using Inl by (auto simp: global_expand_arena_def rbind_def Let_def split: if_splits sum.splits)
  next
    case (Inr r)
    obtain ub g1 where r: "r = (ub, g1)" by (cases r)
    have err: "coalesce_block (g_end_block env) (g_free_blocks g1) ub = Inl e"
      using assms(3) ff nv none(1) Inr r
      by (auto simp: global_get_block_def Let_def split_beta rbind_def split: sum.splits)
    show ?thesis
    proof (cases "?s = 0")
      case True
      then show ?thesis using err Inr r by (auto simp: global_expand_arena_def coalesce_block_def)
    next
      case False
      then have pos: "0 < ?s" by simp
      note e = global_expand [OF assms(1) pos size_to_grow_le [OF assms(1)] Inr [unfolded r]]
      have "0 < bsize ub" using e(2) pos by simp
      from e(4,1) this show ?thesis by (cases rule: global_coalesce) (use e(5) err in auto)
    qed
  qed
qed

text \<open>When the upstream resource delivers and the request fits under the maximum, the request is
  served: growing takes everything up to the maximum, and merging it leaves a block that fits.\<close>

lemma global_get_block_serves:
  assumes "global_ok env held g out" and "0 < n" and "current_size g + n \<le> maximum_size g"
    and "global_get_block env g n = Inr (b, g')"
  shows "is_valid b"
proof (rule ccontr)
  assume nb: "\<not> is_valid b"
  obtain c fs where ff: "first_fit (g_free_blocks g) n = (c, fs)" by fastforce
  have nv: "\<not> is_valid c" using assms(4) ff nb by (auto simp: global_get_block_def)
  note none = global_take_none [OF assms(1,2) ff nv]
  note gd = global_okD [OF assms(1)]
  have s: "size_to_grow g n = maximum_size g - current_size g"
    using assms(3) gd(7,8) by (simp add: size_to_grow_def size_max_def)
  obtain ub g1 m fs1 where ex: "global_expand_arena env g (size_to_grow g n) = Inr (ub, g1)"
    and co: "coalesce_block (g_end_block env) (g_free_blocks g1) ub = Inr (m, fs1)"
    and fit: "b = fst (first_fit fs1 n)"
    using assms(4) ff nv none(1) by (auto simp: global_get_block_def rbind_eq_Inr Let_def split_beta)
  have pos: "0 < size_to_grow g n" using s assms(2,3) by simp
  note e = global_expand [OF assms(1) pos size_to_grow_le [OF assms(1)] ex]
  have "0 < bsize ub" using e(2) pos by simp
  from e(4,1) this have "m \<in> set fs1 \<and> bytes_of ub \<subseteq> bytes_of m \<and> free_ok fs1"
    by (cases rule: global_coalesce) (use co in auto)
  then have m: "m \<in> set fs1" "bytes_of ub \<subseteq> bytes_of m" "free_ok fs1" by blast+
  have "n \<le> bsize m"
  proof -
    have "card (bytes_of ub) \<le> card (bytes_of m)" by (rule card_mono [OF _ m(2)]) (simp add: bytes_of_def)
    then show ?thesis using e(2) s assms(3) by (simp add: bytes_of_def)
  qed
  moreover have "\<forall>d \<in> set fs1. bsize d < n"
    using first_fit_result [OF m(3) assms(2), of b "snd (first_fit fs1 n)"] nb fit by simp
  ultimately show False using m(1) by fastforce
qed

subsection \<open>Construction and destruction\<close>

lemma sub_sz_le_max: "sub_sz a b \<le> size_max"
  using sub_sz_bound [of a b] by (simp add: size_max_def)

lemma resolve_sizes_max:
  "resolve_sizes env initial_size max_size = Inr (i, m) \<Longrightarrow> max_size \<le> size_max \<Longrightarrow> m \<le> size_max"
  by (auto simp: resolve_sizes_def rbind_eq_Inr sub_sz_le_max split: if_splits)

lemma global_arena_new_ok:
  assumes "global_arena_new env u initial_size max_size = Inr g" and "upstream_laws env held"
    and "max_size \<le> size_max" and "upstream_blocks g \<noteq> []"
  shows "global_ok env held g {}"
proof -
  obtain i m blk g1 where im: "i \<le> m" "resolve_sizes env initial_size max_size = Inr (i, m)"
    and ex: "global_expand_arena env \<lparr>upstream_mr = u, maximum_size = m, current_size = 0,
        g_free_blocks = [], upstream_blocks = []\<rparr> i = Inr (blk, g1)"
    and g: "g = g1\<lparr>g_free_blocks := set_insert blk (g_free_blocks g1)\<rparr>"
    using assms(1) by (auto simp: global_arena_new_def rbind_eq_Inr split: if_splits)
  have i: "i \<le> m" "m \<le> size_max" using im resolve_sizes_max [OF im(2) assms(3)] by blast+
  have "0 < i" using assms(4) ex g by (auto simp: global_expand_arena_def split: if_splits)
  let ?g0 = "\<lparr>upstream_mr = u, maximum_size = m, current_size = 0, g_free_blocks = [], upstream_blocks = []\<rparr>"
  have "global_ok env held ?g0 {}" using assms(2) i by (simp add: global_ok_def)
  note e = global_expand [OF this \<open>0 < i\<close> _ ex]
  have e': "is_valid blk" "0 < bsize blk" "global_ok env held g1 (bytes_of blk)" "g_free_blocks g1 = []"
    using e i \<open>0 < i\<close> by simp_all
  then show ?thesis
    using global_okD [OF e'(3)] by (simp add: g global_ok_def free_ok_Cons is_valid_def)
qed

subsection \<open>The global arena as an allocator\<close>

definition global_alloc_op :: "'u arena_env \<Rightarrow> unit \<Rightarrow> 'u global_arena \<Rightarrow> nat \<Rightarrow> nat result \<times> 'u global_arena" where
  "global_alloc_op env t g n =
     (case global_allocate env g n of Inl e \<Rightarrow> (Inl e, g) | Inr (b, g') \<Rightarrow> (Inr (bptr b), g'))"

definition global_dealloc_op :: "'u arena_env \<Rightarrow> unit \<Rightarrow> 'u global_arena \<Rightarrow> nat \<Rightarrow> nat \<Rightarrow> 'u global_arena result" where
  "global_dealloc_op env t g p n = global_deallocate env g \<lparr>bptr = p, bsize = n\<rparr>"

interpretation ga: allocator "global_alloc_op env" "global_dealloc_op env" "global_ok env held" "\<lambda>n. n" "\<lambda>n. 0 < n"
  for env :: "'u arena_env" and held
proof unfold_locales
  fix s s' :: "'u global_arena" and out t and n p :: nat
  assume a: "global_ok env held s out" "0 < n" and b: "global_alloc_op env t s n = (Inr p, s')" "p \<noteq> 0"
  from b obtain b where "global_get_block env s n = Inr (b, s')" "p = bptr b"
    by (auto simp: global_alloc_op_def global_allocate_def split: sum.splits)
  then show "0 < n \<and> {p..<p + n} \<inter> out = {} \<and> global_ok env held s' (out \<union> {p..<p + n})"
    using global_get_block_ok [OF a] a(2) b(2) by (fastforce simp: is_valid_def bytes_of_def)
next
  fix s s' :: "'u global_arena" and out t and n :: nat
  assume a: "global_ok env held s out" "0 < n" and b: "global_alloc_op env t s n = (Inr 0, s')"
  from b obtain b where "global_get_block env s n = Inr (b, s')" "bptr b = 0"
    by (auto simp: global_alloc_op_def global_allocate_def split: sum.splits)
  then show "global_ok env held s' out" using global_get_block_ok [OF a] by (fastforce simp: is_valid_def)
next
  fix s s' :: "'u global_arena" and out n t e
  assume "global_ok env held s out" "global_alloc_op env t s n = (Inl e, s')"
  then show "global_ok env held s' out" by (auto simp: global_alloc_op_def split: sum.splits)
next
  fix s :: "'u global_arena" and out t and p n :: nat
  let ?b = "\<lparr>bptr = p, bsize = n\<rparr>"
  assume "global_ok env held s out" "0 < p" "0 < n" "{p..<p + n} \<subseteq> out"
  then have "global_ok env held s out" "is_valid ?b" "0 < bsize ?b" "bytes_of ?b \<subseteq> out"
    by (simp_all add: is_valid_def bytes_of_def)
  then show "case global_dealloc_op env t s p n of Inl e \<Rightarrow> undefined_error e
      | Inr s' \<Rightarrow> global_ok env held s' (out - {p..<p + n})"
    by (cases rule: global_give) (simp_all add: global_dealloc_op_def bytes_of_def)
qed simp

subsection \<open>Correctness of the global arena\<close>

text \<open>C8. An allocation from a consistent global arena either fails inside the upstream resource, or (only when the free
  set is empty) in the undefined read of \<^verbatim>\<open>*end()\<close> that \<open>coalesce_block\<close> then makes, or returns a block of exactly the requested size that overlaps nothing handed out before, or returns
  an empty block, and then the request would have exceeded the configured maximum. In each case the
  arena stays consistent: every upstream byte is free or handed out, never both, and the total
  obtained from upstream stays within the maximum.\<close>

theorem global_allocate_correct:
  assumes "global_ok env held g out" and "0 < n"
  shows "case global_allocate env g n of
           Inl e \<Rightarrow> (\<exists>k > 0. k \<le> maximum_size g - current_size g \<and> up_allocate env (upstream_mr g) k = Inl e)
             \<or> (g_free_blocks g = [] \<and> undefined_error e)
         | Inr (b, g') \<Rightarrow>
             if is_valid b
             then bsize b = n \<and> bytes_of b \<inter> out = {} \<and> global_ok env held g' (out \<union> bytes_of b)
             else global_ok env held g' out \<and> maximum_size g < current_size g + n"
proof (cases "global_allocate env g n")
  case (Inl e)
  then show ?thesis
    using global_get_block_error [OF assms] size_to_grow_le [OF assms(1)] by (auto simp: global_allocate_def)
next
  case (Inr r)
  obtain b g' where r: "r = (b, g')" by (cases r)
  have "global_get_block env g n = Inr (b, g')" using Inr r by (simp add: global_allocate_def)
  then show ?thesis
    using global_get_block_ok [OF assms] global_get_block_serves [OF assms] Inr r by force
qed

text \<open>A bump allocator as upstream resource, for concrete runs: the state is the highest address
  handed out.\<close>

definition bump_env :: "nat arena_env" where
  "bump_env = \<lparr>rmm_align_up = (\<lambda>v a. (v + a - 1) div a * a), rmm_align_down = (\<lambda>v a. v div a * a),
     cuda_allocation_alignment = 256, cuda_mem_get_info = Inr (2 ^ 30, 2 ^ 31),
     up_allocate = (\<lambda>u n. Inr (u + 1, u + 1 + n)), up_deallocate = (\<lambda>u p n. u),
     end_block = Some null_block, g_end_block = Some null_block\<rparr>"

lemma bump_laws: "upstream_laws bump_env (\<lambda>u. {..u})"
  by (auto simp: upstream_laws_def bump_env_def)

definition bump_arena :: "nat global_arena" where
  "bump_arena = \<lparr>upstream_mr = 262400, maximum_size = 1048576, current_size = 262144,
     g_free_blocks = [\<lparr>bptr = 256, bsize = 262144\<rparr>], upstream_blocks = [\<lparr>bptr = 256, bsize = 262144\<rparr>]\<rparr>"

lemma bump_arena_new: "global_arena_new bump_env 255 262144 1048576 = Inr bump_arena"
  by (simp add: global_arena_new_def resolve_sizes_def align_up_def bump_env_def bump_arena_def
      default_initial_size_def default_maximum_size_def size_max_def global_expand_arena_def Let_def)

lemma bump_arena_ok: "global_ok bump_env (\<lambda>u. {..u}) bump_arena {}"
  by (rule global_arena_new_ok [OF bump_arena_new bump_laws])
    (simp_all add: bump_arena_def size_max_def)

theorem global_allocate_correct_witness:
  "global_ok bump_env (\<lambda>u. {..u}) bump_arena {}
   \<and> (case global_allocate bump_env bump_arena 300000 of
        Inl e \<Rightarrow> (\<exists>k > 0. k \<le> maximum_size bump_arena - current_size bump_arena
                   \<and> up_allocate bump_env (upstream_mr bump_arena) k = Inl e)
            \<or> (g_free_blocks bump_arena = [] \<and> undefined_error e)
      | Inr (b, g') \<Rightarrow>
          if is_valid b
          then bsize b = 300000 \<and> bytes_of b \<inter> {} = {}
             \<and> global_ok bump_env (\<lambda>u. {..u}) g' ({} \<union> bytes_of b)
          else global_ok bump_env (\<lambda>u. {..u}) g' {}
             \<and> maximum_size bump_arena < current_size bump_arena + 300000)"
  using global_allocate_correct [OF bump_arena_ok, of 300000] bump_arena_ok by simp

end
