(* ===== verification/Arena_Resource.thy ===== *)
theory Arena_Resource
  imports Global_Arena
begin

section \<open>Per-thread arenas and the arena resource\<close>

text \<open>
  \<^verbatim>\<open>class arena\<close> of \<^verbatim>\<open>include/srf/memory/resources/detail/arena.hpp\<close> and
  \<^verbatim>\<open>include/srf/memory/resources/arena_resource.hpp\<close>. An arena works on its own free set and on
  the global arena, which is passed along. Thread ids are naturals. The \<open>alignment\<close> argument of
  \<open>do_allocate\<close> and \<open>do_deallocate\<close> is not used by the code. When a thread ends, its
  \<^verbatim>\<open>arena_cleaner\<close> returns the free blocks of its arena.
\<close>

record arena =
  free_blocks :: block_set

definition max_free_blocks :: nat where
  "max_free_blocks = 16"

definition arena_expand_arena :: "'u arena_env \<Rightarrow> 'u global_arena \<Rightarrow> nat \<Rightarrow> (block \<times> 'u global_arena) result" where
  "arena_expand_arena env g size' = global_allocate env g (max size' minimum_superblock_size)"

definition arena_get_block ::
  "'u arena_env \<Rightarrow> arena \<Rightarrow> 'u global_arena \<Rightarrow> nat \<Rightarrow> (block \<times> arena \<times> 'u global_arena) result" where
  "arena_get_block env a g size' =
     (let (blk, fs) = (if size' < minimum_superblock_size then first_fit (free_blocks a) size'
                       else (null_block, free_blocks a));
          a = a\<lparr>free_blocks := fs\<rparr>
      in if is_valid blk then Inr (blk, a, g)
         else rbind (arena_expand_arena env g size') (\<lambda>(superblock, g).
           if is_valid superblock
           then rbind (coalesce_block (end_block env) (free_blocks a) superblock) (\<lambda>(_, fs).
                  (let (blk, fs) = first_fit fs size' in Inr (blk, a\<lparr>free_blocks := fs\<rparr>, g)))
           else Inr (superblock, a, g)))"

definition arena_allocate ::
  "'u arena_env \<Rightarrow> arena \<Rightarrow> 'u global_arena \<Rightarrow> nat \<Rightarrow> (nat \<times> arena \<times> 'u global_arena) result" where
  "arena_allocate env a g bytes =
     rbind (arena_get_block env a g bytes) (\<lambda>(blk, a, g). Inr (bptr blk, a, g))"

definition shrink_arena ::
  "'u arena_env \<Rightarrow> arena \<Rightarrow> 'u global_arena \<Rightarrow> block \<Rightarrow> (arena \<times> 'u global_arena) result" where
  "shrink_arena env a g blk =
     (if is_superblock blk \<or> length (free_blocks a) > max_free_blocks
      then rbind (global_deallocate env g blk) (\<lambda>g. Inr (a\<lparr>free_blocks := set_erase blk (free_blocks a)\<rparr>, g))
      else Inr (a, g))"

definition arena_deallocate ::
  "'u arena_env \<Rightarrow> arena \<Rightarrow> 'u global_arena \<Rightarrow> nat \<Rightarrow> nat \<Rightarrow> (arena \<times> 'u global_arena) result" where
  "arena_deallocate env a g ptr bytes =
     rbind (coalesce_block (end_block env) (free_blocks a) \<lparr>bptr = ptr, bsize = bytes\<rparr>) (\<lambda>(merged, fs).
       shrink_arena env (a\<lparr>free_blocks := fs\<rparr>) g merged)"

definition arena_clean :: "'u arena_env \<Rightarrow> arena \<Rightarrow> 'u global_arena \<Rightarrow> (arena \<times> 'u global_arena) result" where
  "arena_clean env a g =
     rbind (global_deallocate_set env g (free_blocks a)) (\<lambda>g. Inr (a\<lparr>free_blocks := []\<rparr>, g))"

subsection \<open>Invariant of one arena\<close>

text \<open>\<open>rest\<close> is what the global arena has handed out to anyone else.\<close>

definition arena_ok ::
  "'u arena_env \<Rightarrow> ('u \<Rightarrow> nat set) \<Rightarrow> arena \<Rightarrow> 'u global_arena \<Rightarrow> nat set \<Rightarrow> bool" where
  "arena_ok env held a g rest \<longleftrightarrow>
     free_ok (free_blocks a) \<and> free_bytes (free_blocks a) \<inter> rest = {}
     \<and> global_ok env held g (free_bytes (free_blocks a) \<union> rest)"

lemma arena_okD:
  assumes "arena_ok env held a g rest"
  shows "free_ok (free_blocks a)" "free_bytes (free_blocks a) \<inter> rest = {}"
    "global_ok env held g (free_bytes (free_blocks a) \<union> rest)"
  using assms unfolding arena_ok_def by blast+

text \<open>Taking a block moves its bytes from the free set to \<open>rest\<close>.\<close>

lemma arena_take:
  assumes "arena_ok env held a g rest" and "0 < n" and "first_fit (free_blocks a) n = (b, fs)" and "is_valid b"
  shows "bsize b = n" "bytes_of b \<inter> rest = {}" "arena_ok env held (a\<lparr>free_blocks := fs\<rparr>) g (rest \<union> bytes_of b)"
proof -
  note a = arena_okD [OF assms(1)]
  have f: "free_ok fs" "bsize b = n" "bytes_of b \<union> free_bytes fs = free_bytes (free_blocks a)"
    "bytes_of b \<inter> free_bytes fs = {}"
    using first_fit_result [OF a(1) assms(2,3)] assms(4) by blast+
  show "bsize b = n" by (rule f(2))
  show "bytes_of b \<inter> rest = {}" using f(3) a(2) by blast
  have eq: "free_bytes fs \<union> (rest \<union> bytes_of b) = free_bytes (free_blocks a) \<union> rest" using f(3) by blast
  show "arena_ok env held (a\<lparr>free_blocks := fs\<rparr>) g (rest \<union> bytes_of b)"
    unfolding arena_ok_def using a f(1,3,4) by (auto simp: eq)
qed

text \<open>Giving a block back moves its bytes from \<open>rest\<close> to the free set.\<close>

lemma arena_coalesce:
  assumes "arena_ok env held a g rest" and "is_valid b" and "0 < bsize b" and "bytes_of b \<subseteq> rest"
  obtains (undefined) msg where "free_blocks a = []" "\<not> harmless (end_block env) b"
    "coalesce_block (end_block env) (free_blocks a) b = Inl (Undefined_behaviour msg)"
  | (merged) m fs where "coalesce_block (end_block env) (free_blocks a) b = Inr (m, fs)" "m \<in> set fs"
    "bytes_of b \<subseteq> bytes_of m" "arena_ok env held (a\<lparr>free_blocks := fs\<rparr>) g (rest - bytes_of b)"
proof -
  note a = arena_okD [OF assms(1)]
  have "bytes_of b \<inter> free_bytes (free_blocks a) = {}" using assms(4) a(2) by blast
  with a(1) assms(2,3) show ?thesis
  proof (cases rule: coalesce_block_result [where end_blk = "end_block env"])
    case (undefined msg)
    then show ?thesis by (rule that(1))
  next
    case c: (merged m fs)
    have eq: "free_bytes fs \<union> (rest - bytes_of b) = free_bytes (free_blocks a) \<union> rest"
      using c(6) assms(4) by blast
    have "global_ok env held g (free_bytes fs \<union> (rest - bytes_of b))" using a(3) unfolding eq .
    moreover have "free_bytes fs \<inter> (rest - bytes_of b) = {}" using a(2) c(6) by blast
    ultimately have "arena_ok env held (a\<lparr>free_blocks := fs\<rparr>) g (rest - bytes_of b)"
      unfolding arena_ok_def using c(3) by simp
    with c show ?thesis by (intro that(2)) auto
  qed
qed

lemma minimum_superblock_pos [simp]: "0 < minimum_superblock_size"
  by (simp add: minimum_superblock_size_def)

definition handed_out ::
  "'u arena_env \<Rightarrow> ('u \<Rightarrow> nat set) \<Rightarrow> nat \<Rightarrow> nat set \<Rightarrow> block \<times> arena \<times> 'u global_arena \<Rightarrow> bool" where
  "handed_out env held n rest = (\<lambda>(b, a, g).
     if is_valid b
     then bsize b = n \<and> bytes_of b \<inter> rest = {} \<and> arena_ok env held a g (rest \<union> bytes_of b)
     else arena_ok env held a g rest)"

lemma arena_fit:
  assumes "arena_ok env held a g rest" and "0 < n" and "first_fit (free_blocks a) n = (b, fs)"
  shows "handed_out env held n rest (b, a\<lparr>free_blocks := fs\<rparr>, g)"
proof (cases "is_valid b")
  case True
  then show ?thesis using arena_take [OF assms True] by (simp add: handed_out_def)
next
  case False
  then have "a\<lparr>free_blocks := fs\<rparr> = a"
    using first_fit_result [OF arena_okD(1) [OF assms(1)] assms(2,3)] by (cases a) simp
  with False assms(1) show ?thesis by (simp add: handed_out_def)
qed

text \<open>Adding a superblock that nobody owns to the free set.\<close>

lemma arena_add_superblock:
  assumes "arena_ok env held a g rest" and "is_valid sb" and "0 < bsize sb"
    and "bytes_of sb \<inter> (free_bytes (free_blocks a) \<union> rest) = {}"
    and "global_ok env held g1 (free_bytes (free_blocks a) \<union> rest \<union> bytes_of sb)"
  obtains (undefined) msg where "free_blocks a = []"
    "coalesce_block (end_block env) (free_blocks a) sb = Inl (Undefined_behaviour msg)"
  | (merged) m fs where "coalesce_block (end_block env) (free_blocks a) sb = Inr (m, fs)" "m \<in> set fs"
    "bytes_of sb \<subseteq> bytes_of m" "arena_ok env held (a\<lparr>free_blocks := fs\<rparr>) g1 rest"
proof -
  have "arena_ok env held a g1 (rest \<union> bytes_of sb)"
    unfolding arena_ok_def using arena_okD(1,2) [OF assms(1)] assms(4,5) by (auto simp: Un_assoc)
  then have "arena_ok env held a g1 (rest \<union> bytes_of sb)" "is_valid sb" "0 < bsize sb" "bytes_of sb \<subseteq> rest \<union> bytes_of sb"
    using assms(2,3) by auto
  then show ?thesis
  proof (cases rule: arena_coalesce)
    case (undefined msg)
    then show ?thesis by (intro that(1))
  next
    case c: (merged m fs)
    have "rest \<union> bytes_of sb - bytes_of sb = rest" using assms(4) by blast
    with c show ?thesis by (intro that(2)) simp_all
  qed
qed

text \<open>The first step of \<open>get_block\<close> leaves the arena as it was when it finds nothing.\<close>

lemma arena_get_block_cases:
  assumes "arena_ok env held a g rest" and "0 < n" and "arena_get_block env a g n = r"
  obtains (small) c fs where "first_fit (free_blocks a) n = (c, fs)" "is_valid c"
      "r = Inr (c, a\<lparr>free_blocks := fs\<rparr>, g)"
  | (error) e where "global_get_block env g (max n minimum_superblock_size) = Inl e" "r = Inl e"
  | (full) sb g1 where "global_get_block env g (max n minimum_superblock_size) = Inr (sb, g1)"
      "\<not> is_valid sb" "r = Inr (sb, a, g1)"
  | (grow) sb g1 where "global_get_block env g (max n minimum_superblock_size) = Inr (sb, g1)" "is_valid sb"
      "r = rbind (coalesce_block (end_block env) (free_blocks a) sb) (\<lambda>(_, fs).
             Inr (fst (first_fit fs n), a\<lparr>free_blocks := snd (first_fit fs n)\<rparr>, g1))"
proof -
  obtain c fs where ff: "(c, fs) = (if n < minimum_superblock_size then first_fit (free_blocks a) n
                                    else (null_block, free_blocks a))" by (metis surj_pair)
  note r = assms(3) [unfolded arena_get_block_def arena_expand_arena_def global_allocate_def ff [symmetric]]
  show ?thesis
  proof (cases "is_valid c")
    case True
    then have "first_fit (free_blocks a) n = (c, fs)" using ff by (auto split: if_splits)
    with True r show ?thesis by (intro small) auto
  next
    case False
    have a: "a\<lparr>free_blocks := fs\<rparr> = a"
      using ff False first_fit_result [OF arena_okD(1) [OF assms(1)] assms(2), of c fs]
      by (cases a) (auto split: if_splits)
    show ?thesis
    proof (cases "global_get_block env g (max n minimum_superblock_size)")
      case (Inl e)
      with r False a show ?thesis by (intro error) auto
    next
      case (Inr q)
      obtain sb g1 where q: "q = (sb, g1)" by (cases q)
      have "r = (if is_valid sb
          then rbind (coalesce_block (end_block env) (free_blocks a) sb) (\<lambda>(_, fs).
             Inr (fst (first_fit fs n), a\<lparr>free_blocks := snd (first_fit fs n)\<rparr>, g1))
          else Inr (sb, a, g1))"
        using r False a Inr q by (auto simp: Let_def split_beta)
      with full grow Inr q show ?thesis by (metis (no_types, lifting))
    qed
  qed
qed

lemma max_superblock_pos: "0 < max n minimum_superblock_size"
  by (simp add: max_def)

lemma arena_get_block_ok:
  assumes "arena_ok env held a g rest" and "0 < n" and "arena_get_block env a g n = Inr (b, a', g')"
  shows "handed_out env held n rest (b, a', g')"
  using assms(1,2) assms(3)
proof (cases rule: arena_get_block_cases)
  case (small c fs)
  then show ?thesis using arena_fit [OF assms(1,2) small(1)] by simp
next
  case (full sb g1)
  note global_get_block_ok [OF arena_okD(3) [OF assms(1)] max_superblock_pos full(1)]
  then show ?thesis using full arena_okD(1,2) [OF assms(1)] by (simp add: handed_out_def arena_ok_def)
next
  case (grow sb g1)
  note gb = global_get_block_ok [OF arena_okD(3) [OF assms(1)] max_superblock_pos grow(1)]
  have sb: "bsize sb = max n minimum_superblock_size"
    "bytes_of sb \<inter> (free_bytes (free_blocks a) \<union> rest) = {}"
    "global_ok env held g1 (free_bytes (free_blocks a) \<union> rest \<union> bytes_of sb)"
    using gb grow(2) by blast+
  then have "0 < bsize sb" using max_superblock_pos by metis
  from assms(1) grow(2) this sb(2,3) obtain m fs
    where co: "coalesce_block (end_block env) (free_blocks a) sb = Inr (m, fs)"
      and ok: "arena_ok env held (a\<lparr>free_blocks := fs\<rparr>) g1 rest"
    by (cases rule: arena_add_superblock) (use grow(3) in auto)
  have "first_fit (free_blocks (a\<lparr>free_blocks := fs\<rparr>)) n = (b, snd (first_fit fs n))"
    "a' = a\<lparr>free_blocks := snd (first_fit fs n)\<rparr>" "g' = g1"
    using grow(3) co by auto
  then show ?thesis using arena_fit [OF ok assms(2)] by fastforce
qed simp

lemma arena_get_block_error:
  assumes "arena_ok env held a g rest" and "0 < n" and "arena_get_block env a g n = Inl e"
  shows "(\<exists>k > 0. k \<le> maximum_size g - current_size g \<and> up_allocate env (upstream_mr g) k = Inl e)
     \<or> ((free_blocks a = [] \<or> g_free_blocks g = []) \<and> undefined_error e)"
  using assms(1,2) assms(3)
proof (cases rule: arena_get_block_cases)
  case (error e')
  note global_get_block_error [OF arena_okD(3) [OF assms(1)] max_superblock_pos error(1)]
  with error(2) size_to_grow_le [OF arena_okD(3) [OF assms(1)]] show ?thesis by blast
next
  case (grow sb g1)
  note gb = global_get_block_ok [OF arena_okD(3) [OF assms(1)] max_superblock_pos grow(1)]
  have sb: "bsize sb = max n minimum_superblock_size"
    "bytes_of sb \<inter> (free_bytes (free_blocks a) \<union> rest) = {}"
    "global_ok env held g1 (free_bytes (free_blocks a) \<union> rest \<union> bytes_of sb)"
    using gb grow(2) by blast+
  then have "0 < bsize sb" using max_superblock_pos by metis
  from assms(1) grow(2) this sb(2,3) show ?thesis
    by (cases rule: arena_add_superblock) (use grow(3) in auto)
qed simp_all

text \<open>An arena gives up only when a superblock for the request would exceed the maximum.\<close>

lemma arena_get_block_null:
  assumes "arena_ok env held a g rest" and "0 < n" and "arena_get_block env a g n = Inr (b, a', g')"
    and "\<not> is_valid b"
  shows "maximum_size g < current_size g + max n minimum_superblock_size"
  using assms(1,2) assms(3)
proof (cases rule: arena_get_block_cases)
  case (full sb g1)
  then show ?thesis
    using global_get_block_serves [OF arena_okD(3) [OF assms(1)] max_superblock_pos _ full(1)] by force
next
  case (grow sb g1)
  note gb = global_get_block_ok [OF arena_okD(3) [OF assms(1)] max_superblock_pos grow(1)]
  have sb: "bsize sb = max n minimum_superblock_size"
    "bytes_of sb \<inter> (free_bytes (free_blocks a) \<union> rest) = {}"
    "global_ok env held g1 (free_bytes (free_blocks a) \<union> rest \<union> bytes_of sb)"
    using gb grow(2) by blast+
  then have "0 < bsize sb" using max_superblock_pos by metis
  from assms(1) grow(2) this sb(2,3) obtain m fs
    where co: "coalesce_block (end_block env) (free_blocks a) sb = Inr (m, fs)" "m \<in> set fs"
      "bytes_of sb \<subseteq> bytes_of m" "arena_ok env held (a\<lparr>free_blocks := fs\<rparr>) g1 rest"
    by (cases rule: arena_add_superblock) (use grow(3) in auto)
  have "card (bytes_of sb) \<le> card (bytes_of m)" by (rule card_mono [OF _ co(3)]) (simp add: bytes_of_def)
  then have "n \<le> bsize m" using sb(1) by (simp add: bytes_of_def)
  moreover have "free_ok fs" "first_fit fs n = (b, snd (first_fit fs n))"
    using arena_okD(1) [OF co(4)] grow(3) co(1) by auto
  then have "\<forall>c \<in> set fs. bsize c < n" using first_fit_result assms(2,4) by blast
  ultimately show ?thesis using co(2) by fastforce
qed (use assms(4) in simp_all)

lemma shrink_arena_ok:
  assumes "arena_ok env held a g rest" and "m \<in> set (free_blocks a)"
  shows "case shrink_arena env a g m of
      Inl e \<Rightarrow> undefined_error e \<and> g_free_blocks g = [] \<and> \<not> harmless (g_end_block env) m
    | Inr (a', g') \<Rightarrow> arena_ok env held a' g' rest"
proof -
  note a = arena_okD [OF assms(1)]
  obtain us vs where fs: "free_blocks a = us @ m # vs" using assms(2) split_list by fast
  have fe: "set_erase m (free_blocks a) = us @ vs" using free_ok_erase a(1) unfolding fs by blast
  have m: "is_valid m" "0 < bsize m" and ok: "free_ok (us @ vs)"
    using a(1) by (auto simp: fs free_ok_append free_ok_Cons is_valid_def)
  have d: "bytes_of m \<inter> free_bytes (us @ vs) = {}"
    using a(1) by (fastforce simp: fs free_ok_append free_ok_Cons bytes_of_def free_bytes_def)
  have "bytes_of m \<subseteq> free_bytes (free_blocks a) \<union> rest" by (auto simp: fs)
  with a(3) m show ?thesis
  proof (cases rule: global_give)
    case (undefined msg)
    then show ?thesis using assms(1) by (simp add: shrink_arena_def)
  next
    case (given g')
    have "free_bytes (free_blocks a) \<union> rest - bytes_of m = free_bytes (us @ vs) \<union> rest"
      using d a(2) by (auto simp: fs)
    then have "arena_ok env held (a\<lparr>free_blocks := us @ vs\<rparr>) g' rest"
      unfolding arena_ok_def using ok given(2) a(2) by (auto simp: fs)
    then show ?thesis using given(1) fe assms(1) by (simp add: shrink_arena_def)
  qed
qed

text \<open>A block can be returned unless one of the two reads of \<^verbatim>\<open>*end()\<close>, each made only of an empty set, goes wrong.\<close>

definition stray_read :: "'u arena_env \<Rightarrow> arena \<Rightarrow> 'u global_arena \<Rightarrow> block \<Rightarrow> bool" where
  "stray_read env a g b \<longleftrightarrow> (free_blocks a = [] \<and> \<not> harmless (end_block env) b)
     \<or> (g_free_blocks g = [] \<and> (\<exists>m. bytes_of b \<subseteq> bytes_of m \<and> \<not> harmless (g_end_block env) m))"

lemma arena_deallocate_ok:
  assumes "arena_ok env held a g rest" and "0 < p" and "0 < n" and "{p..<p + n} \<subseteq> rest"
  shows "case arena_deallocate env a g p n of
      Inl e \<Rightarrow> undefined_error e \<and> stray_read env a g \<lparr>bptr = p, bsize = n\<rparr>
    | Inr (a', g') \<Rightarrow> arena_ok env held a' g' (rest - {p..<p + n})"
proof -
  let ?b = "\<lparr>bptr = p, bsize = n\<rparr>"
  have b: "is_valid ?b" "0 < bsize ?b" "bytes_of ?b \<subseteq> rest" "bytes_of ?b = {p..<p + n}"
    using assms by (simp_all add: is_valid_def bytes_of_def)
  from assms(1) b(1-3) show ?thesis
  proof (cases rule: arena_coalesce)
    case (undefined msg)
    then show ?thesis by (simp add: arena_deallocate_def stray_read_def)
  next
    case (merged m fs)
    then show ?thesis
      using shrink_arena_ok [OF merged(4), of m]
      by (auto simp: arena_deallocate_def b(4) stray_read_def split: sum.splits)
  qed
qed

lemma global_deallocate_set_ok:
  assumes "free_ok bs" and "free_bytes bs \<inter> rest = {}" and "global_ok env held g (free_bytes bs \<union> rest)"
  shows "case global_deallocate_set env g bs of Inl e \<Rightarrow> undefined_error e | Inr g' \<Rightarrow> global_ok env held g' rest"
  using assms
proof (induction bs arbitrary: g)
  case Nil
  then show ?case by (simp add: global_deallocate_set_def)
next
  case (Cons b bs)
  have b: "is_valid b" "0 < bsize b" and ok: "free_ok bs"
    using Cons.prems(1) by (auto simp: free_ok_Cons is_valid_def)
  have d: "bytes_of b \<inter> free_bytes bs = {}"
    using Cons.prems(1) by (fastforce simp: free_ok_Cons bytes_of_def free_bytes_def)
  have "bytes_of b \<subseteq> free_bytes (b # bs) \<union> rest" by auto
  with Cons.prems(3) b show ?case
  proof (cases rule: global_give)
    case (undefined msg)
    then show ?thesis by (simp add: global_deallocate_set_def)
  next
    case (given g1)
    have "free_bytes (b # bs) \<union> rest - bytes_of b = free_bytes bs \<union> rest" using d Cons.prems(2) by auto
    with given(2) have "global_ok env held g1 (free_bytes bs \<union> rest)" by simp
    from Cons.IH [OF ok _ this] Cons.prems(2) show ?thesis
      using given(1) by (auto simp: global_deallocate_set_def)
  qed
qed

lemma arena_clean_ok:
  assumes "arena_ok env held a g rest"
  shows "case arena_clean env a g of
      Inl e \<Rightarrow> undefined_error e
    | Inr (a', g') \<Rightarrow> a' = a\<lparr>free_blocks := []\<rparr> \<and> arena_ok env held a' g' rest"
  using global_deallocate_set_ok [OF arena_okD [OF assms]]
  by (cases "global_deallocate_set env g (free_blocks a)") (simp_all add: arena_clean_def arena_ok_def)

section \<open>The arena resource\<close>

record 'u arena_resource =
  r_global_arena :: "'u global_arena"
  thread_arenas :: "(nat, arena) smap"

definition arena_resource_new :: "'u arena_env \<Rightarrow> 'u \<Rightarrow> nat \<Rightarrow> nat \<Rightarrow> 'u arena_resource result" where
  "arena_resource_new env u initial_size max_size =
     rbind (global_arena_new env u initial_size max_size)
       (\<lambda>g. Inr \<lparr>r_global_arena = g, thread_arenas = []\<rparr>)"

definition get_thread_arena :: "'u arena_resource \<Rightarrow> nat \<Rightarrow> arena \<times> 'u arena_resource" where
  "get_thread_arena r tid =
     (case smap_find (thread_arenas r) tid of
        Some a \<Rightarrow> (a, r)
      | None \<Rightarrow> (let a = \<lparr>free_blocks = []\<rparr>
                 in (a, r\<lparr>thread_arenas := smap_put tid a (thread_arenas r)\<rparr>)))"

definition store_arena :: "'u arena_resource \<Rightarrow> nat \<Rightarrow> arena \<Rightarrow> 'u global_arena \<Rightarrow> 'u arena_resource" where
  "store_arena r tid a g =
     r\<lparr>r_global_arena := g, thread_arenas := smap_put tid a (thread_arenas r)\<rparr>"

text \<open>One call of \<open>arena.allocate\<close> by a thread, under the arena's mutex.\<close>

definition thread_allocate :: "'u arena_env \<Rightarrow> nat \<Rightarrow> 'u arena_resource \<Rightarrow> nat \<Rightarrow> nat result \<times> 'u arena_resource" where
  "thread_allocate env tid r bytes =
     (let (a, r) = get_thread_arena r tid
      in case arena_allocate env a (r_global_arena r) bytes of
           Inl e \<Rightarrow> (Inl e, r)
         | Inr (p, a, g) \<Rightarrow> (Inr p, store_arena r tid a g))"

text \<open>Cleaning the arena of one thread: an iteration of \<open>defragment\<close>, and the destructor of
  \<^verbatim>\<open>arena_cleaner\<close> at the end of the thread.\<close>

definition clean_thread :: "'u arena_env \<Rightarrow> nat \<Rightarrow> 'u arena_resource \<Rightarrow> 'u arena_resource result" where
  "clean_thread env tid r =
     (case smap_find (thread_arenas r) tid of
        None \<Rightarrow> Inr r
      | Some a \<Rightarrow> rbind (arena_clean env a (r_global_arena r)) (\<lambda>(a, g). Inr (store_arena r tid a g)))"

definition defragment :: "'u arena_env \<Rightarrow> 'u arena_resource \<Rightarrow> 'u arena_resource result" where
  "defragment env r = fold_result (clean_thread env) (smap_keys (thread_arenas r)) r"

definition do_allocate :: "'u arena_env \<Rightarrow> nat \<Rightarrow> 'u arena_resource \<Rightarrow> nat \<Rightarrow> nat result \<times> 'u arena_resource" where
  "do_allocate env tid r bytes =
     (if bytes = 0 then (Inr 0, r)
      else
        (let bytes = align_up env bytes
         in case thread_allocate env tid r bytes of
              (Inl e, r) \<Rightarrow> (Inl e, r)
            | (Inr p, r) \<Rightarrow>
                if p \<noteq> 0 then (Inr p, r)
                else case defragment env r of
                       Inl e \<Rightarrow> (Inl e, r)
                     | Inr r \<Rightarrow>
                         (case thread_allocate env tid r bytes of
                            (Inl e, r) \<Rightarrow> (Inl e, r)
                          | (Inr p, r) \<Rightarrow>
                              if p = 0 then (Inl (Fatal ''Maximum pool size exceeded''), r)
                              else (Inr p, r))))"

definition do_deallocate :: "'u arena_env \<Rightarrow> nat \<Rightarrow> 'u arena_resource \<Rightarrow> nat \<Rightarrow> nat \<Rightarrow> 'u arena_resource result" where
  "do_deallocate env tid r ptr bytes =
     (if ptr = 0 \<or> bytes = 0 then Inr r
      else
        (let bytes = align_up env bytes; (a, r) = get_thread_arena r tid
         in rbind (arena_deallocate env a (r_global_arena r) ptr bytes)
              (\<lambda>(a, g). Inr (store_arena r tid a g))))"

subsection \<open>Invariant\<close>

definition the_arena :: "'u arena_resource \<Rightarrow> nat \<Rightarrow> arena" where
  "the_arena r t = (case smap_find (thread_arenas r) t of None \<Rightarrow> \<lparr>free_blocks = []\<rparr> | Some a \<Rightarrow> a)"

abbreviation thread_bytes :: "'u arena_resource \<Rightarrow> nat \<Rightarrow> nat set" where
  "thread_bytes r t \<equiv> free_bytes (free_blocks (the_arena r t))"

definition other_bytes :: "'u arena_resource \<Rightarrow> nat \<Rightarrow> nat set" where
  "other_bytes r t = (\<Union>t' \<in> - {t}. thread_bytes r t')"

text \<open>No byte is in two free sets or both free and handed out; together the free sets of the threads
  and the allocations in \<open>out\<close> are what the global arena has handed out.\<close>

definition resource_ok :: "'u arena_env \<Rightarrow> ('u \<Rightarrow> nat set) \<Rightarrow> 'u arena_resource \<Rightarrow> nat set \<Rightarrow> bool" where
  "resource_ok env held r out \<longleftrightarrow>
     smap_ok (thread_arenas r) \<and> (\<forall>t. free_ok (free_blocks (the_arena r t)))
     \<and> (\<forall>t t'. t \<noteq> t' \<longrightarrow> thread_bytes r t \<inter> thread_bytes r t' = {})
     \<and> (\<forall>t. thread_bytes r t \<inter> out = {})
     \<and> global_ok env held (r_global_arena r) ((\<Union>t. thread_bytes r t) \<union> out)"

lemma resource_okD:
  assumes "resource_ok env held r out"
  shows "smap_ok (thread_arenas r)" "free_ok (free_blocks (the_arena r t))"
    "t \<noteq> t' \<Longrightarrow> thread_bytes r t \<inter> thread_bytes r t' = {}" "thread_bytes r t \<inter> out = {}"
    "global_ok env held (r_global_arena r) ((\<Union>t. thread_bytes r t) \<union> out)"
  using assms unfolding resource_ok_def by blast+

lemma all_bytes: "(\<Union>t. thread_bytes r t) = thread_bytes r t \<union> other_bytes r t"
  by (auto simp: other_bytes_def)

lemma the_arena_store [simp]:
  "the_arena (store_arena r t a g) t' = (if t' = t then a else the_arena r t')"
  by (simp add: the_arena_def store_arena_def)

lemma other_bytes_store [simp]: "other_bytes (store_arena r t a g) t = other_bytes r t"
  by (auto simp: other_bytes_def)

lemma r_global_store [simp]: "r_global_arena (store_arena r t a g) = g"
  by (simp add: store_arena_def)

lemma smap_ok_store [simp]: "smap_ok (thread_arenas r) \<Longrightarrow> smap_ok (thread_arenas (store_arena r t a g))"
  by (simp add: store_arena_def)

text \<open>Looking at the resource from one thread.\<close>

lemma resource_focus:
  assumes "resource_ok env held r out"
  shows "arena_ok env held (the_arena r t) (r_global_arena r) (other_bytes r t \<union> out)"
    "other_bytes r t \<inter> out = {}"
proof -
  note r = resource_okD [OF assms]
  have "thread_bytes r t \<inter> other_bytes r t = {}" using r(3) by (fastforce simp: other_bytes_def)
  moreover show "other_bytes r t \<inter> out = {}" using r(4) by (fastforce simp: other_bytes_def)
  ultimately show "arena_ok env held (the_arena r t) (r_global_arena r) (other_bytes r t \<union> out)"
    unfolding arena_ok_def using r(2,4) [of t] r(5) [unfolded all_bytes [of r t]] by (auto simp: Un_assoc)
qed

lemma resource_unfocus:
  assumes r: "resource_ok env held r out" and a: "arena_ok env held a g (other_bytes r t \<union> out')"
    and o: "other_bytes r t \<inter> out' = {}"
  shows "resource_ok env held (store_arena r t a g) out'"
proof -
  note rd = resource_okD [OF r]
  note ad = arena_okD [OF a]
  have sub: "t' \<noteq> t \<Longrightarrow> thread_bytes r t' \<subseteq> other_bytes r t" for t' by (auto simp: other_bytes_def)
  have "thread_bytes (store_arena r t a g) t1 \<inter> thread_bytes (store_arena r t a g) t2 = {}" if "t1 \<noteq> t2" for t1 t2
    using that rd(3) [OF that] ad(2) sub [of t1] sub [of t2] by (auto simp: disjoint_iff subset_iff)
  moreover have "thread_bytes (store_arena r t a g) t1 \<inter> out' = {}" for t1
    using o ad(2) sub [of t1] by (auto simp: disjoint_iff subset_iff)
  moreover have "(\<Union>t'. thread_bytes (store_arena r t a g) t') \<union> out'
      = free_bytes (free_blocks a) \<union> (other_bytes r t \<union> out')"
    unfolding all_bytes [of "store_arena r t a g" t] by (simp add: Un_assoc)
  ultimately show ?thesis
    unfolding resource_ok_def using rd(1,2) ad(1,3) by simp
qed

lemma get_thread_arena_eq:
  "get_thread_arena r t = (the_arena r t, store_arena r t (the_arena r t) (r_global_arena r)) \<or>
   get_thread_arena r t = (the_arena r t, r)"
  by (simp add: get_thread_arena_def the_arena_def store_arena_def Let_def split: option.splits)

lemma get_thread_arena_ok:
  assumes "resource_ok env held r out" and "get_thread_arena r t = (a, r')"
  shows "resource_ok env held r' out" "a = the_arena r' t" "a = the_arena r t" "r_global_arena r' = r_global_arena r"
proof -
  have "resource_ok env held (store_arena r t (the_arena r t) (r_global_arena r)) out"
    by (rule resource_unfocus [OF assms(1) resource_focus [OF assms(1)]])
  with assms get_thread_arena_eq [of r t] show "resource_ok env held r' out" "a = the_arena r' t"
    "a = the_arena r t" "r_global_arena r' = r_global_arena r" by auto
qed

lemma thread_allocate_ok:
  assumes "resource_ok env held r out" and "0 < n" and "thread_allocate env t r n = (res, r')"
  shows "case res of
      Inl e \<Rightarrow> resource_ok env held r' out
    | Inr p \<Rightarrow> if p = 0 then resource_ok env held r' out
               else {p..<p + n} \<inter> out = {} \<and> resource_ok env held r' (out \<union> {p..<p + n})"
proof -
  obtain a r1 where ga: "get_thread_arena r t = (a, r1)" by fastforce
  note r1 = get_thread_arena_ok [OF assms(1) ga]
  note fo = resource_focus [OF r1(1), of t]
  show ?thesis
  proof (cases "arena_get_block env a (r_global_arena r1) n")
    case (Inl e)
    then show ?thesis using assms(3) ga r1(1) by (auto simp: thread_allocate_def arena_allocate_def)
  next
    case (Inr q)
    obtain b a' g' where q: "q = (b, a', g')" by (cases q)
    have res: "res = Inr (bptr b)" "r' = store_arena r1 t a' g'"
      using assms(3) ga Inr q by (auto simp: thread_allocate_def arena_allocate_def)
    have h: "handed_out env held n (other_bytes r1 t \<union> out) (b, a', g')"
      by (rule arena_get_block_ok [OF fo(1) assms(2)]) (use Inr q r1(2) in simp)
    show ?thesis
    proof (cases "is_valid b")
      case True
      then have hb: "bytes_of b = {bptr b..<bptr b + n}" "bytes_of b \<inter> (other_bytes r1 t \<union> out) = {}"
        "arena_ok env held a' g' (other_bytes r1 t \<union> (out \<union> bytes_of b))"
        using h by (auto simp: handed_out_def bytes_of_def Un_assoc)
      have "resource_ok env held r' (out \<union> bytes_of b)"
        unfolding res(2) using hb(2) fo(2) by (intro resource_unfocus [OF r1(1) hb(3)]) blast
      moreover have "bytes_of b \<inter> out = {}" using hb(2) by blast
      ultimately show ?thesis using True unfolding hb(1) by (simp add: res(1) is_valid_def)
    next
      case False
      then show ?thesis
        using h resource_unfocus [OF r1(1) _ fo(2)] by (simp add: handed_out_def res is_valid_def)
    qed
  qed
qed

lemma clean_thread_ok:
  assumes "resource_ok env held r out"
  shows "case clean_thread env t r of Inl e \<Rightarrow> undefined_error e | Inr r' \<Rightarrow> resource_ok env held r' out"
proof (cases "smap_find (thread_arenas r) t")
  case None
  then show ?thesis using assms by (simp add: clean_thread_def)
next
  case (Some a)
  then have a: "the_arena r t = a" by (simp add: the_arena_def)
  note fo = resource_focus [OF assms, of t]
  show ?thesis
    using arena_clean_ok [OF fo(1)] a Some resource_unfocus [OF assms _ fo(2)]
    by (auto simp: clean_thread_def rbind_def split: sum.splits)
qed

lemma clean_threads_ok:
  "resource_ok env held r out \<Longrightarrow>
   case fold_result (clean_thread env) ts r of Inl e \<Rightarrow> undefined_error e | Inr r' \<Rightarrow> resource_ok env held r' out"
proof (induction ts arbitrary: r)
  case Nil
  then show ?case by simp
next
  case (Cons t ts)
  then show ?case using clean_thread_ok [OF Cons.prems, of t] by (cases "clean_thread env t r") simp_all
qed

lemma defragment_ok:
  "resource_ok env held r out \<Longrightarrow>
   case defragment env r of Inl e \<Rightarrow> undefined_error e | Inr r' \<Rightarrow> resource_ok env held r' out"
  unfolding defragment_def by (rule clean_threads_ok)

lemma do_allocate_ok:
  assumes "resource_ok env held r out" and "n \<le> align_up env n" and "do_allocate env t r n = (res, r')"
  shows "case res of
      Inl e \<Rightarrow> resource_ok env held r' out
    | Inr p \<Rightarrow> if p = 0 then resource_ok env held r' out
               else 0 < n \<and> {p..<p + align_up env n} \<inter> out = {}
                  \<and> resource_ok env held r' (out \<union> {p..<p + align_up env n})"
proof (cases "n = 0")
  case True
  then show ?thesis using assms by (auto simp: do_allocate_def)
next
  case False
  then have pos: "0 < align_up env n" using assms(2) by simp
  obtain res1 r1 where a1: "thread_allocate env t r (align_up env n) = (res1, r1)" by fastforce
  note ok1 = thread_allocate_ok [OF assms(1) pos a1]
  show ?thesis
  proof (cases "res1 = Inr 0")
    case False
    then have "res = res1" "r' = r1"
      using assms(3) a1 \<open>n \<noteq> 0\<close> by (auto simp: do_allocate_def Let_def split: sum.splits)
    then show ?thesis using ok1 \<open>n \<noteq> 0\<close> by (auto split: sum.splits)
  next
    case True
    then have r1: "resource_ok env held r1 out" using ok1 by simp
    show ?thesis
    proof (cases "defragment env r1")
      case (Inl e)
      then show ?thesis using assms(3) a1 True r1 \<open>n \<noteq> 0\<close> by (auto simp: do_allocate_def)
    next
      case d: (Inr r2)
      then have r2: "resource_ok env held r2 out" using defragment_ok [OF r1] by simp
      obtain res3 r3 where a3: "thread_allocate env t r2 (align_up env n) = (res3, r3)" by fastforce
      have "r' = r3" "res = (if res3 = Inr 0 then Inl (Fatal ''Maximum pool size exceeded'') else res3)"
        using assms(3) a1 True d a3 \<open>n \<noteq> 0\<close>
        by (auto simp: do_allocate_def Let_def split: sum.splits if_splits)
      then show ?thesis using thread_allocate_ok [OF r2 pos a3] \<open>n \<noteq> 0\<close> by (auto split: sum.splits)
    qed
  qed
qed

lemma do_deallocate_ok:
  assumes "resource_ok env held r out" and "0 < p" and "0 < n" and "n \<le> align_up env n"
    and "{p..<p + align_up env n} \<subseteq> out"
  shows "case do_deallocate env t r p n of
      Inl e \<Rightarrow> undefined_error e \<and> stray_read env (the_arena r t) (r_global_arena r) \<lparr>bptr = p, bsize = align_up env n\<rparr>
    | Inr r' \<Rightarrow> resource_ok env held r' (out - {p..<p + align_up env n})"
proof -
  obtain a r1 where ga: "get_thread_arena r t = (a, r1)" by fastforce
  note r1 = get_thread_arena_ok [OF assms(1) ga]
  note fo = resource_focus [OF r1(1), of t]
  let ?B = "{p..<p + align_up env n}"
  have eq: "other_bytes r1 t \<union> out - ?B = other_bytes r1 t \<union> (out - ?B)" using fo(2) assms(5) by blast
  have "0 < align_up env n" "?B \<subseteq> other_bytes r1 t \<union> out" using assms(3,4,5) by auto
  note d = arena_deallocate_ok [OF fo(1) assms(2) this, unfolded eq, folded r1(2)]
  have o: "other_bytes r1 t \<inter> (out - ?B) = {}" using fo(2) by blast
  have "do_deallocate env t r p n
      = rbind (arena_deallocate env a (r_global_arena r1) p (align_up env n)) (\<lambda>(a, g). Inr (store_arena r1 t a g))"
    using ga assms(2,3) by (simp add: do_deallocate_def Let_def)
  with d r1(3,4) show ?thesis
    using resource_unfocus [OF r1(1) _ o]
    by (cases "arena_deallocate env a (r_global_arena r1) p (align_up env n)") auto
qed

lemma arena_resource_new_ok:
  assumes "arena_resource_new env u initial_size max_size = Inr r" and "upstream_laws env held"
    and "max_size \<le> size_max" and "upstream_blocks (r_global_arena r) \<noteq> []"
  shows "resource_ok env held r {}"
proof -
  obtain g where g: "global_arena_new env u initial_size max_size = Inr g"
    "r = \<lparr>r_global_arena = g, thread_arenas = []\<rparr>"
    using assms(1) by (auto simp: arena_resource_new_def rbind_eq_Inr)
  have "global_ok env held g {}" using global_arena_new_ok [OF g(1) assms(2,3)] assms(4) g(2) by simp
  then show ?thesis by (simp add: g(2) resource_ok_def the_arena_def)
qed

subsection \<open>The resource as an allocator\<close>

text \<open>One attempt of \<open>do_allocate\<close>. A call of \<open>do_allocate\<close> is an attempt, possibly followed by the
  cleaning of every arena and a second attempt. Other threads may run between these, so the steps
  below are the interleavings of any number of threads.\<close>

definition try_allocate :: "'u arena_env \<Rightarrow> nat \<Rightarrow> 'u arena_resource \<Rightarrow> nat \<Rightarrow> nat result \<times> 'u arena_resource" where
  "try_allocate env tid r bytes =
     (if bytes = 0 then (Inr 0, r) else thread_allocate env tid r (align_up env bytes))"

text \<open>A call is made by a thread, and what it reads from \<^verbatim>\<open>*end()\<close> of its empty set and of the empty set of the global
  arena may differ from call to call. (It reads either at most once: afterwards that set is not empty.)\<close>

type_synonym caller = "nat \<times> block option \<times> block option"

definition with_end :: "'u arena_env \<Rightarrow> caller \<Rightarrow> 'u arena_env" where
  "with_end env c = env\<lparr>end_block := fst (snd c), g_end_block := snd (snd c)\<rparr>"

definition do_allocate_by :: "'u arena_env \<Rightarrow> (caller, 'u arena_resource) alloc_op" where
  "do_allocate_by env c = do_allocate (with_end env c) (fst c)"

definition try_allocate_by :: "'u arena_env \<Rightarrow> (caller, 'u arena_resource) alloc_op" where
  "try_allocate_by env c = try_allocate (with_end env c) (fst c)"

definition do_deallocate_by :: "'u arena_env \<Rightarrow> (caller, 'u arena_resource) dealloc_op" where
  "do_deallocate_by env c = do_deallocate (with_end env c) (fst c)"

definition clean_thread_by :: "'u arena_env \<Rightarrow> (caller, 'u arena_resource) tidy_op" where
  "clean_thread_by env c = clean_thread (with_end env c) (fst c)"

lemma with_end_simps [simp]:
  "align_up (with_end env c) = align_up env" "end_block (with_end env c) = fst (snd c)"
  "g_end_block (with_end env c) = snd (snd c)" "up_allocate (with_end env c) = up_allocate env"
  by (simp_all add: with_end_def align_up_def fun_eq_iff)

lemma resource_ok_with_end [simp]: "resource_ok (with_end env c) held r out = resource_ok env held r out"
  by (simp add: resource_ok_def global_ok_def upstream_laws_def)

definition usable_size :: "'u arena_env \<Rightarrow> nat \<Rightarrow> bool" where
  "usable_size env n \<longleftrightarrow> n \<le> align_up env n"

lemma try_allocate_ok:
  assumes "resource_ok env held r out" and "n \<le> align_up env n" and "try_allocate env t r n = (res, r')"
  shows "case res of
      Inl e \<Rightarrow> resource_ok env held r' out
    | Inr p \<Rightarrow> if p = 0 then resource_ok env held r' out
               else 0 < n \<and> {p..<p + align_up env n} \<inter> out = {}
                  \<and> resource_ok env held r' (out \<union> {p..<p + align_up env n})"
proof (cases "n = 0")
  case True
  then show ?thesis using assms by (auto simp: try_allocate_def)
next
  case False
  then have a: "thread_allocate env t r (align_up env n) = (res, r')" using assms(3) by (simp add: try_allocate_def)
  show ?thesis using thread_allocate_ok [OF assms(1) _ a] False assms(2) by (simp split: sum.splits)
qed

lemma do_allocate_some:
  "resource_ok env held r out \<Longrightarrow> n \<le> align_up env n \<Longrightarrow> do_allocate env t r n = (Inr p, r') \<Longrightarrow> p \<noteq> 0 \<Longrightarrow>
   0 < n \<and> {p..<p + align_up env n} \<inter> out = {} \<and> resource_ok env held r' (out \<union> {p..<p + align_up env n})"
  using do_allocate_ok [of env held r out n t "Inr p" r'] by simp

lemma do_allocate_none:
  "resource_ok env held r out \<Longrightarrow> n \<le> align_up env n \<Longrightarrow> do_allocate env t r n = (res, r') \<Longrightarrow> res = Inr 0 \<or> isl res \<Longrightarrow>
   resource_ok env held r' out"
  using do_allocate_ok [of env held r out n t res r'] by (cases res) auto

lemma do_deallocate_by_ok:
  assumes "resource_ok env held r out" and "0 < p" and "0 < n" and "n \<le> align_up env n"
    and "{p..<p + align_up env n} \<subseteq> out"
  shows "case do_deallocate_by env c r p n of
      Inl e \<Rightarrow> undefined_error e \<and>
        stray_read (with_end env c) (the_arena r (fst c)) (r_global_arena r) \<lparr>bptr = p, bsize = align_up env n\<rparr>
    | Inr r' \<Rightarrow> resource_ok env held r' (out - {p..<p + align_up env n})"
  using do_deallocate_ok [of "with_end env c" held r out p n "fst c"] assms by (simp add: do_deallocate_by_def split: sum.splits)

lemma dealloc_law:
  assumes "resource_ok env held r out" and "0 < p" and "0 < n" and "n \<le> align_up env n"
    and "{p..<p + align_up env n} \<subseteq> out"
  shows "case do_deallocate_by env c r p n of Inl e \<Rightarrow> undefined_error e
    | Inr r' \<Rightarrow> resource_ok env held r' (out - {p..<p + align_up env n})"
  using do_deallocate_by_ok [OF assms, of c] by (simp split: sum.splits)

lemma tidy_law:
  "resource_ok env held r out \<Longrightarrow>
   case clean_thread_by env c r of Inl e \<Rightarrow> undefined_error e | Inr r' \<Rightarrow> resource_ok env held r' out"
  using clean_thread_ok [of "with_end env c" held r out "fst c"] by (simp add: clean_thread_by_def split: sum.splits)

interpretation ar: tidy_allocator "do_allocate_by env" "do_deallocate_by env" "resource_ok env held"
    "align_up env" "usable_size env" "clean_thread_by env"
  for env :: "'u arena_env" and held
proof unfold_locales
  fix r r' :: "'u arena_resource" and out c n p
  assume a: "resource_ok env held r out" "usable_size env n"
  note some = do_allocate_some [of "with_end env c" held r out n "fst c"]
  note none = do_allocate_none [of "with_end env c" held r out n "fst c"]
  show "0 < n \<and> {p..<p + align_up env n} \<inter> out = {} \<and> resource_ok env held r' (out \<union> {p..<p + align_up env n})"
    if "do_allocate_by env c r n = (Inr p, r')" "p \<noteq> 0"
    using some [of p r'] that a by (simp add: do_allocate_by_def usable_size_def)
  show "resource_ok env held r' out" if "do_allocate_by env c r n = (Inr 0, r')"
    using none [of "Inr 0" r'] that a by (simp add: do_allocate_by_def usable_size_def)
  show "resource_ok env held r' out" if "do_allocate_by env c r n = (Inl e, r')" for e
    using none [of "Inl e" r'] that a by (simp add: do_allocate_by_def usable_size_def)
qed (simp_all add: usable_size_def dealloc_law tidy_law)

lemma try_allocate_some:
  "resource_ok env held r out \<Longrightarrow> n \<le> align_up env n \<Longrightarrow> try_allocate env t r n = (Inr p, r') \<Longrightarrow> p \<noteq> 0 \<Longrightarrow>
   0 < n \<and> {p..<p + align_up env n} \<inter> out = {} \<and> resource_ok env held r' (out \<union> {p..<p + align_up env n})"
  using try_allocate_ok [of env held r out n t "Inr p" r'] by simp

lemma try_allocate_none:
  "resource_ok env held r out \<Longrightarrow> n \<le> align_up env n \<Longrightarrow> try_allocate env t r n = (res, r') \<Longrightarrow> res = Inr 0 \<or> isl res \<Longrightarrow>
   resource_ok env held r' out"
  using try_allocate_ok [of env held r out n t res r'] by (cases res) auto

interpretation ai: tidy_allocator "try_allocate_by env" "do_deallocate_by env" "resource_ok env held"
    "align_up env" "usable_size env" "clean_thread_by env"
  for env :: "'u arena_env" and held
proof unfold_locales
  fix r r' :: "'u arena_resource" and out c n p
  assume a: "resource_ok env held r out" "usable_size env n"
  note some = try_allocate_some [of "with_end env c" held r out n "fst c"]
  note none = try_allocate_none [of "with_end env c" held r out n "fst c"]
  show "0 < n \<and> {p..<p + align_up env n} \<inter> out = {} \<and> resource_ok env held r' (out \<union> {p..<p + align_up env n})"
    if "try_allocate_by env c r n = (Inr p, r')" "p \<noteq> 0"
    using some [of p r'] that a by (simp add: try_allocate_by_def usable_size_def)
  show "resource_ok env held r' out" if "try_allocate_by env c r n = (Inr 0, r')"
    using none [of "Inr 0" r'] that a by (simp add: try_allocate_by_def usable_size_def)
  show "resource_ok env held r' out" if "try_allocate_by env c r n = (Inl e, r')" for e
    using none [of "Inl e" r'] that a by (simp add: try_allocate_by_def usable_size_def)
qed (simp_all add: usable_size_def dealloc_law tidy_law)

subsection \<open>Correctness of the resource\<close>

text \<open>C1. Memory safety of the arena resource: start from a newly built resource and let any number of
  threads allocate, free each other's allocations, defragment and end, in any interleaving, whatever
  the reads of \<^verbatim>\<open>*end()\<close> yield (a call for which such a read is undefined behaviour ends the run). At
  every moment the allocations that are held are real addresses, each at least as large as
  requested, no two of them overlap, they lie in memory obtained from upstream and outside the free
  set of every thread, and the memory obtained from upstream does not exceed the maximum size.\<close>

theorem arena_resource_safe:
  assumes "arena_resource_new env u initial_size max_size = Inr r0" and "upstream_laws env held"
    and "max_size \<le> size_max" and "upstream_blocks (r_global_arena r0) \<noteq> []"
    and "(client_step (try_allocate_by env) (do_deallocate_by env) (clean_thread_by env) (usable_size env))\<^sup>*\<^sup>*
           (r0, []) (r, live)"
  shows "live_ok (align_up env) live
     \<and> live_bytes (align_up env) live \<subseteq> free_bytes (upstream_blocks (r_global_arena r))
     \<and> (\<forall>t. live_bytes (align_up env) live \<inter> thread_bytes r t = {})
     \<and> live_bytes (align_up env) live \<inter> free_bytes (g_free_blocks (r_global_arena r)) = {}
     \<and> sum_list (map bsize (upstream_blocks (r_global_arena r))) \<le> maximum_size (r_global_arena r)"
proof -
  have ok: "resource_ok env held r (live_bytes (align_up env) live)" "live_ok (align_up env) live"
    using ai.client_safe [OF assms(5) arena_resource_new_ok [OF assms(1-4)]] by blast+
  note r = resource_okD [OF ok(1)]
  note g = global_okD [OF r(5)]
  show ?thesis using ok(2) r(4) g(3,4,6,7) by (auto simp: Int_commute)
qed

text \<open>C22. Whatever a client holds can be freed, by any thread: the call returns normally and afterwards exactly
  the freed bytes are no longer handed out. The only thing that can prevent it is undefined behaviour: the read of
  \<^verbatim>\<open>*end()\<close>, made only when the free set of the calling thread or that of the global arena is empty, that is not
  survived or yields a block ending where the returned one starts.\<close>

theorem arena_resource_frees:
  assumes "arena_resource_new env u initial_size max_size = Inr r0" and "upstream_laws env held"
    and "max_size \<le> size_max" and "upstream_blocks (r_global_arena r0) \<noteq> []"
    and "(client_step (try_allocate_by env) (do_deallocate_by env) (clean_thread_by env) (usable_size env))\<^sup>*\<^sup>*
           (r0, []) (r, live)"
    and "(p, n) \<in> set live"
  shows "case do_deallocate env t r p n of
      Inl e \<Rightarrow> undefined_error e \<and> stray_read env (the_arena r t) (r_global_arena r) \<lparr>bptr = p, bsize = align_up env n\<rparr>
    | Inr r' \<Rightarrow> resource_ok env held r' (live_bytes (align_up env) live - extent_bytes (align_up env) (p, n))"
proof -
  have ok: "resource_ok env held r (live_bytes (align_up env) live)" "live_ok (align_up env) live"
    using ai.client_safe [OF assms(5) arena_resource_new_ok [OF assms(1-4)]] by blast+
  have "0 < p" "0 < n" "n \<le> align_up env n" using ok(2) assms(6) by (auto simp: live_ok_def)
  moreover have "{p..<p + align_up env n} \<subseteq> live_bytes (align_up env) live"
    using assms(6) by (auto simp: live_bytes_def extent_bytes_def)
  ultimately show ?thesis
    using do_deallocate_ok [OF ok(1), of p n t] by (simp add: extent_bytes_def split: sum.splits)
qed

subsection \<open>A concrete run\<close>

definition bump_resource :: "nat arena_resource" where
  "bump_resource = \<lparr>r_global_arena = bump_arena, thread_arenas = []\<rparr>"

lemma bump_resource_new: "arena_resource_new bump_env 255 262144 1048576 = Inr bump_resource"
  by (simp add: arena_resource_new_def bump_arena_new bump_resource_def)

definition bump_resource1 :: "nat arena_resource" where
  "bump_resource1 = \<lparr>r_global_arena = bump_arena\<lparr>g_free_blocks := []\<rparr>,
     thread_arenas = [(1, \<lparr>free_blocks = [\<lparr>bptr = 512, bsize = 261888\<rparr>]\<rparr>)]\<rparr>"

lemma bump_run1: "try_allocate bump_env 1 bump_resource 100 = (Inr 256, bump_resource1)"
  by (simp add: try_allocate_def thread_allocate_def get_thread_arena_def bump_resource_def bump_resource1_def
      arena_allocate_def arena_get_block_def arena_expand_arena_def global_allocate_def global_get_block_def
      first_fit_def block_defs set_erase_def store_arena_def bump_arena_def bump_env_def align_up_def
      minimum_superblock_size_def Let_def coalesce_block_def)

lemma bump_reach1:
  "(client_step (try_allocate_by bump_env) (do_deallocate_by bump_env) (clean_thread_by bump_env)
     (usable_size bump_env))\<^sup>*\<^sup>* (bump_resource, []) (bump_resource1, [(256, 100)])"
proof (rule r_into_rtranclp, rule client_step.allocated)
  show "try_allocate_by bump_env (1, Some null_block, Some null_block) bump_resource 100 = (Inr 256, bump_resource1)"
    using bump_run1 by (simp add: try_allocate_by_def with_end_def bump_env_def)
qed (simp_all add: usable_size_def align_up_def bump_env_def)

theorem arena_resource_safe_witness:
  "arena_resource_new bump_env 255 262144 1048576 = Inr bump_resource
   \<and> try_allocate bump_env 1 bump_resource 100 = (Inr 256, bump_resource1)
   \<and> live_ok (align_up bump_env) [(256, 100)]
   \<and> (\<forall>t. live_bytes (align_up bump_env) [(256, 100)] \<inter> thread_bytes bump_resource1 t = {})"
  using arena_resource_safe [OF bump_resource_new bump_laws _ _ bump_reach1] bump_resource_new bump_run1
  by (simp add: bump_resource_def bump_arena_def size_max_def)

lemma bump_free: "isl (do_deallocate bump_env 2 bump_resource1 256 100) = False"
  by (simp add: do_deallocate_def get_thread_arena_def bump_resource1_def arena_deallocate_def shrink_arena_def
      coalesce_block_def block_defs align_up_def bump_env_def max_free_blocks_def minimum_superblock_size_def Let_def)

theorem arena_resource_frees_witness:
  "\<exists>r'. do_deallocate bump_env 2 bump_resource1 256 100 = Inr r'
     \<and> resource_ok bump_env (\<lambda>u. {..u}) r'
         (live_bytes (align_up bump_env) [(256, 100)] - extent_bytes (align_up bump_env) (256, 100))"
  using arena_resource_frees [OF bump_resource_new bump_laws _ _ bump_reach1, of 256 100 2] bump_free
  by (auto simp: bump_resource_def bump_arena_def size_max_def split: sum.splits)

end
