(* ===== verification/Service.thy ===== *)
theory Service
  imports Prelude "HOL-Library.Multiset"
begin

section \<open>Services\<close>

text \<open>
  \<^verbatim>\<open>src/internal/service.hpp\<close> and \<^verbatim>\<open>src/internal/service.cpp\<close>: the state machine behind segment
  instances, pipeline instances and the pipeline manager. The virtual hooks
  \<^verbatim>\<open>do_service_*\<close> are a record of functions on the state of the derived object; a hook that
  throws leaves that state as far as it got. The sections under the mutex are separate
  definitions, because hooks run outside the lock and calls from several threads interleave there.
\<close>

datatype service_state =
  Svc_Initialized | Svc_Running | Svc_Awaiting | Svc_Stopping | Svc_Killing | Svc_Completed

fun svc_rank :: "service_state \<Rightarrow> nat" where
  "svc_rank Svc_Initialized = 0"
| "svc_rank Svc_Running = 1"
| "svc_rank Svc_Awaiting = 2"
| "svc_rank Svc_Stopping = 3"
| "svc_rank Svc_Killing = 4"
| "svc_rank Svc_Completed = 5"

lemma svc_rank_inj: "svc_rank a = svc_rank b \<longleftrightarrow> a = b"
  by (cases a; cases b) auto

instantiation service_state :: linorder
begin

definition less_eq_service_state :: "service_state \<Rightarrow> service_state \<Rightarrow> bool" where
  "less_eq_service_state a b \<longleftrightarrow> svc_rank a \<le> svc_rank b"

definition less_service_state :: "service_state \<Rightarrow> service_state \<Rightarrow> bool" where
  "less_service_state a b \<longleftrightarrow> svc_rank a < svc_rank b"

instance
  by standard (auto simp: less_eq_service_state_def less_service_state_def svc_rank_inj)

end

lemmas svc_order = less_eq_service_state_def less_service_state_def

lemma svc_le_Completed [simp]: "st \<le> Svc_Completed"
  by (cases st) (auto simp: svc_order)

record 's service_hooks =
  do_service_start :: "'s \<Rightarrow> 's \<times> unit result"
  do_service_await_live :: "'s \<Rightarrow> 's \<times> unit result"
  do_service_stop :: "'s \<Rightarrow> 's \<times> unit result"
  do_service_kill :: "'s \<Rightarrow> 's \<times> unit result"
  do_service_await_join :: "'s \<Rightarrow> 's \<times> unit result"

record 's service =
  svc_state :: service_state
  svc_obj :: 's

subsection \<open>Sections under the mutex\<close>

definition forward_state :: "service_state \<Rightarrow> service_state \<Rightarrow> (service_state \<times> bool) result" where
  "forward_state new_state st =
     (if st \<le> new_state then Inr (if st < new_state then (new_state, True) else (st, False))
      else Inl (Check_failed ''invalid ServiceState requested; ServiceState is only allowed to advance''))"

definition stop_section :: "service_state \<Rightarrow> service_state \<times> bool" where
  "stop_section st = (if st < Svc_Stopping then (Svc_Stopping, True) else (st, False))"

definition kill_section :: "service_state \<Rightarrow> service_state \<times> bool" where
  "kill_section st = (if st < Svc_Killing then (Svc_Killing, True) else (st, False))"

definition join_section :: "service_state \<Rightarrow> service_state \<times> bool" where
  "join_section st = (if st < Svc_Completed then (Svc_Awaiting, True) else (st, False))"

subsection \<open>The calls\<close>

definition run_hook :: "('s \<Rightarrow> 's \<times> unit result) \<Rightarrow> 's service \<Rightarrow> 's service \<times> unit result" where
  "run_hook f s = (let (x, r) = f (svc_obj s) in (s\<lparr>svc_obj := x\<rparr>, r))"

definition service_start :: "'s service_hooks \<Rightarrow> 's service \<Rightarrow> 's service \<times> unit result" where
  "service_start h s =
     (case forward_state Svc_Running (svc_state s) of
        Inl e \<Rightarrow> (s, Inl e)
      | Inr (st, advanced) \<Rightarrow>
          (let s = s\<lparr>svc_state := st\<rparr>
           in if advanced then run_hook (do_service_start h) s else (s, Inr ())))"

definition service_await_live :: "'s service_hooks \<Rightarrow> 's service \<Rightarrow> 's service \<times> unit result" where
  "service_await_live h s = run_hook (do_service_await_live h) s"

definition service_stop :: "'s service_hooks \<Rightarrow> 's service \<Rightarrow> 's service \<times> unit result" where
  "service_stop h s =
     (let (st, execute) = stop_section (svc_state s); s = s\<lparr>svc_state := st\<rparr>
      in if execute then run_hook (do_service_stop h) s else (s, Inr ()))"

definition service_kill :: "'s service_hooks \<Rightarrow> 's service \<Rightarrow> 's service \<times> unit result" where
  "service_kill h s =
     (let (st, execute) = kill_section (svc_state s); s = s\<lparr>svc_state := st\<rparr>
      in if execute then run_hook (do_service_kill h) s else (s, Inr ()))"

definition service_await_join :: "'s service_hooks \<Rightarrow> 's service \<Rightarrow> 's service \<times> unit result" where
  "service_await_join h s =
     (let (st, execute) = join_section (svc_state s); s = s\<lparr>svc_state := st\<rparr>
      in if execute
         then (case run_hook (do_service_await_join h) s of
                 (s, Inl e) \<Rightarrow> (s, Inl e)
               | (s, Inr _) \<Rightarrow>
                   (case forward_state Svc_Completed (svc_state s) of
                      Inl e \<Rightarrow> (s, Inl e)
                    | Inr (st, _) \<Rightarrow> (s\<lparr>svc_state := st\<rparr>, Inr ())))
         else (s, Inr ()))"

definition call_in_destructor :: "'s service_hooks \<Rightarrow> 's service \<Rightarrow> 's service \<times> unit result" where
  "call_in_destructor h s =
     (let state = svc_state s
      in if state > Svc_Initialized
         then (case (if state = Svc_Running then service_kill h s else (s, Inr ())) of
                 (s, Inl e) \<Rightarrow> (s, Inl e)
               | (s, Inr _) \<Rightarrow> if state \<noteq> Svc_Completed then service_await_join h s else (s, Inr ()))
         else (s, Inr ()))"

text \<open>The check in \<^verbatim>\<open>~Service\<close>.\<close>

definition service_destroy :: "'s service \<Rightarrow> unit result" where
  "service_destroy s =
     (if svc_state s = Svc_Initialized \<or> svc_state s = Svc_Completed then Inr ()
      else Inl (Check_failed ''state == ServiceState::Initialized || state == ServiceState::Completed''))"

definition service_new :: "'s \<Rightarrow> 's service" where
  "service_new x = \<lparr>svc_state = Svc_Initialized, svc_obj = x\<rparr>"

lemmas service_defs = service_start_def service_await_live_def service_stop_def service_kill_def
  service_await_join_def forward_state_def stop_section_def kill_section_def join_section_def
  run_hook_def

subsection \<open>What a derived class has to provide\<close>

text \<open>\<open>inv\<close> is an invariant of the derived object that every hook keeps, whether it returns or
  throws.\<close>

locale service_impl =
  fixes h :: "'s service_hooks" and inv :: "'s \<Rightarrow> bool"
  assumes start_keeps: "inv x \<Longrightarrow> inv (fst (do_service_start h x))"
    and live_keeps: "inv x \<Longrightarrow> inv (fst (do_service_await_live h x))"
    and stop_keeps: "inv x \<Longrightarrow> inv (fst (do_service_stop h x))"
    and kill_keeps: "inv x \<Longrightarrow> inv (fst (do_service_kill h x))"
    and join_keeps: "inv x \<Longrightarrow> inv (fst (do_service_await_join h x))"
begin

lemma service_start_keeps: "inv (svc_obj s) \<Longrightarrow> inv (svc_obj (fst (service_start h s)))"
  using start_keeps by (auto simp: service_defs Let_def split_beta split: sum.splits if_splits)

lemma service_await_live_keeps: "inv (svc_obj s) \<Longrightarrow> inv (svc_obj (fst (service_await_live h s)))"
  using live_keeps by (auto simp: service_defs split_beta)

lemma service_stop_keeps: "inv (svc_obj s) \<Longrightarrow> inv (svc_obj (fst (service_stop h s)))"
  using stop_keeps by (auto simp: service_defs Let_def split_beta)

lemma service_kill_keeps: "inv (svc_obj s) \<Longrightarrow> inv (svc_obj (fst (service_kill h s)))"
  using kill_keeps by (auto simp: service_defs Let_def split_beta)

lemma service_await_join_keeps: "inv (svc_obj s) \<Longrightarrow> inv (svc_obj (fst (service_await_join h s)))"
  using join_keeps by (auto simp: service_defs Let_def split_beta split: sum.splits prod.splits)

lemma call_in_destructor_keeps: "inv (svc_obj s) \<Longrightarrow> inv (svc_obj (fst (call_in_destructor h s)))"
  using service_kill_keeps [of s] service_await_join_keeps
  by (auto simp: call_in_destructor_def Let_def split_beta split: sum.splits if_splits)

end

text \<open>The states the calls lead to, whatever the hooks do.\<close>

lemma svc_state_run_hook [simp]: "svc_state (fst (run_hook f s)) = svc_state s"
  by (simp add: run_hook_def split_beta)

lemma service_start_state:
  "svc_state s \<le> Svc_Running \<Longrightarrow> svc_state (fst (service_start h s)) = Svc_Running"
  by (auto simp: service_start_def forward_state_def Let_def)

lemma service_start_again:
  "Svc_Running < svc_state s \<Longrightarrow> \<exists>m. service_start h s = (s, Inl (Check_failed m))"
  by (auto simp: service_start_def forward_state_def)

lemma service_stop_state: "svc_state (fst (service_stop h s)) = max Svc_Stopping (svc_state s)"
  by (auto simp: service_stop_def stop_section_def Let_def max_def)

lemma service_kill_state: "svc_state (fst (service_kill h s)) = max Svc_Killing (svc_state s)"
  by (auto simp: service_kill_def kill_section_def Let_def max_def)

lemma service_await_join_state:
  "svc_state (fst (service_await_join h s)) =
     (if snd (service_await_join h s) = Inr () then Svc_Completed else Svc_Awaiting)"
proof (cases "svc_state s = Svc_Completed")
  case True
  then show ?thesis by (simp add: service_await_join_def join_section_def)
next
  case False
  then have "svc_state s < Svc_Completed" using svc_le_Completed [of "svc_state s"] by order
  moreover obtain s' r where "run_hook (do_service_await_join h) (s\<lparr>svc_state := Svc_Awaiting\<rparr>) = (s', r)" by fastforce
  moreover from this have "svc_state s' = Svc_Awaiting"
    using svc_state_run_hook [of "do_service_await_join h" "s\<lparr>svc_state := Svc_Awaiting\<rparr>"] by simp
  ultimately show ?thesis
    by (cases r) (simp_all add: service_await_join_def join_section_def forward_state_def svc_order)
qed

subsection \<open>Interleaved calls\<close>

text \<open>Calls from several threads. A call decides under the mutex whether it is to run its hook, releases the mutex, and
  runs the hook: \<open>Claim\<close>, \<open>Enter\<close> and \<open>Leave\<close> are the three moments. Between them other threads take steps. A
  configuration is the state and the calls under way: \<open>Due h\<close> has released the mutex and not yet entered its hook, \<open>In h\<close>
  is inside it, \<open>Forwarding\<close> is a join whose hook has returned and which has not yet called \<open>forward_state\<close>. A call whose
  \<^verbatim>\<open>CHECK\<close> fails aborts the process: there is no step for it.\<close>

datatype svc_hook = Start_hook | Stop_hook | Kill_hook | Join_hook

datatype svc_event = Claim svc_hook | Enter svc_hook | Leave svc_hook

datatype svc_call = Due svc_hook | In svc_hook | Forwarding

type_synonym svc_config = "service_state \<times> svc_call multiset"

definition claim_if :: "bool \<Rightarrow> svc_hook \<Rightarrow> svc_event list" where
  "claim_if execute h = (if execute then [Claim h] else [])"

definition due_if :: "bool \<Rightarrow> svc_hook \<Rightarrow> svc_call multiset \<Rightarrow> svc_call multiset" where
  "due_if execute h calls = (if execute then add_mset (Due h) calls else calls)"

inductive svc_step :: "svc_config \<Rightarrow> svc_event list \<Rightarrow> svc_config \<Rightarrow> bool" where
  start: "forward_state Svc_Running st = Inr (st', ex) \<Longrightarrow>
     svc_step (st, C) (claim_if ex Start_hook) (st', due_if ex Start_hook C)"
| stop: "stop_section st = (st', ex) \<Longrightarrow> svc_step (st, C) (claim_if ex Stop_hook) (st', due_if ex Stop_hook C)"
| kill: "kill_section st = (st', ex) \<Longrightarrow> svc_step (st, C) (claim_if ex Kill_hook) (st', due_if ex Kill_hook C)"
| join: "join_section st = (st', ex) \<Longrightarrow> svc_step (st, C) (claim_if ex Join_hook) (st', due_if ex Join_hook C)"
| enter: "svc_step (st, add_mset (Due h) C) [Enter h] (st, add_mset (In h) C)"
| returned: "svc_step (st, add_mset (In h) C) [Leave h] (st, if h = Join_hook then add_mset Forwarding C else C)"
| threw: "svc_step (st, add_mset (In h) C) [Leave h] (st, C)"
| forwarded: "forward_state Svc_Completed st = Inr (st', ex) \<Longrightarrow> svc_step (st, add_mset Forwarding C) [] (st', C)"

inductive svc_run :: "svc_config \<Rightarrow> svc_event list \<Rightarrow> svc_config \<Rightarrow> bool" where
  nil: "svc_run c [] c"
| snoc: "svc_run c es c' \<Longrightarrow> svc_step c' fs c'' \<Longrightarrow> svc_run c (es @ fs) c''"

fun claims :: "svc_event list \<Rightarrow> svc_hook list" where
  "claims [] = []"
| "claims (Claim h # es) = h # claims es"
| "claims (_ # es) = claims es"

lemma claims_append [simp]: "claims (es @ fs) = claims es @ claims fs"
  by (induction es rule: claims.induct) auto

text \<open>What one step can do: it claims at most one hook, and only in a state below the hook's target.\<close>

lemma svc_step_cases:
  assumes "svc_step (st, C) es (st', C')"
  obtains (quiet) "claims es = []" "st' = st \<or> st' = Svc_Completed"
  | (start) "claims es = [Start_hook]" "st = Svc_Initialized" "st' = Svc_Running"
  | (stop) "claims es = [Stop_hook]" "st < Svc_Stopping" "st' = Svc_Stopping"
  | (kill) "claims es = [Kill_hook]" "st < Svc_Killing" "st' = Svc_Killing"
  | (join) "claims es = [Join_hook]" "st < Svc_Completed" "st' = Svc_Awaiting"
  using assms
proof (induction "(st, C)" es "(st', C')" rule: svc_step.induct)
  case (start ex)
  then show ?case by (cases st) (auto simp: forward_state_def claim_if_def svc_order split: if_splits)
next
  case (stop ex)
  then show ?case by (auto simp: stop_section_def claim_if_def split: if_splits)
next
  case (kill ex)
  then show ?case by (auto simp: kill_section_def claim_if_def split: if_splits)
next
  case (join ex)
  then show ?case by (auto simp: join_section_def claim_if_def split: if_splits)
next
  case (forwarded ex)
  then show ?case by (auto simp: forward_state_def split: if_splits)
qed simp_all

text \<open>The start hook is claimed at most once and before every other hook.\<close>

lemma svc_run_start_first:
  assumes "svc_run (Svc_Initialized, C0) es (st, C)"
  shows "Start_hook \<notin> set (tl (claims es)) \<and> (claims es \<noteq> [] \<longrightarrow> Svc_Initialized < st)"
  using assms
proof (induction "(Svc_Initialized, C0)" es "(st, C)" arbitrary: st C rule: svc_run.induct)
  case nil
  then show ?case by simp
next
  case (snoc es c' fs)
  obtain st1 C1 where c': "c' = (st1, C1)" by (cases c')
  have IH: "Start_hook \<notin> set (tl (claims es))" "claims es \<noteq> [] \<longrightarrow> Svc_Initialized < st1" using snoc(2) c' by blast+
  from snoc(3) [unfolded c'] show ?case
    by (cases rule: svc_step_cases) (use IH in \<open>cases "claims es"; auto simp: svc_order\<close>)+
qed

text \<open>Until somebody joins, hooks are claimed in the order start, stop, kill, each at most once.\<close>

fun hook_target :: "svc_hook \<Rightarrow> service_state" where
  "hook_target Start_hook = Svc_Running"
| "hook_target Stop_hook = Svc_Stopping"
| "hook_target Kill_hook = Svc_Killing"
| "hook_target Join_hook = Svc_Awaiting"

lemma svc_run_in_order:
  assumes "svc_run (Svc_Initialized, C0) es (st, C)" and "Join_hook \<notin> set (claims es)"
  shows "sorted_wrt (<) (map hook_target (claims es)) \<and> (\<forall>h \<in> set (claims es). hook_target h \<le> st)"
  using assms
proof (induction "(Svc_Initialized, C0)" es "(st, C)" arbitrary: st C rule: svc_run.induct)
  case nil
  then show ?case by simp
next
  case (snoc es c' fs)
  obtain st1 C1 where c': "c' = (st1, C1)" by (cases c')
  have IH: "sorted_wrt (<) (map hook_target (claims es))" "\<forall>h \<in> set (claims es). hook_target h \<le> st1"
    using snoc(2) [OF c'] snoc.prems by auto
  have hs: "\<forall>h \<in> set (claims es). hook_target h \<le> st'" if "st1 \<le> st'" for st' using IH(2) that by fastforce
  from snoc(3) [unfolded c'] show ?case
  proof (cases rule: svc_step_cases)
    case quiet
    then show ?thesis using IH by auto
  next
    case start
    then show ?thesis using IH hs [of st] by (fastforce simp: sorted_wrt_append svc_order)
  next
    case stop
    then show ?thesis using IH hs [of st] by (fastforce simp: sorted_wrt_append)
  next
    case kill
    then show ?thesis using IH hs [of st] by (fastforce simp: sorted_wrt_append)
  next
    case join
    then show ?thesis using snoc.prems by simp
  qed
qed

text \<open>Each join can let the stop and the kill hook be claimed once more.\<close>

lemma svc_run_repeats:
  assumes "svc_run (Svc_Initialized, C0) es (st, C)"
  shows "count_list (claims es) Kill_hook \<le> count_list (claims es) Join_hook + (if Svc_Killing \<le> st then 1 else 0)
     \<and> count_list (claims es) Stop_hook \<le> count_list (claims es) Join_hook + (if Svc_Stopping \<le> st then 1 else 0)"
  using assms
proof (induction "(Svc_Initialized, C0)" es "(st, C)" arbitrary: st C rule: svc_run.induct)
  case nil
  then show ?case by simp
next
  case (snoc es c' fs)
  obtain st1 C1 where c': "c' = (st1, C1)" by (cases c')
  note IH = snoc(2) [OF c']
  from snoc(3) [unfolded c'] show ?case
    by (cases rule: svc_step_cases) (use IH in \<open>cases st1; auto simp: svc_order\<close>)+
qed

text \<open>A completed service claims nothing any more.\<close>

lemma svc_completed_final:
  "svc_run (Svc_Completed, C) es (st, C') \<Longrightarrow> claims es = [] \<and> st = Svc_Completed"
proof (induction "(Svc_Completed, C)" es "(st, C')" arbitrary: st C' rule: svc_run.induct)
  case nil
  then show ?case by simp
next
  case (snoc es c' fs)
  obtain st1 C1 where c': "c' = (st1, C1)" by (cases c')
  note IH = snoc(2) [OF c']
  from snoc(3) [unfolded c'] show ?case
    by (cases rule: svc_step_cases) (use IH in \<open>auto simp: svc_order\<close>)+
qed

text \<open>Every claim is entered once or still due, every hook that was entered has been left or is still running.\<close>

lemma svc_step_count:
  "svc_step (st, C) es (st', C') \<Longrightarrow>
   count_list es (Enter h) + count C' (Due h) = count_list es (Claim h) + count C (Due h)
   \<and> count_list es (Leave h) + count C' (In h) = count_list es (Enter h) + count C (In h)"
  by (induction "(st, C)" es "(st', C')" rule: svc_step.induct) (auto simp: claim_if_def due_if_def)

lemma svc_run_count:
  assumes "svc_run (st0, C0) es (st, C)"
  shows "count_list es (Enter h) + count C (Due h) = count_list es (Claim h) + count C0 (Due h)
   \<and> count_list es (Leave h) + count C (In h) = count_list es (Enter h) + count C0 (In h)"
  using assms
proof (induction "(st0, C0)" es "(st, C)" arbitrary: st C rule: svc_run.induct)
  case nil
  then show ?case by simp
next
  case (snoc es c' fs)
  obtain st1 C1 where c': "c' = (st1, C1)" by (cases c')
  show ?case using snoc(2) [OF c'] svc_step_count [OF snoc(3) [unfolded c'], of h] by simp
qed

lemma count_claims: "count_list (claims es) h = count_list es (Claim h)"
  by (induction es rule: claims.induct) auto

subsection \<open>Properties\<close>

text \<open>C3. Any interleaving of calls on a new service. Of the hooks the calls decide on under the mutex, start is decided on at
  most once and before every other; until the first join they are start, stop, kill in this order, each at most once; with
  joins, stop and kill are each decided on at most once more than join. The hooks themselves run after the mutex is
  released: a hook is entered at most as often as it was decided on, and those not yet entered are exactly the due ones.
  Once the service has completed, nothing more is decided, so only hooks that were due at that moment are still entered.\<close>

theorem service_hook_order:
  assumes "svc_run (Svc_Initialized, {#}) es (st, C)"
  shows "Start_hook \<notin> set (tl (claims es))
     \<and> (Join_hook \<notin> set (claims es) \<longrightarrow> sorted_wrt (<) (map hook_target (claims es)))
     \<and> count_list (claims es) Stop_hook \<le> Suc (count_list (claims es) Join_hook)
     \<and> count_list (claims es) Kill_hook \<le> Suc (count_list (claims es) Join_hook)
     \<and> (\<forall>h. count_list es (Enter h) + count C (Due h) = count_list (claims es) h)
     \<and> (\<forall>es' st' C' h. st = Svc_Completed \<longrightarrow> svc_run (st, C) es' (st', C') \<longrightarrow>
          claims es' = [] \<and> st' = Svc_Completed \<and> count_list es' (Enter h) \<le> count C (Due h))"
proof (intro conjI allI impI)
  fix es' st' C' h
  assume "st = Svc_Completed" and run: "svc_run (st, C) es' (st', C')"
  then have c: "claims es' = []" "st' = Svc_Completed" using svc_completed_final by blast+
  then show "claims es' = []" "st' = Svc_Completed" by blast+
  show "count_list es' (Enter h) \<le> count C (Due h)"
    using svc_run_count [OF run, of h] c(1) count_claims [of es' h] by simp
qed (use svc_run_start_first [OF assms] svc_run_in_order [OF assms] svc_run_repeats [OF assms]
    svc_run_count [OF assms] in \<open>auto simp: count_claims split: if_splits\<close>)

text \<open>A claim followed by its hook, from start to end.\<close>

lemma svc_run_snoc3:
  assumes "svc_run c es c1" and "svc_step c1 [Claim h] c2" and "svc_step c2 [Enter h] c3" and "svc_step c3 [Leave h] c4"
  shows "svc_run c (es @ [Claim h, Enter h, Leave h]) c4"
  using svc_run.snoc [OF svc_run.snoc [OF svc_run.snoc [OF assms(1,2)] assms(3)] assms(4)] by simp

lemma svc_run_stop:
  assumes "svc_run c es (st, C)" and "st < Svc_Stopping"
  shows "svc_run c (es @ [Claim Stop_hook, Enter Stop_hook, Leave Stop_hook]) (Svc_Stopping, C)"
  using svc_step.stop [of st Svc_Stopping True C] assms
  by (intro svc_run_snoc3 [OF assms(1) _ svc_step.enter svc_step.threw])
    (simp add: stop_section_def claim_if_def due_if_def)

lemma svc_run_kill:
  assumes "svc_run c es (st, C)" and "st < Svc_Killing"
  shows "svc_run c (es @ [Claim Kill_hook, Enter Kill_hook, Leave Kill_hook]) (Svc_Killing, C)"
  using svc_step.kill [of st Svc_Killing True C] assms
  by (intro svc_run_snoc3 [OF assms(1) _ svc_step.enter svc_step.threw])
    (simp add: kill_section_def claim_if_def due_if_def)

lemma svc_run_join:
  assumes "svc_run c es (st, C)" and "st < Svc_Completed"
  shows "svc_run c (es @ [Claim Join_hook, Enter Join_hook]) (Svc_Awaiting, add_mset (In Join_hook) C)"
proof -
  have "svc_step (st, C) [Claim Join_hook] (Svc_Awaiting, add_mset (Due Join_hook) C)"
    using svc_step.join [of st Svc_Awaiting True C] assms(2) by (simp add: join_section_def claim_if_def due_if_def)
  from svc_run.snoc [OF svc_run.snoc [OF assms(1) this] svc_step.enter] show ?thesis by simp
qed

text \<open>One round: a join, and while its hook runs, a stop and a kill.\<close>

lemma svc_run_round:
  assumes "svc_run c es (st, C)" and "st < Svc_Completed"
  shows "svc_run c (es @ [Claim Join_hook, Enter Join_hook] @ [Claim Stop_hook, Enter Stop_hook, Leave Stop_hook]
      @ [Claim Kill_hook, Enter Kill_hook, Leave Kill_hook]) (Svc_Killing, add_mset (In Join_hook) C)"
  using svc_run_kill [OF svc_run_stop [OF svc_run_join [OF assms]]] by (simp add: svc_order)

lemma svc_run_started:
  "svc_run (Svc_Initialized, {#}) ([Claim Start_hook, Enter Start_hook, Leave Start_hook]
     @ [Claim Stop_hook, Enter Stop_hook, Leave Stop_hook] @ [Claim Kill_hook, Enter Kill_hook, Leave Kill_hook])
     (Svc_Killing, {#})"
proof -
  have "svc_step (Svc_Initialized, {#}) [Claim Start_hook] (Svc_Running, {#Due Start_hook#})"
    using svc_step.start [of Svc_Initialized Svc_Running True "{#}"]
    by (simp add: forward_state_def claim_if_def due_if_def svc_order)
  from svc_run_snoc3 [OF svc_run.nil this svc_step.enter svc_step.threw]
  have "svc_run (Svc_Initialized, {#}) [Claim Start_hook, Enter Start_hook, Leave Start_hook] (Svc_Running, {#})"
    by simp
  from svc_run_kill [OF svc_run_stop [OF this]] show ?thesis by (simp add: svc_order)
qed

text \<open>C28. Awaiting moves the state back: a join puts a service that is stopping or killed into \<open>Awaiting\<close>, from where stop and
  kill are decided on again. So the bounds on repeated hooks are reached: for every number \<open>k\<close> there is a run of a new
  service, started once and joined \<open>k\<close> times, in which the stop hook and the kill hook are each entered \<open>k + 1\<close> times.\<close>

theorem service_join_rewinds:
  "\<exists>es C. svc_run (Svc_Initialized, {#}) es (Svc_Killing, C)
     \<and> count_list es (Enter Start_hook) = 1 \<and> count_list es (Enter Join_hook) = k
     \<and> count_list es (Enter Stop_hook) = Suc k \<and> count_list es (Enter Kill_hook) = Suc k"
proof (induction k)
  case 0
  show ?case by (intro exI conjI, rule svc_run_started) simp_all
next
  case (Suc k)
  then obtain es C where run: "svc_run (Svc_Initialized, {#}) es (Svc_Killing, C)"
    and n: "count_list es (Enter Start_hook) = 1" "count_list es (Enter Join_hook) = k"
      "count_list es (Enter Stop_hook) = Suc k" "count_list es (Enter Kill_hook) = Suc k" by blast
  have "Svc_Killing < Svc_Completed" by (simp add: svc_order)
  from svc_run_round [OF run this] show ?case by (intro exI conjI, assumption) (simp_all add: n)
qed

text \<open>The hooks need not run in the order in which they are decided on: a stop hook can come before the start hook.\<close>

lemma svc_stop_before_start:
  "\<exists>es C. svc_run (Svc_Initialized, {#}) (es @ [Enter Stop_hook]) C \<and> Enter Start_hook \<notin> set es
     \<and> claims es = [Start_hook, Stop_hook]"
proof -
  have "svc_step (Svc_Initialized, {#}) [Claim Start_hook] (Svc_Running, {#Due Start_hook#})"
    using svc_step.start [of Svc_Initialized Svc_Running True "{#}"]
    by (simp add: forward_state_def claim_if_def due_if_def svc_order)
  moreover have "svc_step (Svc_Running, {#Due Start_hook#}) [Claim Stop_hook]
      (Svc_Stopping, add_mset (Due Stop_hook) {#Due Start_hook#})"
    using svc_step.stop [of Svc_Running Svc_Stopping True "{#Due Start_hook#}"]
    by (simp add: stop_section_def claim_if_def due_if_def svc_order)
  ultimately have "svc_run (Svc_Initialized, {#}) (([] @ [Claim Start_hook]) @ [Claim Stop_hook])
      (Svc_Stopping, add_mset (Due Stop_hook) {#Due Start_hook#})"
    by (intro svc_run.snoc [OF svc_run.snoc [OF svc_run.nil]])
  from svc_run.snoc [OF this svc_step.enter]
  have "svc_run (Svc_Initialized, {#}) ([Claim Start_hook, Claim Stop_hook] @ [Enter Stop_hook])
      (Svc_Stopping, add_mset (In Stop_hook) {#Due Start_hook#})" by simp
  then show ?thesis by (intro exI [of _ "[Claim Start_hook, Claim Stop_hook]"] exI conjI) simp_all
qed

text \<open>C27. A derived class that calls \<open>call_in_destructor\<close> passes the check of \<^verbatim>\<open>~Service\<close>, from every
  state, unless one of its hooks throws: a running service is killed and joined, one that is being
  stopped or killed is joined, and the state ends as \<open>Initialized\<close> or \<open>Completed\<close>.\<close>

theorem service_destructor_safe:
  assumes "snd (call_in_destructor h s) = Inr ()"
  shows "service_destroy (fst (call_in_destructor h s)) = Inr ()"
proof (cases "svc_state s = Svc_Initialized \<or> svc_state s = Svc_Completed")
  case True
  then show ?thesis by (auto simp: call_in_destructor_def service_destroy_def svc_order)
next
  case False
  then have gt: "Svc_Initialized < svc_state s" by (cases "svc_state s") (auto simp: svc_order)
  obtain s1 r1 where k: "(if svc_state s = Svc_Running then service_kill h s else (s, Inr ())) = (s1, r1)"
    by (metis surj_pair)
  have "r1 = Inr ()" "call_in_destructor h s = service_await_join h s1"
    using assms False gt k by (cases r1; auto simp: call_in_destructor_def Let_def)+
  then show ?thesis
    using assms service_await_join_state [of h s1] by (simp add: service_destroy_def)
qed

theorem service_hook_order_witness:
  "let es = [Claim Start_hook, Enter Start_hook, Leave Start_hook] @ [Claim Stop_hook, Enter Stop_hook, Leave Stop_hook]
       @ [Claim Kill_hook, Enter Kill_hook, Leave Kill_hook]
   in svc_run (Svc_Initialized, {#}) es (Svc_Killing, {#}) \<and> claims es = [Start_hook, Stop_hook, Kill_hook]
      \<and> sorted_wrt (<) (map hook_target (claims es)) \<and> (\<forall>h. count_list es (Enter h) = count_list (claims es) h)"
  using service_hook_order [OF svc_run_started] svc_run_started by (simp add: Let_def)

definition idle_hooks :: "nat service_hooks" where
  "idle_hooks = (let f = (\<lambda>n. (Suc n, Inr ()))
     in \<lparr>do_service_start = f, do_service_await_live = f, do_service_stop = f, do_service_kill = f,
         do_service_await_join = f\<rparr>)"

theorem service_destructor_safe_witness:
  "snd (call_in_destructor idle_hooks \<lparr>svc_state = Svc_Running, svc_obj = 0\<rparr>) = Inr ()
   \<and> service_destroy (fst (call_in_destructor idle_hooks \<lparr>svc_state = Svc_Running, svc_obj = 0\<rparr>)) = Inr ()"
proof -
  have "snd (call_in_destructor idle_hooks \<lparr>svc_state = Svc_Running, svc_obj = 0\<rparr>) = Inr ()"
    by (simp add: call_in_destructor_def service_defs idle_hooks_def svc_order Let_def)
  with service_destructor_safe [OF this] show ?thesis by blast
qed

end
