(* ===== verification/Runner.thy ===== *)
theory Runner
  imports Prelude
begin

section \<open>Runnables, contexts and runners\<close>

text \<open>
  \<^verbatim>\<open>include/srf/runnable/runner.hpp\<close>, \<^verbatim>\<open>src/public/runnable/runner.cpp\<close>,
  \<^verbatim>\<open>context.cpp\<close>, \<^verbatim>\<open>runnable.cpp\<close> and \<^verbatim>\<open>launcher.cpp\<close>. A runner launches one task per
  context on its engines. The tasks run concurrently: \<open>task_step\<close> is the next atomic action of one
  task and \<open>runner_step\<close> lets any task take it. The read and the write of \<open>m_status\<close> are
  separate actions, as they are in \<^verbatim>\<open>m_status = m_status && context->status()\<close>. What the
  \<open>main\<close> of the runnable does is the parameter \<open>outcome\<close>.
\<close>

datatype runnable_state = Rb_Init | Rb_Owned | Rb_Run | Rb_Stop | Rb_Kill

fun rb_rank :: "runnable_state \<Rightarrow> nat" where
  "rb_rank Rb_Init = 0"
| "rb_rank Rb_Owned = 1"
| "rb_rank Rb_Run = 2"
| "rb_rank Rb_Stop = 3"
| "rb_rank Rb_Kill = 4"

lemma rb_rank_inj: "rb_rank a = rb_rank b \<longleftrightarrow> a = b"
  by (cases a; cases b) auto

instantiation runnable_state :: linorder
begin

definition less_eq_runnable_state :: "runnable_state \<Rightarrow> runnable_state \<Rightarrow> bool" where
  "less_eq_runnable_state a b \<longleftrightarrow> rb_rank a \<le> rb_rank b"

definition less_runnable_state :: "runnable_state \<Rightarrow> runnable_state \<Rightarrow> bool" where
  "less_runnable_state a b \<longleftrightarrow> rb_rank a < rb_rank b"

instance
  by standard (auto simp: less_eq_runnable_state_def less_runnable_state_def rb_rank_inj)

end

lemmas rb_order = less_eq_runnable_state_def less_runnable_state_def

datatype runner_state = Rn_Unqueued | Rn_Queued | Rn_Running | Rn_Error | Rn_Completed

fun rn_rank :: "runner_state \<Rightarrow> nat" where
  "rn_rank Rn_Unqueued = 0"
| "rn_rank Rn_Queued = 1"
| "rn_rank Rn_Running = 2"
| "rn_rank Rn_Error = 3"
| "rn_rank Rn_Completed = 4"

lemma rn_rank_inj: "rn_rank a = rn_rank b \<longleftrightarrow> a = b"
  by (cases a; cases b) auto

instantiation runner_state :: linorder
begin

definition less_eq_runner_state :: "runner_state \<Rightarrow> runner_state \<Rightarrow> bool" where
  "less_eq_runner_state a b \<longleftrightarrow> rn_rank a \<le> rn_rank b"

definition less_runner_state :: "runner_state \<Rightarrow> runner_state \<Rightarrow> bool" where
  "less_runner_state a b \<longleftrightarrow> rn_rank a < rn_rank b"

instance
  by standard (auto simp: less_eq_runner_state_def less_runner_state_def rn_rank_inj)

end

lemmas rn_order = less_eq_runner_state_def less_runner_state_def

definition runnable_state_str :: "runner_state \<Rightarrow> string" where
  "runnable_state_str st =
     (case st of
        Rn_Unqueued \<Rightarrow> ''Runner::State::Unqueued''
      | Rn_Queued \<Rightarrow> ''Runner::State::Queued''
      | Rn_Running \<Rightarrow> ''Runner::State::Running''
      | Rn_Error \<Rightarrow> ''Runner::State::Error''
      | Rn_Completed \<Rightarrow> ''Runner::State::Completed'')"

text \<open>\<open>Runnable::update_state\<close>: states only advance.\<close>

definition runnable_update_state :: "runnable_state \<Rightarrow> runnable_state \<Rightarrow> runnable_state" where
  "runnable_update_state new_state st = (if st < new_state then new_state else st)"

lemma runnable_update_state_max: "runnable_update_state n st = max st n"
  by (auto simp: runnable_update_state_def max_def)

subsection \<open>Contexts\<close>

text \<open>An exception is a number; the flag says whether it derives from \<^verbatim>\<open>std::exception\<close>.\<close>

datatype exn = Std_exn nat | Other_exn nat

fun exn_error :: "exn \<Rightarrow> srf_error" where
  "exn_error (Std_exn n) = User_exception n"
| "exn_error (Other_exn n) = User_exception n"

record run_context =
  ctx_rank :: nat
  ctx_size :: nat
  exception_ptr :: "exn option"

definition context_new :: "nat \<Rightarrow> nat \<Rightarrow> run_context" where
  "context_new rank size' = \<lparr>ctx_rank = rank, ctx_size = size', exception_ptr = None\<rparr>"

definition context_status :: "run_context \<Rightarrow> bool" where
  "context_status c \<longleftrightarrow> exception_ptr c = None"

definition context_finish :: "run_context \<Rightarrow> unit result" where
  "context_finish c = (case exception_ptr c of None \<Rightarrow> Inr () | Some e \<Rightarrow> Inl (exn_error e))"

text \<open>\<open>set_exception\<close> keeps the first exception and kills the runnable. It catches only
  \<^verbatim>\<open>std::exception\<close>; anything else leaves the call again as an exception.\<close>

definition set_exception :: "exn \<Rightarrow> run_context \<times> runnable_state \<Rightarrow> (run_context \<times> runnable_state) result" where
  "set_exception e = (\<lambda>(c, rb).
     case e of
       Std_exn n \<Rightarrow>
         Inr (if exception_ptr c = None
              then (c\<lparr>exception_ptr := Some (Std_exn n)\<rparr>, runnable_update_state Rb_Kill rb)
              else (c, rb))
     | Other_exn n \<Rightarrow> Inl (exn_error e))"

subsection \<open>Runners\<close>

datatype phase = Ph_init | Ph_main | Ph_end | Ph_load | Ph_store bool | Ph_decrement | Ph_finish | Ph_done | Ph_threw

record inst =
  uid :: nat
  inst_state :: runner_state
  live_set :: bool
  inst_context :: run_context
  join_value :: "unit result option"
  inst_phase :: phase

record runner =
  instances :: "inst list"
  m_status :: bool
  remaining_instances :: nat
  has_callback :: bool
  callback_calls :: "bool list"
  runnable :: runnable_state
  can_run :: bool

definition runner_new :: runner where
  "runner_new = \<lparr>instances = [], m_status = True, remaining_instances = 0, has_callback = False,
     callback_calls = [], runnable = runnable_update_state Rb_Owned Rb_Init, can_run = True\<rparr>"

definition on_completion_callback :: "runner \<Rightarrow> runner result" where
  "on_completion_callback r =
     (if has_callback r then Inl (Check_failed ''m_completion_callback == nullptr'')
      else Inr (r\<lparr>has_callback := True\<rparr>))"

definition runner_update_state :: "nat \<Rightarrow> runner_state \<Rightarrow> runner \<Rightarrow> runner result" where
  "runner_update_state launcher_id new_state r =
     (if \<not> launcher_id < length (instances r) then Inl (Check_failed ''launcher_id < m_instances.size()'')
      else
        (let x = instances r ! launcher_id
         in if inst_state x < new_state
            then Inr (r\<lparr>instances := (instances r)[launcher_id := x\<lparr>inst_state := new_state\<rparr>]\<rparr>)
            else Inl (Check_failed ''Runner::State failed to advance in the proper order'')))"

definition runner_stop :: "runner \<Rightarrow> runner" where
  "runner_stop r = r\<lparr>runnable := runnable_update_state Rb_Stop (runnable r)\<rparr>"

definition runner_kill :: "runner \<Rightarrow> runner" where
  "runner_kill r = r\<lparr>runnable := runnable_update_state Rb_Kill (runnable r)\<rparr>"

text \<open>\<open>make_contexts\<close> of \<^verbatim>\<open>SpecializedRunner\<close>: one context per engine, numbered from 0.\<close>

definition make_contexts :: "nat \<Rightarrow> run_context list" where
  "make_contexts size' = map (\<lambda>i. context_new i size') [0..<size']"

definition fresh_inst :: "run_context \<Rightarrow> inst" where
  "fresh_inst c = \<lparr>uid = ctx_rank c, inst_state = Rn_Unqueued, live_set = False, inst_context = c,
     join_value = None, inst_phase = Ph_init\<rparr>"

text \<open>\<^verbatim>\<open>m_instances.resize\<close> keeps what a runner that has not been joined still holds; the promise of such an instance gives out no
  second future.\<close>

definition runner_enqueue :: "nat \<Rightarrow> run_context list \<Rightarrow> runner \<Rightarrow> runner result" where
  "runner_enqueue n_launchers contexts r =
     (if \<not> can_run r then Inl (Srf_runtime_error ''Runner::run() is disabled'')
      else if take (length contexts) (instances r) \<noteq> [] then Inl (Logic_error ''future_already_retrieved'')
      else
        rbind (fold_result (\<lambda>c. runner_update_state (ctx_rank c) Rn_Queued) contexts
                 (r\<lparr>instances := map fresh_inst contexts\<rparr>)) (\<lambda>r.
        (let r = (if runnable r < Rb_Run then r\<lparr>runnable := runnable_update_state Rb_Run (runnable r)\<rparr> else r)
         in if length (instances r) \<noteq> n_launchers
            then Inl (Check_failed ''m_instances.size() == launcher->launchers().size()'')
            else Inr (r\<lparr>remaining_instances := n_launchers\<rparr>))))"

text \<open>What the \<open>main\<close> of the runnable does in one context: it returns, it reports an exception to
  its context and returns, or it lets an exception escape.\<close>

datatype main_outcome = Main_ok | Main_failed nat | Main_threw nat

definition set_inst :: "nat \<Rightarrow> inst \<Rightarrow> runner \<Rightarrow> runner" where
  "set_inst i x r = r\<lparr>instances := (instances r)[i := x]\<rparr>"

definition set_phase :: "nat \<Rightarrow> phase \<Rightarrow> runner \<Rightarrow> runner" where
  "set_phase i p r = set_inst i ((instances r ! i)\<lparr>inst_phase := p\<rparr>) r"

definition task_step :: "(nat \<Rightarrow> main_outcome) \<Rightarrow> nat \<Rightarrow> runner \<Rightarrow> runner result" where
  "task_step outcome i r =
     (let x = instances r ! i; c = inst_context x
      in case inst_phase x of
           Ph_init \<Rightarrow>
             rbind (runner_update_state (ctx_rank c) Rn_Running r) (\<lambda>r.
               Inr (set_inst i ((instances r ! i)\<lparr>live_set := True, inst_phase := Ph_main\<rparr>) r))
         | Ph_main \<Rightarrow>
             (case outcome i of
                Main_ok \<Rightarrow> Inr (set_phase i Ph_end r)
              | Main_failed e \<Rightarrow>
                  rbind (set_exception (Std_exn e) (c, runnable r)) (\<lambda>(c, rb).
                    Inr (set_inst i (x\<lparr>inst_context := c, inst_phase := Ph_end\<rparr>) (r\<lparr>runnable := rb\<rparr>)))
              | Main_threw e \<Rightarrow>
                  Inr (set_inst i (x\<lparr>join_value := Some (Inl (User_exception e)), inst_phase := Ph_threw\<rparr>) r))
         | Ph_end \<Rightarrow>
             rbind (if \<not> context_status c then runner_update_state (ctx_rank c) Rn_Error r else Inr r) (\<lambda>r.
             rbind (runner_update_state (ctx_rank c) Rn_Completed r) (\<lambda>r.
               Inr (set_phase i Ph_load r)))
         | Ph_load \<Rightarrow> Inr (set_phase i (Ph_store (m_status r \<and> context_status c)) r)
         | Ph_store b \<Rightarrow> Inr (set_phase i Ph_decrement (r\<lparr>m_status := b\<rparr>))
         | Ph_decrement \<Rightarrow>
             (let r = r\<lparr>remaining_instances := remaining_instances r - 1\<rparr>;
                  r = (if remaining_instances r = 0 \<and> has_callback r
                       then r\<lparr>callback_calls := callback_calls r @ [m_status r]\<rparr> else r)
              in Inr (set_phase i Ph_finish r))
         | Ph_finish \<Rightarrow>
             Inr (set_inst i (x\<lparr>join_value := Some (context_finish c), inst_phase := Ph_done\<rparr>) r)
         | Ph_done \<Rightarrow> Inr r
         | Ph_threw \<Rightarrow> Inr r)"

definition task_over :: "inst \<Rightarrow> bool" where
  "task_over x \<longleftrightarrow> inst_phase x = Ph_done \<or> inst_phase x = Ph_threw"

inductive runner_step :: "(nat \<Rightarrow> main_outcome) \<Rightarrow> runner \<Rightarrow> runner \<Rightarrow> bool" for outcome where
  task: "i < length (instances r) \<Longrightarrow> \<not> task_over (instances r ! i) \<Longrightarrow> task_step outcome i r = Inr r' \<Longrightarrow>
     runner_step outcome r r'"
| stop: "runner_step outcome r (runner_stop r)"
| kill: "runner_step outcome r (runner_kill r)"

definition await_live :: "runner \<Rightarrow> unit result" where
  "await_live r = (if \<forall>x \<in> set (instances r). live_set x then Inr () else Inl (Deadlock ''live_future''))"

text \<open>\<open>await_join\<close>; an instance whose future has no value keeps it waiting.\<close>

fun join_instances :: "inst list \<Rightarrow> srf_error option \<Rightarrow> srf_error option result" where
  "join_instances [] first_exception = Inr first_exception"
| "join_instances (x # xs) first_exception =
     (case join_value x of
        None \<Rightarrow> Inl (Deadlock ''join_future'')
      | Some v \<Rightarrow> join_instances xs (remember first_exception v))"

definition await_join :: "runner \<Rightarrow> runner \<times> unit result" where
  "await_join r =
     (case join_instances (instances r) None of
        Inl e \<Rightarrow> (r, Inl e)
      | Inr first_exception \<Rightarrow> (r\<lparr>instances := []\<rparr>, rethrow first_exception))"

definition ended :: "runner \<Rightarrow> bool" where
  "ended r \<longleftrightarrow> (\<forall>x \<in> set (instances r). join_value x \<noteq> None)"

definition join_values :: "runner \<Rightarrow> unit result list" where
  "join_values r = map (\<lambda>x. the (join_value x)) (instances r)"

lemma join_instances_eq:
  "\<forall>x \<in> set xs. join_value x \<noteq> None \<Longrightarrow>
   join_instances xs first = Inr (fold (\<lambda>r first. remember first r) (map (\<lambda>x. the (join_value x)) xs) first)"
  by (induction xs arbitrary: first) auto

lemma await_join_eq: "ended r \<Longrightarrow> await_join r = (r\<lparr>instances := []\<rparr>, first_error (join_values r))"
  by (simp add: await_join_def ended_def join_values_def join_instances_eq rethrow_remember)

subsection \<open>Invariant\<close>

definition failed :: "inst \<Rightarrow> bool" where
  "failed x \<longleftrightarrow> \<not> context_status (inst_context x)"

definition decremented :: "inst \<Rightarrow> bool" where
  "decremented x \<longleftrightarrow> inst_phase x = Ph_finish \<or> inst_phase x = Ph_done"

text \<open>The state of an instance goes with the phase of its task.\<close>

definition inst_ok :: "nat \<Rightarrow> inst \<Rightarrow> bool" where
  "inst_ok i x \<longleftrightarrow> uid x = i \<and> ctx_rank (inst_context x) = i
     \<and> (case inst_phase x of
          Ph_init \<Rightarrow> inst_state x = Rn_Queued \<and> \<not> live_set x \<and> \<not> failed x \<and> join_value x = None
        | Ph_main \<Rightarrow> inst_state x = Rn_Running \<and> live_set x \<and> \<not> failed x \<and> join_value x = None
        | Ph_end \<Rightarrow> inst_state x = Rn_Running \<and> live_set x \<and> join_value x = None
        | Ph_done \<Rightarrow> inst_state x = Rn_Completed \<and> live_set x
                      \<and> join_value x = Some (context_finish (inst_context x))
        | Ph_threw \<Rightarrow> inst_state x = Rn_Running \<and> live_set x \<and> \<not> failed x
                      \<and> (\<exists>e. join_value x = Some (Inl e))
        | _ \<Rightarrow> inst_state x = Rn_Completed \<and> live_set x \<and> join_value x = None)"

definition runner_ok :: "nat \<Rightarrow> runner \<Rightarrow> bool" where
  "runner_ok n r \<longleftrightarrow>
     length (instances r) = n \<and> (\<forall>i < n. inst_ok i (instances r ! i))
     \<and> remaining_instances r = length (filter (\<lambda>x. \<not> decremented x) (instances r))
     \<and> length (callback_calls r) = (if remaining_instances r = 0 \<and> 0 < n \<and> has_callback r then 1 else 0)
     \<and> (\<not> m_status r \<or> False \<in> set (callback_calls r)
          \<or> (\<exists>x \<in> set (instances r). inst_phase x = Ph_store False)
        \<longrightarrow> (\<exists>x \<in> set (instances r). failed x))"

lemma runner_update_state_eq:
  "i < length (instances r) \<Longrightarrow> inst_state (instances r ! i) < st \<Longrightarrow>
   runner_update_state i st r = Inr (set_inst i ((instances r ! i)\<lparr>inst_state := st\<rparr>) r)"
  by (simp add: runner_update_state_def set_inst_def Let_def)

lemma instances_set_inst [simp]: "instances (set_inst i x r) = (instances r)[i := x]"
  by (simp add: set_inst_def)

lemma set_inst_fields [simp]:
  "m_status (set_inst i x r) = m_status r" "remaining_instances (set_inst i x r) = remaining_instances r"
  "has_callback (set_inst i x r) = has_callback r" "callback_calls (set_inst i x r) = callback_calls r"
  "runnable (set_inst i x r) = runnable r" "can_run (set_inst i x r) = can_run r"
  by (simp_all add: set_inst_def)

lemma set_inst_twice [simp]: "set_inst i y (set_inst i x r) = set_inst i y r"
  by (simp add: set_inst_def)

text \<open>The effect of a step of task \<open>i\<close>: it replaces instance \<open>i\<close> by \<open>y\<close> and changes the shared fields
  as the phase says.\<close>

definition next_inst :: "(nat \<Rightarrow> main_outcome) \<Rightarrow> nat \<Rightarrow> runner \<Rightarrow> inst" where
  "next_inst outcome i r =
     (let x = instances r ! i
      in case inst_phase x of
           Ph_init \<Rightarrow> x\<lparr>inst_state := Rn_Running, live_set := True, inst_phase := Ph_main\<rparr>
         | Ph_main \<Rightarrow>
             (case outcome i of
                Main_ok \<Rightarrow> x\<lparr>inst_phase := Ph_end\<rparr>
              | Main_failed e \<Rightarrow> x\<lparr>inst_context := (inst_context x)\<lparr>exception_ptr := Some (Std_exn e)\<rparr>, inst_phase := Ph_end\<rparr>
              | Main_threw e \<Rightarrow> x\<lparr>join_value := Some (Inl (User_exception e)), inst_phase := Ph_threw\<rparr>)
         | Ph_end \<Rightarrow> x\<lparr>inst_state := Rn_Completed, inst_phase := Ph_load\<rparr>
         | Ph_load \<Rightarrow> x\<lparr>inst_phase := Ph_store (m_status r \<and> \<not> failed x)\<rparr>
         | Ph_store b \<Rightarrow> x\<lparr>inst_phase := Ph_decrement\<rparr>
         | Ph_decrement \<Rightarrow> x\<lparr>inst_phase := Ph_finish\<rparr>
         | Ph_finish \<Rightarrow> x\<lparr>join_value := Some (context_finish (inst_context x)), inst_phase := Ph_done\<rparr>
         | _ \<Rightarrow> x)"

definition next_shared :: "(nat \<Rightarrow> main_outcome) \<Rightarrow> nat \<Rightarrow> runner \<Rightarrow> runner" where
  "next_shared outcome i r =
     (case inst_phase (instances r ! i) of
        Ph_main \<Rightarrow> (case outcome i of Main_failed e \<Rightarrow> runner_kill r | _ \<Rightarrow> r)
      | Ph_store b \<Rightarrow> r\<lparr>m_status := b\<rparr>
      | Ph_decrement \<Rightarrow>
          (let r = r\<lparr>remaining_instances := remaining_instances r - 1\<rparr>
           in if remaining_instances r = 0 \<and> has_callback r
              then r\<lparr>callback_calls := callback_calls r @ [m_status r]\<rparr> else r)
      | _ \<Rightarrow> r)"

lemma task_step_eq:
  assumes "runner_ok n r" and "i < n"
  shows "task_step outcome i r = Inr (set_inst i (next_inst outcome i r) (next_shared outcome i r))"
proof -
  let ?x = "instances r ! i"
  have len: "i < length (instances r)" and ok: "inst_ok i ?x" using assms by (simp_all add: runner_ok_def)
  have rank: "ctx_rank (inst_context ?x) = i" using ok by (simp add: inst_ok_def)
  show ?thesis
  proof (cases "inst_phase ?x")
    case Ph_init
    then have "inst_state ?x < Rn_Running" using ok by (simp add: inst_ok_def rn_order)
    then show ?thesis
      using Ph_init len rank by (simp add: task_step_def next_inst_def next_shared_def runner_update_state_eq)
  next
    case Ph_main
    then have "exception_ptr (inst_context ?x) = None" using ok by (simp add: inst_ok_def failed_def context_status_def)
    then show ?thesis
      using Ph_main len
      by (cases "outcome i") (simp_all add: task_step_def next_inst_def next_shared_def set_phase_def
          set_exception_def runner_kill_def Let_def)
  next
    case Ph_end
    then have st: "inst_state ?x = Rn_Running" using ok by (simp add: inst_ok_def)
    show ?thesis
      using Ph_end len rank st
      by (simp add: task_step_def next_inst_def next_shared_def set_phase_def runner_update_state_eq rn_order Let_def)
  next
    case Ph_load
    then show ?thesis using len by (simp add: task_step_def next_inst_def next_shared_def set_phase_def failed_def Let_def)
  next
    case (Ph_store b)
    then show ?thesis using len by (simp add: task_step_def next_inst_def next_shared_def set_phase_def Let_def)
  next
    case Ph_decrement
    then show ?thesis using len by (simp add: task_step_def next_inst_def next_shared_def set_phase_def Let_def)
  next
    case Ph_finish
    then show ?thesis using len by (simp add: task_step_def next_inst_def next_shared_def Let_def)
  next
    case Ph_done
    then show ?thesis using len by (simp add: task_step_def next_inst_def next_shared_def set_inst_def Let_def)
  next
    case Ph_threw
    then show ?thesis using len by (simp add: task_step_def next_inst_def next_shared_def set_inst_def Let_def)
  qed
qed

lemma next_inst_ok: "inst_ok i (instances r ! i) \<Longrightarrow> inst_ok i (next_inst outcome i r)"
  by (cases "inst_phase (instances r ! i)"; cases "outcome i")
    (auto simp: inst_ok_def next_inst_def Let_def failed_def context_status_def)

lemma next_inst_failed: "failed (instances r ! i) \<Longrightarrow> failed (next_inst outcome i r)"
  by (cases "inst_phase (instances r ! i)"; cases "outcome i")
    (auto simp: next_inst_def Let_def failed_def context_status_def)

lemma next_inst_decremented:
  "decremented (next_inst outcome i r) \<longleftrightarrow>
     decremented (instances r ! i) \<or> inst_phase (instances r ! i) = Ph_decrement"
  by (cases "inst_phase (instances r ! i)"; cases "outcome i")
    (auto simp: next_inst_def Let_def decremented_def)

lemma next_shared_fields:
  "instances (next_shared outcome i r) = instances r" "has_callback (next_shared outcome i r) = has_callback r"
  "remaining_instances (next_shared outcome i r) =
     remaining_instances r - (if inst_phase (instances r ! i) = Ph_decrement then 1 else 0)"
  "callback_calls (next_shared outcome i r) =
     (if inst_phase (instances r ! i) = Ph_decrement \<and> remaining_instances r - 1 = 0 \<and> has_callback r
      then callback_calls r @ [m_status r] else callback_calls r)"
  "m_status (next_shared outcome i r) =
     (case inst_phase (instances r ! i) of Ph_store b \<Rightarrow> b | _ \<Rightarrow> m_status r)"
  by (cases "inst_phase (instances r ! i)"; cases "outcome i";
      simp add: next_shared_def runner_kill_def Let_def)+

lemma runner_okD:
  assumes "runner_ok n r"
  shows "length (instances r) = n" "\<forall>i < n. inst_ok i (instances r ! i)"
    "remaining_instances r = length (filter (\<lambda>x. \<not> decremented x) (instances r))"
    "length (callback_calls r) = (if remaining_instances r = 0 \<and> 0 < n \<and> has_callback r then 1 else 0)"
    "\<not> m_status r \<or> False \<in> set (callback_calls r) \<or> (\<exists>x \<in> set (instances r). inst_phase x = Ph_store False)
       \<Longrightarrow> \<exists>x \<in> set (instances r). failed x"
  using assms unfolding runner_ok_def by blast+

lemma remaining_pos:
  assumes "runner_ok n r" and "i < n" and "\<not> decremented (instances r ! i)"
  shows "0 < remaining_instances r"
proof -
  have "instances r ! i \<in> set (filter (\<lambda>x. \<not> decremented x) (instances r))"
    using assms by (simp add: runner_ok_def)
  then have "0 < length (filter (\<lambda>x. \<not> decremented x) (instances r))" by (rule length_pos_if_in_set)
  then show ?thesis using runner_okD(3) [OF assms(1)] by simp
qed

lemma runner_ok_task:
  assumes "runner_ok n r" and "i < n"
  shows "runner_ok n (set_inst i (next_inst outcome i r) (next_shared outcome i r))"
proof -
  let ?x = "instances r ! i" and ?y = "next_inst outcome i r" and ?r = "next_shared outcome i r"
  note r = runner_okD [OF assms(1)]
  have len: "i < length (instances r)" using assms(2) r(1) by simp
  have "\<forall>j < n. inst_ok j ((instances r)[i := ?y] ! j)"
    using r(1,2) next_inst_ok [of i r outcome] assms(2) by (auto simp: nth_list_update)
  moreover have rem: "remaining_instances ?r = length (filter (\<lambda>x. \<not> decremented x) ((instances r)[i := ?y]))"
    using length_filter_update [OF len, of "\<lambda>x. \<not> decremented x" ?y] r(3)
      decremented_def [of ?x]
    by (cases "inst_phase ?x = Ph_decrement")
      (simp_all add: next_shared_fields next_inst_decremented split: if_splits)
  moreover have "length (callback_calls ?r) = (if remaining_instances ?r = 0 \<and> 0 < n \<and> has_callback ?r then 1 else 0)"
  proof (cases "inst_phase ?x = Ph_decrement")
    case True
    then have "0 < remaining_instances r" by (intro remaining_pos [OF assms]) (simp add: decremented_def)
    then have "callback_calls r = []" using r(4) by simp
    then show ?thesis using True assms(2) by (simp add: next_shared_fields)
  next
    case False
    then show ?thesis using r(4) by (simp add: next_shared_fields)
  qed
  moreover have "\<exists>x \<in> set ((instances r)[i := ?y]). failed x"
    if bad: "\<not> m_status ?r \<or> False \<in> set (callback_calls ?r)
        \<or> (\<exists>x \<in> set ((instances r)[i := ?y]). inst_phase x = Ph_store False)"
  proof -
    have "(\<exists>x \<in> set (instances r). failed x) \<or> failed ?y"
    proof (cases "inst_phase ?y = Ph_store False")
      case True
      then have "\<not> m_status r \<or> failed ?y"
        using next_inst_failed [of r i outcome]
        by (cases "inst_phase ?x"; cases "outcome i") (auto simp: next_inst_def Let_def)
      then show ?thesis using r(5) by blast
    next
      case False
      have "\<not> m_status r \<or> False \<in> set (callback_calls r) \<or> (\<exists>x \<in> set (instances r). inst_phase x = Ph_store False)"
        using bad False len set_update_subset_insert [of "instances r" i ?y] nth_mem [OF len]
        by (cases "inst_phase ?x") (auto simp: next_shared_fields split: if_splits)
      then show ?thesis using r(5) by blast
    qed
    moreover have "failed x \<Longrightarrow> x \<in> set (instances r) \<Longrightarrow> \<exists>x \<in> set ((instances r)[i := ?y]). failed x" for x
      using len next_inst_failed [of r i outcome] by (metis in_set_conv_nth length_list_update nth_list_update nth_list_update_neq)
    ultimately show ?thesis using len by (metis set_update_memI)
  qed
  ultimately show ?thesis using r(1) unfolding runner_ok_def by (simp add: next_shared_fields(1))
qed

lemma runner_ok_step:
  assumes "runner_ok n r" and "runner_step outcome r r'"
  shows "runner_ok n r'"
  using assms(2,1)
proof (induction rule: runner_step.induct)
  case (task i r r')
  then have "i < n" by (simp add: runner_ok_def)
  then show ?case using task task_step_eq runner_ok_task by (metis sum.inject(2))
next
  case (stop r)
  then show ?case by (simp add: runner_ok_def runner_stop_def)
next
  case (kill r)
  then show ?case by (simp add: runner_ok_def runner_kill_def)
qed

lemma runner_ok_steps:
  "(runner_step outcome)\<^sup>*\<^sup>* r r' \<Longrightarrow> runner_ok n r \<Longrightarrow> runner_ok n r'"
  by (induction rule: rtranclp_induct) (auto intro: runner_ok_step)

lemma has_callback_step: "runner_step outcome r r' \<Longrightarrow> has_callback r' = has_callback r"
  by (induction rule: runner_step.induct)
    (auto simp: task_step_def set_phase_def runner_stop_def runner_kill_def runner_update_state_def Let_def
      rbind_eq_Inr split: phase.splits main_outcome.splits if_splits)

lemma has_callback_steps: "(runner_step outcome)\<^sup>*\<^sup>* r r' \<Longrightarrow> has_callback r' = has_callback r"
  by (induction rule: rtranclp_induct) (simp_all add: has_callback_step)

subsection \<open>Launching\<close>

lemma enqueue_instances:
  assumes "m \<le> n"
  shows "fold_result (\<lambda>c. runner_update_state (ctx_rank c) Rn_Queued) (take m (make_contexts n))
      (r\<lparr>instances := map fresh_inst (make_contexts n)\<rparr>)
    = Inr (r\<lparr>instances := map (\<lambda>i. (fresh_inst (context_new i n))
          \<lparr>inst_state := if i < m then Rn_Queued else Rn_Unqueued\<rparr>) [0..<n]\<rparr>)"
  using assms
proof (induction m)
  case 0
  then show ?case by (simp add: make_contexts_def fresh_inst_def)
next
  case (Suc m)
  have nth: "take (Suc m) (make_contexts n) = take m (make_contexts n) @ [context_new m n]"
    using Suc.prems by (simp add: take_Suc_conv_app_nth make_contexts_def)
  let ?I = "\<lambda>k. map (\<lambda>i. (fresh_inst (context_new i n))\<lparr>inst_state := if i < k then Rn_Queued else Rn_Unqueued\<rparr>) [0..<n]"
  have upd: "(?I m)[m := (?I m ! m)\<lparr>inst_state := Rn_Queued\<rparr>] = ?I (Suc m)"
    using Suc.prems by (intro nth_equalityI) (auto simp: nth_list_update less_Suc_eq)
  have "runner_update_state m Rn_Queued (r\<lparr>instances := ?I m\<rparr>) = Inr (r\<lparr>instances := ?I (Suc m)\<rparr>)"
    unfolding upd [symmetric] using Suc.prems by (simp add: runner_update_state_def rn_order Let_def)
  with Suc show ?case
    by (simp add: nth fold_result_append context_new_def [of m n])
qed

lemma runner_enqueue_ok:
  assumes "runner_enqueue n (make_contexts n) r = Inr r'" and "callback_calls r = []" and "m_status r" and "0 < n"
  shows "runner_ok n r'" "has_callback r' = has_callback r" "m_status r'" "callback_calls r' = []"
    "runnable r' = max Rb_Run (runnable r)"
    "\<forall>x \<in> set (instances r'). inst_phase x = Ph_init"
proof -
  have len: "length (make_contexts n) = n" by (simp add: make_contexts_def)
  have inst: "instances r' = map (\<lambda>i. (fresh_inst (context_new i n))\<lparr>inst_state := Rn_Queued\<rparr>) [0..<n]"
    and fields: "remaining_instances r' = n" "callback_calls r' = []" "m_status r'" "has_callback r' = has_callback r"
      "runnable r' = max Rb_Run (runnable r)"
    using assms(1-3) enqueue_instances [of n n r] len
    by (auto simp: runner_enqueue_def runnable_update_state_max Let_def max_def split: if_splits)
  show "runner_ok n r'"
    using assms(4) unfolding runner_ok_def inst fields
    by (auto simp: inst_ok_def fresh_inst_def context_new_def failed_def context_status_def decremented_def fields
        intro: filter_True)
  show "has_callback r' = has_callback r" "m_status r'" "callback_calls r' = []"
    "runnable r' = max Rb_Run (runnable r)" "\<forall>x \<in> set (instances r'). inst_phase x = Ph_init"
    using fields inst by (auto simp: fresh_inst_def)
qed

subsection \<open>Progress\<close>

fun phase_left :: "phase \<Rightarrow> nat" where
  "phase_left Ph_init = 7"
| "phase_left Ph_main = 6"
| "phase_left Ph_end = 5"
| "phase_left Ph_load = 4"
| "phase_left (Ph_store _) = 3"
| "phase_left Ph_decrement = 2"
| "phase_left Ph_finish = 1"
| "phase_left Ph_done = 0"
| "phase_left Ph_threw = 0"

definition steps_left :: "runner \<Rightarrow> nat" where
  "steps_left r = sum_list (map (\<lambda>x. phase_left (inst_phase x)) (instances r))"

lemma next_inst_left:
  "\<not> task_over (instances r ! i) \<Longrightarrow>
   phase_left (inst_phase (next_inst outcome i r)) < phase_left (inst_phase (instances r ! i))"
  by (cases "inst_phase (instances r ! i)"; cases "outcome i") (auto simp: next_inst_def task_over_def Let_def)

lemma sum_list_update_less:
  fixes f :: "'a \<Rightarrow> nat"
  shows "i < length xs \<Longrightarrow> f y < f (xs ! i) \<Longrightarrow> sum_list (map f (xs[i := y])) < sum_list (map f xs)"
proof (induction xs arbitrary: i)
  case (Cons x xs)
  then show ?case by (cases i) auto
qed simp

lemma runner_finishes:
  assumes "runner_ok n r"
  shows "\<exists>r'. (runner_step outcome)\<^sup>*\<^sup>* r r' \<and> (\<forall>x \<in> set (instances r'). task_over x)"
  using assms
proof (induction "steps_left r" arbitrary: r rule: less_induct)
  case less
  show ?case
  proof (cases "\<forall>x \<in> set (instances r). task_over x")
    case True
    then show ?thesis by blast
  next
    case False
    then obtain i where i: "i < n" "\<not> task_over (instances r ! i)"
      using runner_okD(1) [OF less.prems] by (metis in_set_conv_nth)
    let ?r = "set_inst i (next_inst outcome i r) (next_shared outcome i r)"
    have "runner_step outcome r ?r"
      using runner_step.task task_step_eq [OF less.prems i(1)] i runner_okD(1) [OF less.prems] by blast
    moreover have "steps_left ?r < steps_left r"
      using sum_list_update_less [of i "instances r" "\<lambda>x. phase_left (inst_phase x)" "next_inst outcome i r"]
        next_inst_left [OF i(2)] i(1) runner_okD(1) [OF less.prems]
      by (simp add: steps_left_def next_shared_fields(1))
    ultimately show ?thesis
      using less.hyps [OF _ runner_ok_task [OF less.prems i(1)]] by (meson converse_rtranclp_into_rtranclp)
  qed
qed

subsection \<open>Runs in which the status update is not interrupted\<close>

definition serial_task :: "(nat \<Rightarrow> main_outcome) \<Rightarrow> nat \<Rightarrow> runner \<Rightarrow> runner result" where
  "serial_task outcome i r =
     rbind (task_step outcome i r) (\<lambda>r'.
       case inst_phase (instances r' ! i) of Ph_store _ \<Rightarrow> task_step outcome i r' | _ \<Rightarrow> Inr r')"

inductive serial_step :: "(nat \<Rightarrow> main_outcome) \<Rightarrow> runner \<Rightarrow> runner \<Rightarrow> bool" for outcome where
  task: "i < length (instances r) \<Longrightarrow> \<not> task_over (instances r ! i) \<Longrightarrow> serial_task outcome i r = Inr r' \<Longrightarrow>
     serial_step outcome r r'"
| stop: "serial_step outcome r (runner_stop r)"
| kill: "serial_step outcome r (runner_kill r)"

definition past_store :: "inst \<Rightarrow> bool" where
  "past_store x \<longleftrightarrow> inst_phase x = Ph_decrement \<or> decremented x"

definition serial_ok :: "nat \<Rightarrow> runner \<Rightarrow> bool" where
  "serial_ok n r \<longleftrightarrow> runner_ok n r \<and> (\<forall>i < n. \<forall>b. inst_phase (instances r ! i) \<noteq> Ph_store b)
     \<and> m_status r = (\<forall>i < n. past_store (instances r ! i) \<longrightarrow> \<not> failed (instances r ! i))
     \<and> (\<forall>b \<in> set (callback_calls r). b = (\<forall>i < n. \<not> failed (instances r ! i)))"

lemma serial_task_load:
  assumes "runner_ok n r" and "i < n" and "inst_phase (instances r ! i) = Ph_load"
  shows "serial_task outcome i r = Inr (set_inst i ((instances r ! i)\<lparr>inst_phase := Ph_decrement\<rparr>)
           (r\<lparr>m_status := m_status r \<and> \<not> failed (instances r ! i)\<rparr>))"
proof -
  let ?r = "set_inst i (next_inst outcome i r) (next_shared outcome i r)"
  have "i < length (instances r)" using runner_okD(1) [OF assms(1)] assms(2) by simp
  then show ?thesis
    using assms(3) task_step_eq [OF assms(1,2), of outcome]
      task_step_eq [OF runner_ok_task [OF assms(1,2), of outcome] assms(2), of outcome]
    by (simp add: serial_task_def next_inst_def next_shared_def Let_def set_inst_def)
qed

lemma serial_task_other:
  assumes "runner_ok n r" and "i < n" and "inst_phase (instances r ! i) \<noteq> Ph_load"
  shows "serial_task outcome i r = Inr (set_inst i (next_inst outcome i r) (next_shared outcome i r))
     \<or> (\<exists>b. inst_phase (instances r ! i) = Ph_store b)"
proof -
  have "i < length (instances r)" using runner_okD(1) [OF assms(1)] assms(2) by simp
  then show ?thesis
    using assms(3) task_step_eq [OF assms(1,2), of outcome]
    by (cases "inst_phase (instances r ! i)"; cases "outcome i")
      (simp_all add: serial_task_def next_inst_def next_shared_fields Let_def)
qed

lemma serial_ok_update:
  assumes ok: "serial_ok n r" and i: "i < n" and "runner_ok n r'" and "instances r' = (instances r)[i := y]"
    and "\<forall>b. inst_phase y \<noteq> Ph_store b" and "past_store (instances r ! i) \<longrightarrow> past_store y \<and> failed y = failed (instances r ! i)"
    and "m_status r' = (m_status r \<and> (past_store y \<longrightarrow> \<not> failed y))"
    and "\<forall>b \<in> set (callback_calls r'). b \<in> set (callback_calls r) \<and> past_store (instances r ! i)
           \<or> (b = m_status r' \<and> (\<forall>j < n. past_store (instances r' ! j)))"
  shows "serial_ok n r'"
proof -
  have len: "length (instances r) = n" using ok runner_okD(1) by (auto simp: serial_ok_def)
  have nth: "instances r' ! j = (if j = i then y else instances r ! j)" if "j < n" for j
    using that assms(4) len by (simp add: nth_list_update)
  have st: "m_status r' = (\<forall>j < n. past_store (instances r' ! j) \<longrightarrow> \<not> failed (instances r' ! j))"
    using ok i assms(6,7) nth by (auto simp: serial_ok_def)
  have "b = (\<forall>j < n. \<not> failed (instances r' ! j))" if b: "b \<in> set (callback_calls r')" for b
    using assms(8) b
  proof (elim ballE disjE conjE)
    assume "b \<in> set (callback_calls r)" "past_store (instances r ! i)"
    then show ?thesis using ok assms(6) nth i by (auto simp: serial_ok_def)
  next
    assume "b = m_status r'" "\<forall>j < n. past_store (instances r' ! j)"
    then show ?thesis using st by blast
  qed simp
  moreover have "\<forall>j < n. \<forall>b. inst_phase (instances r' ! j) \<noteq> Ph_store b"
    using ok nth assms(5) by (auto simp: serial_ok_def)
  ultimately show ?thesis unfolding serial_ok_def using assms(3) st by blast
qed

lemma calls_all_decremented:
  assumes "runner_ok n r" and "callback_calls r \<noteq> []" and "i < n"
  shows "decremented (instances r ! i)"
proof (rule ccontr)
  assume "\<not> decremented (instances r ! i)"
  then have "0 < remaining_instances r" using remaining_pos assms by blast
  then show False using runner_okD(4) [OF assms(1)] assms(2) by simp
qed

lemma next_inst_past:
  "past_store (next_inst outcome i r) \<Longrightarrow> (\<forall>b. inst_phase (instances r ! i) \<noteq> Ph_store b) \<Longrightarrow> past_store (instances r ! i)"
  by (cases "inst_phase (instances r ! i)"; cases "outcome i")
    (auto simp: next_inst_def past_store_def decremented_def Let_def)

lemma past_next_inst:
  "past_store (instances r ! i) \<Longrightarrow> past_store (next_inst outcome i r) \<and> failed (next_inst outcome i r) = failed (instances r ! i)"
  by (cases "inst_phase (instances r ! i)"; cases "outcome i")
    (auto simp: next_inst_def past_store_def decremented_def failed_def Let_def)

lemma next_inst_store:
  "inst_phase (instances r ! i) \<noteq> Ph_load \<Longrightarrow> inst_phase (next_inst outcome i r) = Ph_store b \<Longrightarrow>
   inst_phase (instances r ! i) = Ph_store b"
  by (cases "inst_phase (instances r ! i)"; cases "outcome i") (auto simp: next_inst_def Let_def)

lemma serial_ok_task:
  assumes ok: "serial_ok n r" and i: "i < n" and step: "serial_task outcome i r = Inr r'"
  shows "serial_ok n r'"
proof -
  let ?x = "instances r ! i" and ?y = "next_inst outcome i r"
  have rok: "runner_ok n r" and ns: "\<forall>b. inst_phase ?x \<noteq> Ph_store b"
    and ms: "m_status r \<Longrightarrow> past_store ?x \<Longrightarrow> \<not> failed ?x" using ok i by (auto simp: serial_ok_def)
  show ?thesis
  proof (cases "inst_phase ?x = Ph_load")
    case True
    let ?z = "?x\<lparr>inst_phase := Ph_decrement\<rparr>"
    have r': "r' = set_inst i ?z (r\<lparr>m_status := m_status r \<and> \<not> failed ?x\<rparr>)"
      using serial_task_load [OF rok i True] step by simp
    have "callback_calls r = []"
      using calls_all_decremented [OF rok _ i] True by (auto simp: decremented_def)
    moreover have "runner_ok n r'"
    proof -
      obtain r1 where "task_step outcome i r = Inr r1" "r1 = set_inst i ?y (next_shared outcome i r)" "runner_ok n r1"
        using task_step_eq [OF rok i] runner_ok_task [OF rok i] by blast
      moreover have "r' = set_inst i (next_inst outcome i r1) (next_shared outcome i r1)"
        using calculation step task_step_eq [OF \<open>runner_ok n r1\<close> i, of outcome] True i runner_okD(1) [OF rok]
        by (simp add: serial_task_def next_inst_def next_shared_def Let_def)
      ultimately show ?thesis using runner_ok_task [OF _ i] by simp
    qed
    ultimately show ?thesis
      using True by (intro serial_ok_update [OF ok i, of r' ?z])
        (auto simp: r' past_store_def decremented_def failed_def)
  next
    case False
    then have r': "r' = set_inst i ?y (next_shared outcome i r)"
      using serial_task_other [OF rok i False] step ns by auto
    have rok': "runner_ok n r'" unfolding r' by (rule runner_ok_task [OF rok i])
    have len: "length (instances r) = n" by (rule runner_okD(1) [OF rok])
    have m: "m_status r' = m_status r" using ns by (cases "inst_phase ?x") (auto simp: r' next_shared_fields)
    have "b \<in> set (callback_calls r) \<and> past_store ?x \<or> b = m_status r' \<and> (\<forall>j < n. past_store (instances r' ! j))"
      if b: "b \<in> set (callback_calls r')" for b
    proof (cases "b \<in> set (callback_calls r)")
      case True
      then have "decremented ?x" using calls_all_decremented [OF rok _ i] by force
      then show ?thesis using True by (simp add: past_store_def)
    next
      case False
      have "\<forall>j < n. decremented (instances r' ! j)" using calls_all_decremented [OF rok'] b by force
      then show ?thesis using b False m by (auto simp: r' next_shared_fields past_store_def split: if_splits)
    qed
    then have calls: "\<forall>b \<in> set (callback_calls r'). b \<in> set (callback_calls r) \<and> past_store ?x
        \<or> b = m_status r' \<and> (\<forall>j < n. past_store (instances r' ! j))" by blast
    have "m_status r' = (m_status r \<and> (past_store ?y \<longrightarrow> \<not> failed ?y))"
      using m ms next_inst_past [of outcome i r] past_next_inst [of r i outcome] ns by blast
    moreover have "\<forall>b. inst_phase ?y \<noteq> Ph_store b" using next_inst_store False ns by blast
    moreover have "instances r' = (instances r)[i := ?y]" by (simp add: r' next_shared_fields(1))
    ultimately show ?thesis
      using past_next_inst [of r i outcome] by (intro serial_ok_update [OF ok i rok' _ _ _ _ calls]) blast+
  qed
qed

lemma runner_ok_runnable: "runner_ok n (r\<lparr>runnable := s\<rparr>) = runner_ok n r"
  by (simp add: runner_ok_def)

lemma serial_ok_runnable: "serial_ok n (r\<lparr>runnable := s\<rparr>) = serial_ok n r"
  by (simp add: serial_ok_def runner_ok_runnable)

lemma serial_ok_steps:
  "(serial_step outcome)\<^sup>*\<^sup>* r r' \<Longrightarrow> serial_ok n r \<Longrightarrow> serial_ok n r'"
proof (induction rule: rtranclp_induct)
  case (step r1 r2)
  have ok: "serial_ok n r1" using step by blast
  show ?case
    using step(2) ok
  proof (induction rule: serial_step.induct)
    case (task i r r')
    then have "runner_ok n r" by (simp add: serial_ok_def)
    then have "i < n" using task(1) runner_okD(1) by metis
    then show ?case by (rule serial_ok_task [OF task(4) _ task(3)])
  next
    case (stop r)
    then show ?case by (simp add: serial_ok_runnable runner_stop_def)
  next
    case (kill r)
    then show ?case by (simp add: serial_ok_runnable runner_kill_def)
  qed
qed

subsection \<open>Properties\<close>

text \<open>C2. The completion callback of a runner under every interleaving of its tasks, with stops and kills
  in between. No task ever trips the check that states advance in order. The callback is called at
  most once, exactly when every task has passed its decrement of the counter, and it reports a
  failure only if some context has failed. Every run can be continued until all tasks are over, and
  then, if no \<open>main\<close> let an exception escape, the callback has been called exactly once.\<close>

theorem runner_completion:
  assumes "runner_enqueue n (make_contexts n) r0 = Inr r1" and "0 < n" and "callback_calls r0 = []"
    and "m_status r0" and "has_callback r0" and "(runner_step outcome)\<^sup>*\<^sup>* r1 r"
  shows "(\<forall>i < n. is_ok (task_step outcome i r))
     \<and> length (callback_calls r) \<le> 1
     \<and> (callback_calls r \<noteq> [] \<longleftrightarrow> (\<forall>i < n. decremented (instances r ! i)))
     \<and> (callback_calls r = [False] \<longrightarrow> (\<exists>i < n. failed (instances r ! i)))
     \<and> (\<exists>r'. (runner_step outcome)\<^sup>*\<^sup>* r r' \<and> (\<forall>x \<in> set (instances r'). task_over x))
     \<and> ((\<forall>x \<in> set (instances r). inst_phase x = Ph_done) \<longrightarrow> length (callback_calls r) = 1)"
proof -
  note e = runner_enqueue_ok [OF assms(1,3,4,2)]
  have ok: "runner_ok n r" by (rule runner_ok_steps [OF assms(6) e(1)])
  note rd = runner_okD [OF ok]
  have cb: "has_callback r" using has_callback_steps [OF assms(6)] e(2) assms(5) by simp
  have all: "remaining_instances r = 0 \<longleftrightarrow> (\<forall>i < n. decremented (instances r ! i))"
    unfolding rd(3) using rd(1) by (auto simp: filter_empty_conv all_set_conv_all_nth)
  have calls: "callback_calls r \<noteq> [] \<longleftrightarrow> (\<forall>i < n. decremented (instances r ! i))"
    "length (callback_calls r) \<le> 1" "callback_calls r \<noteq> [] \<longrightarrow> length (callback_calls r) = 1"
    using rd(4) cb assms(2) all by (auto split: if_splits)
  moreover have "\<forall>i < n. is_ok (task_step outcome i r)" by (simp add: task_step_eq [OF ok] is_ok_def)
  moreover have "callback_calls r = [False] \<longrightarrow> (\<exists>i < n. failed (instances r ! i))"
    using rd(1,5) by (metis in_set_conv_nth list.set_intros(1))
  moreover have "(\<forall>x \<in> set (instances r). inst_phase x = Ph_done) \<longrightarrow> length (callback_calls r) = 1"
    using calls(1,3) rd(1) by (auto simp: decremented_def)
  ultimately show ?thesis using runner_finishes [OF ok, of outcome] by blast
qed

text \<open>C39. When no other task runs between the read and the write of the status, the callback reports
  success exactly if no context has failed.\<close>

theorem runner_serial_status:
  assumes "runner_enqueue n (make_contexts n) r0 = Inr r1" and "0 < n" and "callback_calls r0 = []"
    and "m_status r0" and "(serial_step outcome)\<^sup>*\<^sup>* r1 r" and "callback_calls r = [ok]"
  shows "ok = (\<forall>i < n. \<not> failed (instances r ! i))"
proof -
  note e = runner_enqueue_ok [OF assms(1,3,4,2)]
  have "\<forall>i < n. inst_phase (instances r1 ! i) = Ph_init" using e(6) runner_okD(1) [OF e(1)] by simp
  then have "serial_ok n r1" using e by (simp add: serial_ok_def past_store_def decremented_def)
  then have "serial_ok n r" by (rule serial_ok_steps [OF assms(5)])
  then show ?thesis using assms(6) by (simp add: serial_ok_def)
qed

subsection \<open>Concrete runs\<close>

fun run_schedule :: "(nat \<Rightarrow> main_outcome) \<Rightarrow> nat list \<Rightarrow> runner \<Rightarrow> runner result" where
  "run_schedule outcome [] r = Inr r"
| "run_schedule outcome (i # is) r =
     (if i < length (instances r) \<and> \<not> task_over (instances r ! i)
      then rbind (task_step outcome i r) (run_schedule outcome is)
      else Inl (Deadlock ''no step''))"

lemma run_schedule_steps:
  "run_schedule outcome is r = Inr r' \<Longrightarrow> (runner_step outcome)\<^sup>*\<^sup>* r r'"
proof (induction "is" arbitrary: r)
  case (Cons i "is")
  then obtain r1 where "task_step outcome i r = Inr r1" "i < length (instances r)" "\<not> task_over (instances r ! i)"
    "run_schedule outcome is r1 = Inr r'" by (auto simp: rbind_eq_Inr split: if_splits)
  then show ?case using Cons.IH by (meson converse_rtranclp_into_rtranclp runner_step.task)
qed simp

definition demo_runner :: "nat \<Rightarrow> runner" where
  "demo_runner n = (case runner_enqueue n (make_contexts n) (runner_new\<lparr>has_callback := True\<rparr>) of
     Inr r \<Rightarrow> r | Inl _ \<Rightarrow> runner_new)"

definition demo_outcome :: "nat \<Rightarrow> main_outcome" where
  "demo_outcome i = (if i = 0 then Main_failed 1 else Main_ok)"

definition demo_lost :: "runner result" where
  "demo_lost = run_schedule demo_outcome [0, 0, 0, 1, 1, 1, 1, 0, 0, 1, 0, 1] (demo_runner 2)"

lemma demo_enqueue: "runner_enqueue n (make_contexts n) (runner_new\<lparr>has_callback := True\<rparr>) = Inr (demo_runner n)"
  using enqueue_instances [of n n "runner_new\<lparr>has_callback := True\<rparr>"]
  by (simp add: demo_runner_def runner_enqueue_def runner_new_def make_contexts_def Let_def)

lemma demo_lost_run:
  "case demo_lost of Inl _ \<Rightarrow> False | Inr r \<Rightarrow> callback_calls r = [True] \<and> failed (instances r ! 0)"
  by code_simp

text \<open>C38. The update of the status is a read followed by a write, so a failure can get lost: two tasks, the
  first fails, and the second one, having read the status before, overwrites the failure. The
  callback then reports success although a context has failed.\<close>

theorem runner_status_race:
  "\<exists>r. (runner_step demo_outcome)\<^sup>*\<^sup>* (demo_runner 2) r \<and> callback_calls r = [True] \<and> failed (instances r ! 0)
     \<and> runner_enqueue 2 (make_contexts 2) (runner_new\<lparr>has_callback := True\<rparr>) = Inr (demo_runner 2)"
proof -
  obtain r where "demo_lost = Inr r" "callback_calls r = [True]" "failed (instances r ! 0)"
    using result_runD [OF demo_lost_run] by blast
  then show ?thesis using run_schedule_steps demo_enqueue unfolding demo_lost_def by blast
qed

text \<open>C26. Joining a runner all of whose tasks are over returns normally exactly if every \<open>main\<close> returned
  and no context failed; it releases the instances in both cases.\<close>

theorem runner_join_reports:
  assumes "runner_enqueue n (make_contexts n) r0 = Inr r1" and "0 < n" and "callback_calls r0 = []"
    and "m_status r0" and "(runner_step outcome)\<^sup>*\<^sup>* r1 r" and "\<forall>x \<in> set (instances r). task_over x"
  shows "instances (fst (await_join r)) = []
     \<and> (snd (await_join r) = Inr () \<longleftrightarrow>
          (\<forall>i < n. inst_phase (instances r ! i) = Ph_done \<and> \<not> failed (instances r ! i)))"
proof -
  have ok: "runner_ok n r" by (rule runner_ok_steps [OF assms(5) runner_enqueue_ok(1) [OF assms(1,3,4,2)]])
  note rd = runner_okD [OF ok]
  have v: "join_value x \<noteq> None \<and> (is_ok (the (join_value x)) \<longleftrightarrow> inst_phase x = Ph_done \<and> \<not> failed x)"
    if "i < n" "x = instances r ! i" for i x
  proof -
    have "inst_ok i x" "task_over x" using that rd(1,2) assms(6) by auto
    then show ?thesis
      by (auto simp: task_over_def inst_ok_def is_ok_def context_finish_def failed_def context_status_def
          split: option.splits)
  qed
  then have "ended r" using rd(1) by (simp add: ended_def all_set_conv_all_nth)
  then show ?thesis using v rd(1) by (simp add: await_join_eq join_values_def first_error_Inr all_set_conv_all_nth)
qed

lemma demo_start: "callback_calls (runner_new\<lparr>has_callback := True\<rparr>) = []" "m_status (runner_new\<lparr>has_callback := True\<rparr>)"
  "has_callback (runner_new\<lparr>has_callback := True\<rparr>)"
  by (simp_all add: runner_new_def)

definition demo_single :: "runner result" where
  "demo_single = run_schedule demo_outcome [0, 0, 0, 0, 0, 0, 0] (demo_runner 1)"

lemma demo_single_run:
  "case demo_single of Inl _ \<Rightarrow> False | Inr r \<Rightarrow> callback_calls r = [False] \<and> (\<forall>x \<in> set (instances r). task_over x)"
  by code_simp

theorem runner_completion_witness:
  "\<exists>r. (runner_step demo_outcome)\<^sup>*\<^sup>* (demo_runner 1) r \<and> callback_calls r = [False] \<and> failed (instances r ! 0)"
proof -
  obtain r where r: "demo_single = Inr r" "callback_calls r = [False]"
    using result_runD [OF demo_single_run] by blast
  have s: "(runner_step demo_outcome)\<^sup>*\<^sup>* (demo_runner 1) r" using run_schedule_steps r(1) unfolding demo_single_def by blast
  from runner_completion [OF demo_enqueue _ demo_start s] r(2) s show ?thesis by auto
qed

theorem runner_join_reports_witness:
  "\<exists>r. (runner_step demo_outcome)\<^sup>*\<^sup>* (demo_runner 1) r \<and> instances (fst (await_join r)) = []"
proof -
  obtain r where r: "demo_single = Inr r" "\<forall>x \<in> set (instances r). task_over x"
    using result_runD [OF demo_single_run] by blast
  have s: "(runner_step demo_outcome)\<^sup>*\<^sup>* (demo_runner 1) r" using run_schedule_steps r(1) unfolding demo_single_def by blast
  from runner_join_reports [OF demo_enqueue _ demo_start(1,2) s r(2)] s show ?thesis by auto
qed

fun serial_schedule :: "(nat \<Rightarrow> main_outcome) \<Rightarrow> nat list \<Rightarrow> runner \<Rightarrow> runner result" where
  "serial_schedule outcome [] r = Inr r"
| "serial_schedule outcome (i # is) r =
     (if i < length (instances r) \<and> \<not> task_over (instances r ! i)
      then rbind (serial_task outcome i r) (serial_schedule outcome is)
      else Inl (Deadlock ''no step''))"

lemma serial_schedule_steps:
  "serial_schedule outcome is r = Inr r' \<Longrightarrow> (serial_step outcome)\<^sup>*\<^sup>* r r'"
proof (induction "is" arbitrary: r)
  case (Cons i "is")
  then obtain r1 where "serial_task outcome i r = Inr r1" "i < length (instances r)" "\<not> task_over (instances r ! i)"
    "serial_schedule outcome is r1 = Inr r'" by (auto simp: rbind_eq_Inr split: if_splits)
  then show ?case using Cons.IH by (meson converse_rtranclp_into_rtranclp serial_step.task)
qed simp

definition demo_serial :: "runner result" where
  "demo_serial = serial_schedule demo_outcome [0, 0, 0, 1, 1, 1, 1, 0, 0, 1] (demo_runner 2)"

lemma demo_serial_run: "case demo_serial of Inl _ \<Rightarrow> False | Inr r \<Rightarrow> callback_calls r = [False]"
  by code_simp

theorem runner_serial_status_witness:
  "\<exists>r. (serial_step demo_outcome)\<^sup>*\<^sup>* (demo_runner 2) r \<and> callback_calls r = [False]
     \<and> \<not> (\<forall>i < 2. \<not> failed (instances r ! i))"
proof -
  obtain r where r: "demo_serial = Inr r" "callback_calls r = [False]"
    using result_runD [OF demo_serial_run] by blast
  have s: "(serial_step demo_outcome)\<^sup>*\<^sup>* (demo_runner 2) r" using serial_schedule_steps r(1) unfolding demo_serial_def by blast
  from runner_serial_status [OF demo_enqueue _ demo_start(1,2) s r(2)] s r(2) show ?thesis by auto
qed

end
