(* ===== verification/Parsing.thy ===== *)
theory Parsing
  imports Addresses
begin

section \<open>Integer lists, ranges and configuration strings\<close>

text \<open>
  \<^verbatim>\<open>src/internal/utils/parse_ints.cpp\<close>, \<^verbatim>\<open>ranges.hpp\<close> and \<^verbatim>\<open>parse_config.cpp\<close>.
  \<open>split_on\<close> is the loop over \<^verbatim>\<open>std::getline\<close>: a trailing delimiter gives no empty token.
  \<open>read_int\<close> is \<^verbatim>\<open>ss >> x\<close> for \<^verbatim>\<open>int\<close>: leading blanks, an optional sign, digits; it fails
  without digits and out of range, and ignores what follows.
\<close>

function split_on :: "char \<Rightarrow> string \<Rightarrow> string list" where
  "split_on d [] = []"
| "split_on d (c # s) =
     takeWhile (\<lambda>x. x \<noteq> d) (c # s) # split_on d (drop 1 (dropWhile (\<lambda>x. x \<noteq> d) (c # s)))"
  by pat_completeness auto

termination
  by (relation "measure (\<lambda>(d, s). length s)") (auto simp: less_Suc_eq_le intro: le_trans [OF diff_le_self] length_dropWhile_le)

declare split_on.simps(2) [simp del]

definition is_digit :: "char \<Rightarrow> bool" where
  "is_digit c \<longleftrightarrow> 48 \<le> (of_char c :: nat) \<and> (of_char c :: nat) \<le> 57"

definition is_blank :: "char \<Rightarrow> bool" where
  "is_blank c \<longleftrightarrow> (of_char c :: nat) = 32 \<or> 9 \<le> (of_char c :: nat) \<and> (of_char c :: nat) \<le> 13"

definition digits_value :: "string \<Rightarrow> int" where
  "digits_value ds = foldl (\<lambda>v c. v * 10 + int (of_char c - 48)) 0 ds"

definition read_number :: "string \<Rightarrow> (bool \<times> string) option" where
  "read_number s =
     (let s = dropWhile is_blank s;
          (neg, s) = (if s \<noteq> [] \<and> hd s = CHR ''-'' then (True, tl s)
                      else if s \<noteq> [] \<and> hd s = CHR ''+'' then (False, tl s) else (False, s));
          ds = takeWhile is_digit s
      in if ds = [] then None else Some (neg, ds))"

definition read_int :: "string \<Rightarrow> int option" where
  "read_int s =
     (case read_number s of
        None \<Rightarrow> None
      | Some (neg, ds) \<Rightarrow>
          (let v = (if neg then - digits_value ds else digits_value ds)
           in if int_min \<le> v \<and> v \<le> int_max then Some v else None))"

definition convert_string2_int :: "string \<Rightarrow> int result" where
  "convert_string2_int str =
     (case read_int str of
        Some x \<Rightarrow> Inr x
      | None \<Rightarrow> Inl (Check_failed (''Error converting '' @ str @ '' to integer'')))"

text \<open>The counting loop of \<open>parse_ints\<close>; with \<open>stop\<close> at the largest \<^verbatim>\<open>int\<close> its increment overflows.\<close>

definition int_range :: "int \<Rightarrow> int \<Rightarrow> int list result" where
  "int_range start stop =
     (if start \<le> stop \<and> stop = int_max then Inl (Undefined_behaviour ''signed overflow of i'')
      else Inr [start..stop])"

definition parse_token :: "string \<Rightarrow> int list result" where
  "parse_token token =
     (case split_on (CHR ''-'') token of
        [a] \<Rightarrow> rbind (convert_string2_int a) (\<lambda>x. Inr [x])
      | [a, b] \<Rightarrow>
          rbind (convert_string2_int a) (\<lambda>start.
          rbind (convert_string2_int b) (\<lambda>stop. int_range start stop))
      | _ \<Rightarrow> Inl (Fatal (''Error parsing token '' @ token)))"

definition parse_ints :: "string \<Rightarrow> int list result" where
  "parse_ints data =
     fold_result (\<lambda>token result. rbind (parse_token token) (\<lambda>xs. Inr (result @ xs))) (split_on (CHR '','') data) []"

subsection \<open>Ranges\<close>

text \<open>The inner loop of \<open>find_ranges\<close>: the run \<open>low\<close>, \<open>low + 1\<close>, \dots at the front of a list, and
  what follows it. The template takes any integral type; the program uses it at \<open>std::uint32_t\<close> only, on
  the CPU numbers of a bitmap (\<open>bitmap.cpp\<close>, \<open>topology.cpp\<close>), and the model is of that instance. The
  values are sorted, so \<open>low + i\<close> can only meet the
  next value without wrapping around.\<close>

fun take_run :: "nat \<Rightarrow> nat \<Rightarrow> nat list \<Rightarrow> nat \<times> nat list" where
  "take_run next' high [] = (high, [])"
| "take_run next' high (x # xs) =
     (if next' = x then take_run (Suc next') x xs else (high, x # xs))"

lemma take_run_length: "length (snd (take_run n h xs)) \<le> length xs"
  by (induction n h xs rule: take_run.induct) auto

function ranges_of :: "nat list \<Rightarrow> (nat \<times> nat) list" where
  "ranges_of [] = []"
| "ranges_of (x # xs) =
     (let (high, rest) = take_run (Suc x) x xs in (x, high) # ranges_of rest)"
  by pat_completeness auto

termination
  using take_run_length by (relation "measure length") (auto simp: less_Suc_eq_le, metis snd_conv)

declare ranges_of.simps(2) [simp del]

definition find_ranges :: "nat list \<Rightarrow> (nat \<times> nat) list" where
  "find_ranges values = ranges_of (sort values)"

definition print_range :: "nat \<times> nat \<Rightarrow> string" where
  "print_range p = (if fst p = snd p then show_nat (fst p) else show_nat (fst p) @ ''-'' @ show_nat (snd p))"

definition print_ranges :: "(nat \<times> nat) list \<Rightarrow> string" where
  "print_ranges ranges = foldl (\<lambda>r p. r @ (if r = [] then '''' else '','') @ print_range p) '''' ranges"

subsection \<open>Reading what was printed\<close>

lemma of_char_digit [simp]: "d < 10 \<Longrightarrow> (of_char (digit_char d) :: nat) = 48 + d"
  by (simp add: digit_char_def)

lemma is_digit_digit_char [simp]: "d < 10 \<Longrightarrow> is_digit (digit_char d)"
  by (simp add: is_digit_def)

lemma show_nat_digits: "\<forall>c \<in> set (show_nat n). is_digit c"
  by (induction n rule: show_nat.induct) (subst show_nat.simps, auto)

lemma show_nat_nonempty [simp]: "show_nat n \<noteq> []"
  by (subst show_nat.simps) simp

lemma digits_value_snoc: "digits_value (ds @ [c]) = digits_value ds * 10 + int (of_char c - 48)"
  by (simp add: digits_value_def)

lemma digits_value_show_nat: "digits_value (show_nat n) = int n"
proof (induction n rule: show_nat.induct)
  case (1 n)
  show ?case
  proof (cases "n < 10")
    case True
    then show ?thesis by (subst show_nat.simps) (simp add: digits_value_def)
  next
    case False
    with 1 have IH: "digits_value (show_nat (n div 10)) = int (n div 10)" by blast
    have "show_nat n = show_nat (n div 10) @ [digit_char (n mod 10)]"
      using False by (subst show_nat.simps) simp
    then have "digits_value (show_nat n) = int (n div 10) * 10 + int (n mod 10)"
      using IH by (simp add: digits_value_snoc)
    also have "\<dots> = int n" by presburger
    finally show ?thesis .
  qed
qed

lemma digit_not_special: "is_digit c \<Longrightarrow> \<not> is_blank c \<and> c \<noteq> CHR ''-'' \<and> c \<noteq> CHR ''+'' \<and> c \<noteq> CHR '',''"
  by (auto simp: is_digit_def is_blank_def)

lemma read_number_digits:
  assumes "\<forall>c \<in> set s. is_digit c" and "s \<noteq> []"
  shows "read_number s = Some (False, s)"
proof -
  obtain c t where s: "s = c # t" using assms(2) by (cases s) auto
  have c: "\<not> is_blank c" "c \<noteq> CHR ''-''" "c \<noteq> CHR ''+''" using assms(1) digit_not_special s by auto
  have "takeWhile is_digit s = s" using assms(1) by (simp add: takeWhile_eq_all_conv)
  then show ?thesis using c by (simp add: read_number_def s Let_def)
qed

lemma read_int_show_nat: "int n \<le> int_max \<Longrightarrow> read_int (show_nat n) = Some (int n)"
  by (simp add: read_int_def read_number_digits [OF show_nat_digits] digits_value_show_nat int_min_def)

subsection \<open>Splitting what was joined\<close>

lemma split_on_single:
  assumes "d \<notin> set s" and "s \<noteq> []"
  shows "split_on d s = [s]"
proof -
  have "takeWhile (\<lambda>x. x \<noteq> d) s = s" using assms(1) by (auto simp: takeWhile_eq_all_conv)
  moreover have "dropWhile (\<lambda>x. x \<noteq> d) s = []" using assms(1) by (auto simp: dropWhile_eq_Nil_conv)
  moreover obtain c u where "s = c # u" using assms(2) by (cases s) auto
  ultimately show ?thesis using split_on.simps(2) [of d c u] by simp
qed

lemma split_on_delim:
  assumes "d \<notin> set s"
  shows "split_on d (s @ d # t) = s # split_on d t"
proof -
  have "takeWhile (\<lambda>x. x \<noteq> d) (s @ d # t) = s" "dropWhile (\<lambda>x. x \<noteq> d) (s @ d # t) = d # t"
    using assms by (auto simp: takeWhile_append dropWhile_append)
  moreover obtain c u where "s @ d # t = c # u" by (cases "s @ d # t") auto
  ultimately show ?thesis using split_on.simps(2) [of d c u] by simp
qed

lemma split_on_join:
  "d \<notin> set s \<Longrightarrow> s \<noteq> [] \<Longrightarrow> \<forall>p \<in> set ps. d \<notin> set (g p) \<and> g p \<noteq> [] \<Longrightarrow>
   split_on d (s @ concat (map (\<lambda>p. d # g p) ps)) = s # map g ps"
proof (induction ps arbitrary: s)
  case Nil
  then show ?case by (simp add: split_on_single)
next
  case (Cons p ps)
  then show ?case by (simp add: split_on_delim)
qed

lemma show_nat_chars: "CHR '','' \<notin> set (show_nat n)" "CHR ''-'' \<notin> set (show_nat n)"
  using show_nat_digits [of n] digit_not_special by blast+

lemma print_range_chars: "CHR '','' \<notin> set (print_range p)" "print_range p \<noteq> []"
  by (simp_all add: print_range_def show_nat_chars)

lemma foldl_join:
  "r \<noteq> [] \<Longrightarrow> foldl (\<lambda>r p. r @ (if r = [] then '''' else '','') @ print_range p) r ps
     = r @ concat (map (\<lambda>p. CHR '','' # print_range p) ps)"
  by (induction ps arbitrary: r) auto

lemma split_print_ranges: "split_on (CHR '','') (print_ranges ps) = map print_range ps"
proof (cases ps)
  case Nil
  then show ?thesis by (simp add: print_ranges_def)
next
  case (Cons p qs)
  then show ?thesis
    using split_on_join [of "CHR '',''" "print_range p" qs print_range] print_range_chars
    by (simp add: print_ranges_def foldl_join)
qed

lemma parse_print_range:
  assumes "a \<le> b" and "int b < int_max"
  shows "parse_token (print_range (a, b)) = Inr [int a..int b]"
proof -
  have conv: "convert_string2_int (show_nat n) = Inr (int n)" if "int n \<le> int_max" for n
    using that by (simp add: convert_string2_int_def read_int_show_nat)
  show ?thesis
  proof (cases "a = b")
    case True
    then show ?thesis
      using assms by (simp add: parse_token_def print_range_def split_on_single conv show_nat_chars)
  next
    case False
    then have "split_on (CHR ''-'') (print_range (a, b)) = [show_nat a, show_nat b]"
      by (simp add: print_range_def split_on_delim split_on_single show_nat_chars)
    then show ?thesis using assms by (simp add: parse_token_def conv int_range_def)
  qed
qed

subsection \<open>Ranges cover their values\<close>

lemma take_run_split:
  "take_run n h xs = (h', rest) \<Longrightarrow> n = Suc h \<Longrightarrow> h \<le> h' \<and> xs = [n..<Suc h'] @ rest"
proof (induction n h xs arbitrary: h' rest rule: take_run.induct)
  case (2 n h x xs)
  show ?case
  proof (cases "n = x")
    case True
    with 2 have "x \<le> h' \<and> xs = [Suc x..<Suc h'] @ rest" by simp
    then show ?thesis using True 2(3) by (auto simp: upt_conv_Cons)
  qed (use 2 in auto)
qed auto

lemma ranges_of_cover:
  "concat (map (\<lambda>(a, b). [a..<Suc b]) (ranges_of xs)) = xs"
proof (induction xs rule: ranges_of.induct)
  case (2 x xs)
  obtain h rest where t: "take_run (Suc x) x xs = (h, rest)" by fastforce
  then have "x \<le> h" "xs = [Suc x..<Suc h] @ rest" using take_run_split by blast+
  moreover have "concat (map (\<lambda>(a, b). [a..<Suc b]) (ranges_of rest)) = rest" using 2 t by simp
  moreover have "ranges_of (x # xs) = (x, h) # ranges_of rest" by (simp add: ranges_of.simps t)
  moreover have "[x..<Suc h] = x # [Suc x..<Suc h]" using \<open>x \<le> h\<close> by (simp add: upt_conv_Cons)
  ultimately show ?case by (simp del: upt_Suc)
qed simp

lemma ranges_of_bounds: "(a, b) \<in> set (ranges_of xs) \<Longrightarrow> a \<le> b \<and> b \<in> set xs"
proof (induction xs rule: ranges_of.induct)
  case (2 x xs)
  obtain h rest where t: "take_run (Suc x) x xs = (h, rest)" by fastforce
  then have h: "x \<le> h" "xs = [Suc x..<Suc h] @ rest" using take_run_split by blast+
  have "(a, b) = (x, h) \<or> (a, b) \<in> set (ranges_of rest)"
    using 2(2) by (simp add: ranges_of.simps t)
  then show ?case
  proof
    assume "(a, b) = (x, h)"
    then show ?thesis using h by auto
  next
    assume "(a, b) \<in> set (ranges_of rest)"
    then show ?thesis using 2(1) [OF t [symmetric]] h(2) by auto
  qed
qed simp

lemma map_int_upto: "map int [a..<Suc b] = [int a..int b]"
proof (induction b)
  case (Suc b)
  then show ?case by (cases "a \<le> Suc b") (auto simp: upto_rec2 [of "int a" "1 + int b"])
qed (cases a; simp)

lemma parse_print_all:
  "\<forall>(a, b) \<in> set ps. a \<le> b \<and> int b < int_max \<Longrightarrow>
   fold_result (\<lambda>token result. rbind (parse_token token) (\<lambda>xs. Inr (result @ xs))) (map print_range ps) acc
     = Inr (acc @ map int (concat (map (\<lambda>(a, b). [a..<Suc b]) ps)))"
proof (induction ps arbitrary: acc)
  case (Cons p ps)
  obtain a b where p: "p = (a, b)" by (cases p)
  have "parse_token (print_range (a, b)) = Inr (map int [a..<Suc b])"
    using Cons.prems p by (simp add: parse_print_range map_int_upto del: upt_Suc)
  then show ?case using Cons p by (simp del: upt_Suc)
qed simp

lemma parse_print_values:
  assumes "\<forall>x \<in> set values. int x < int_max"
  shows "parse_ints (print_ranges (find_ranges values)) = Inr (map int (sort values))"
proof -
  have "\<forall>(a, b) \<in> set (find_ranges values). a \<le> b \<and> int b < int_max"
    using assms ranges_of_bounds [of _ _ "sort values"] by (fastforce simp: find_ranges_def)
  from parse_print_all [OF this, of "[]"] show ?thesis
    by (simp add: parse_ints_def split_print_ranges find_ranges_def ranges_of_cover del: upt_Suc)
qed

text \<open>C33. Printing a list of values as ranges and parsing the string again returns the values in
  ascending order, duplicates included, for values below the largest \<^verbatim>\<open>int\<close>.\<close>

theorem ranges_roundtrip:
  assumes "\<forall>x \<in> set values. int x < int_max"
  shows "parse_ints (print_ranges (find_ranges values)) = Inr (map int (sort values))"
  by (rule parse_print_values [OF assms])

theorem ranges_roundtrip_witness:
  "parse_ints (print_ranges (find_ranges [7, 1, 2, 3, 9])) = Inr [1, 2, 3, 7, 9]"
  using ranges_roundtrip [of "[7, 1, 2, 3, 9]"] by (simp add: int_max_def)

subsection \<open>Configuration strings\<close>

record config_entry =
  segments :: "string list"
  concurrency :: int
  groups :: "nat list"

text \<open>\<^verbatim>\<open>std::atoi\<close>: 0 without digits; out of range the behaviour is undefined.\<close>

definition atoi :: "string \<Rightarrow> int result" where
  "atoi s =
     (case read_number s of
        None \<Rightarrow> Inr 0
      | Some (neg, ds) \<Rightarrow>
          (let v = (if neg then - digits_value ds else digits_value ds)
           in if int_min \<le> v \<and> v \<le> int_max then Inr v else Inl (Undefined_behaviour ''atoi'')))"

definition parse_groups :: "string \<Rightarrow> nat list result" where
  "parse_groups token =
     (if token = ''*'' then Inr []
      else rbind (parse_ints token) (\<lambda>ints.
        fold_result (\<lambda>i groups. if 0 \<le> i then Inr (groups @ [nat i]) else Inl (Check_failed ''i >= 0'')) ints []))"

definition parse_segments :: "string \<Rightarrow> string list" where
  "parse_segments token = sorted_list_of_set (set (split_on (CHR '','') token))"

definition parse_entry :: "string \<Rightarrow> config_entry result" where
  "parse_entry entry =
     (case split_on (CHR '':'') entry of
        [segs] \<Rightarrow> Inr \<lparr>segments = parse_segments segs, concurrency = 1, groups = []\<rparr>
      | [segs, conc] \<Rightarrow>
          rbind (atoi conc) (\<lambda>c. Inr \<lparr>segments = parse_segments segs, concurrency = c, groups = []\<rparr>)
      | [segs, conc, grps] \<Rightarrow>
          rbind (parse_groups grps) (\<lambda>gs.
          rbind (atoi conc) (\<lambda>c. Inr \<lparr>segments = parse_segments segs, concurrency = c, groups = gs\<rparr>))
      | _ \<Rightarrow> Inl (Std_runtime_error ''misformed user configuration string; should be of the form <segment_set>:<concurrency=1>:<group_set:*>;[repeated]''))"

definition parse_config :: "string \<Rightarrow> config_entry list result" where
  "parse_config config_str =
     fold_result (\<lambda>entry config. rbind (parse_entry entry) (\<lambda>e. Inr (config @ [e])))
       (split_on (CHR '';'') config_str) []"

lemma parse_groups_fold:
  "fold_result (\<lambda>i groups. if 0 \<le> i then Inr (groups @ [nat i]) else Inl e) ints acc =
     (if \<forall>i \<in> set ints. 0 \<le> i then Inr (acc @ map nat ints) else Inl e)"
  by (induction ints arbitrary: acc) auto

lemma fold_collect:
  "fold_result (\<lambda>x acc. rbind (f x) (\<lambda>y. Inr (acc @ [y]))) xs acc = Inr ys \<longleftrightarrow>
     (\<exists>zs. ys = acc @ zs \<and> list_all2 (\<lambda>x z. f x = Inr z) xs zs)"
proof (induction xs arbitrary: acc)
  case (Cons x xs)
  show ?case
  proof (cases "f x")
    case (Inr y)
    then show ?thesis using Cons by (auto simp: list_all2_Cons1)
  qed (auto simp: list_all2_Cons1)
qed auto

lemma fold_collect_list:
  "list_all2 (\<lambda>x z. f x = Inr z) xs ys \<Longrightarrow> fold_result (\<lambda>x acc. rbind (f x) (\<lambda>y. Inr (acc @ [y]))) xs [] = Inr ys"
  by (simp add: fold_collect)

subsection \<open>Strings that describe a configuration\<close>

definition join_with :: "char \<Rightarrow> string list \<Rightarrow> string" where
  "join_with d xs = (case xs of [] \<Rightarrow> [] | x # xs \<Rightarrow> x @ concat (map (\<lambda>y. d # y) xs))"

definition show_int :: "int \<Rightarrow> string" where
  "show_int c = (if c < 0 then CHR ''-'' # show_nat (nat (- c)) else show_nat (nat c))"

text \<open>The ways to write an entry: the concurrency may be left out when it is 1, the groups when there are none, which may also
  be written \<open>*\<close>.\<close>

definition renders :: "config_entry \<Rightarrow> string \<Rightarrow> bool" where
  "renders e s \<longleftrightarrow>
     (let segs = join_with (CHR '','') (segments e); conc = show_int (concurrency e)
      in groups e = [] \<and> concurrency e = 1 \<and> s = segs
         \<or> groups e = [] \<and> s = segs @ '':'' @ conc
         \<or> groups e = [] \<and> s = segs @ '':'' @ conc @ '':*''
         \<or> groups e \<noteq> [] \<and> s = segs @ '':'' @ conc @ '':'' @ print_ranges (find_ranges (groups e)))"

text \<open>Names are not empty and without the delimiters, in ascending order; the numbers are in range.\<close>

definition entry_ok :: "config_entry \<Rightarrow> bool" where
  "entry_ok e \<longleftrightarrow> segments e \<noteq> [] \<and> sorted_wrt (<) (segments e)
     \<and> (\<forall>n \<in> set (segments e). n \<noteq> [] \<and> set n \<inter> {CHR '','', CHR '':'', CHR '';''} = {})
     \<and> int_min \<le> concurrency e \<and> concurrency e \<le> int_max \<and> sorted (groups e) \<and> (\<forall>g \<in> set (groups e). int g < int_max)"

lemma split_join_with:
  assumes "\<forall>x \<in> set xs. d \<notin> set x \<and> x \<noteq> []"
  shows "split_on d (join_with d xs) = xs"
proof (cases xs)
  case (Cons x ys)
  then show ?thesis using assms split_on_join [of d x ys "\<lambda>y. y"] by (simp add: join_with_def)
qed (simp add: join_with_def)

lemma join_with_chars: "set (join_with d xs) \<subseteq> insert d (\<Union>x \<in> set xs. set x)" "xs \<noteq> [] \<Longrightarrow> hd xs \<noteq> [] \<Longrightarrow> join_with d xs \<noteq> []"
  by (cases xs; auto simp: join_with_def)+

lemma parse_segments_join:
  assumes "entry_ok e"
  shows "parse_segments (join_with (CHR '','') (segments e)) = segments e"
proof -
  have "split_on (CHR '','') (join_with (CHR '','') (segments e)) = segments e"
    using assms by (intro split_join_with) (auto simp: entry_ok_def)
  moreover have "sorted (segments e)" "distinct (segments e)" using assms by (auto simp: entry_ok_def strict_sorted_iff)
  ultimately show ?thesis by (simp add: parse_segments_def sorted_list_of_set.idem_if_sorted_distinct)
qed

lemma digit_not_delim: "is_digit c \<Longrightarrow> c \<noteq> CHR '':'' \<and> c \<noteq> CHR '';'' \<and> c \<noteq> CHR ''*''"
  by (auto simp: is_digit_def)

lemma show_int_chars: "CHR '':'' \<notin> set (show_int c)" "CHR '';'' \<notin> set (show_int c)" "show_int c \<noteq> []"
  using show_nat_digits [of "nat c"] show_nat_digits [of "nat (- c)"] digit_not_delim by (auto simp: show_int_def)

lemma print_ranges_chars:
  "CHR '':'' \<notin> set (print_ranges ps)" "CHR '';'' \<notin> set (print_ranges ps)" "CHR ''*'' \<notin> set (print_ranges ps)" "ps \<noteq> [] \<Longrightarrow> print_ranges ps \<noteq> []"
proof -
  have d: "CHR '':'' \<notin> set (show_nat n) \<and> CHR '';'' \<notin> set (show_nat n) \<and> CHR ''*'' \<notin> set (show_nat n)" for n
    using show_nat_digits [of n] digit_not_delim by blast
  have r: "CHR '':'' \<notin> set (print_range p) \<and> CHR '';'' \<notin> set (print_range p) \<and> CHR ''*'' \<notin> set (print_range p)" for p
    using d by (simp add: print_range_def)
  show "CHR '':'' \<notin> set (print_ranges ps)" "CHR '';'' \<notin> set (print_ranges ps)" "CHR ''*'' \<notin> set (print_ranges ps)"
    "ps \<noteq> [] \<Longrightarrow> print_ranges ps \<noteq> []"
    using r print_range_chars(2) by (cases ps; auto simp: print_ranges_def foldl_join)+
qed

lemma show_nat_take: "takeWhile is_digit (show_nat n) = show_nat n"
  using show_nat_digits [of n] takeWhile_eq_all_conv by blast

lemma read_number_show_int: "read_number (show_int c) = Some (c < 0, show_nat (nat \<bar>c\<bar>))"
proof (cases "c < 0")
  case True
  then show ?thesis by (simp add: read_number_def show_int_def is_blank_def Let_def show_nat_take)
next
  case False
  then show ?thesis using read_number_digits [OF show_nat_digits show_nat_nonempty, of "nat c"] by (simp add: show_int_def)
qed

lemma atoi_show_int: "int_min \<le> c \<Longrightarrow> c \<le> int_max \<Longrightarrow> atoi (show_int c) = Inr c"
  by (simp add: atoi_def read_number_show_int digits_value_show_nat Let_def)

lemma parse_groups_print:
  assumes "sorted gs" and "\<forall>g \<in> set gs. int g < int_max" and "gs \<noteq> []"
  shows "parse_groups (print_ranges (find_ranges gs)) = Inr gs"
proof -
  have "find_ranges gs \<noteq> []"
    using ranges_of_cover [of "sort gs"] assms(3) by (auto simp: find_ranges_def simp del: upt_Suc) (metis set_empty set_sort)
  then have "print_ranges (find_ranges gs) \<noteq> ''*''" using print_ranges_chars(3) [of "find_ranges gs"] by auto
  moreover have "parse_ints (print_ranges (find_ranges gs)) = Inr (map int gs)"
    using parse_print_values [OF assms(2)] assms(1) by (simp add: sorted_sort_id)
  ultimately show ?thesis by (simp add: parse_groups_def parse_groups_fold comp_def)
qed

lemma parse_entry_renders:
  assumes "entry_ok e" and "renders e s"
  shows "parse_entry s = Inr e" "CHR '';'' \<notin> set s" "s \<noteq> []"
proof -
  let ?segs = "join_with (CHR '','') (segments e)" and ?conc = "show_int (concurrency e)"
  have ok: "\<forall>n \<in> set (segments e). n \<noteq> [] \<and> set n \<inter> {CHR '','', CHR '':'', CHR '';''} = {}" "segments e \<noteq> []"
    using assms(1) by (simp_all add: entry_ok_def)
  have sc: "CHR '':'' \<notin> set ?segs" "CHR '';'' \<notin> set ?segs" "?segs \<noteq> []"
    using join_with_chars(1) [of "CHR '',''" "segments e"] join_with_chars(2) [of "segments e" "CHR '',''"] ok by fastforce+
  note pc = print_ranges_chars [of "find_ranges (groups e)"]
  have a: "atoi ?conc = Inr (concurrency e)" using assms(1) by (intro atoi_show_int) (simp_all add: entry_ok_def)
  have split3: "split_on (CHR '':'') (?segs @ CHR '':'' # ?conc @ CHR '':'' # g) = [?segs, ?conc, g]" if "g \<noteq> []" "CHR '':'' \<notin> set g" for g
    using sc(1) show_int_chars(1) that by (simp add: split_on_delim split_on_single)
  have fr: "groups e \<noteq> [] \<Longrightarrow> print_ranges (find_ranges (groups e)) \<noteq> []"
    using split_print_ranges [of "find_ranges (groups e)"] ranges_of_cover [of "sort (groups e)"]
    by (intro pc(4)) (auto simp: find_ranges_def simp del: upt_Suc, metis set_empty set_sort)
  have gs: "groups e \<noteq> [] \<Longrightarrow> parse_groups (print_ranges (find_ranges (groups e))) = Inr (groups e)"
    using assms(1) by (intro parse_groups_print) (simp_all add: entry_ok_def)
  consider "groups e = []" "concurrency e = 1" "s = ?segs" | "groups e = []" "s = ?segs @ CHR '':'' # ?conc"
    | "groups e = []" "s = ?segs @ CHR '':'' # ?conc @ CHR '':'' # ''*''"
    | "groups e \<noteq> []" "s = ?segs @ CHR '':'' # ?conc @ CHR '':'' # print_ranges (find_ranges (groups e))"
    using assms(2) by (auto simp: renders_def Let_def)
  then have "parse_entry s = Inr e \<and> CHR '';'' \<notin> set s \<and> s \<noteq> []"
  proof cases
    case 1
    then show ?thesis using sc parse_segments_join [OF assms(1)] by (cases e) (simp add: parse_entry_def split_on_single)
  next
    case 2
    then show ?thesis using sc a parse_segments_join [OF assms(1)] show_int_chars
      by (cases e) (simp add: parse_entry_def split_on_delim split_on_single)
  next
    case 3
    then show ?thesis using sc a parse_segments_join [OF assms(1)] show_int_chars split3 [of "''*''"]
      by (cases e) (simp add: parse_entry_def parse_groups_def)
  next
    case 4
    then show ?thesis using sc a parse_segments_join [OF assms(1)] show_int_chars split3 [OF fr pc(1)] gs pc(2)
      by (cases e) (simp add: parse_entry_def)
  qed
  then show "parse_entry s = Inr e" "CHR '';'' \<notin> set s" "s \<noteq> []" by blast+
qed

text \<open>C34. A configuration string is read as it is written: when every entry is written as its segment names with commas, its
  concurrency and its groups with colons between them, in any of the permitted abbreviations, and the entries with
  semicolons between them, parsing returns exactly these entries, with these names, concurrencies and groups.\<close>

theorem parse_config_roundtrip:
  assumes "list_all2 renders config entries" and "\<forall>e \<in> set config. entry_ok e"
  shows "parse_config (join_with (CHR '';'') entries) = Inr config"
proof -
  have "list_all2 (\<lambda>s e. parse_entry s = Inr e) entries config \<and> (\<forall>s \<in> set entries. CHR '';'' \<notin> set s \<and> s \<noteq> [])"
    using assms by (induction rule: list_all2_induct) (auto simp: parse_entry_renders(1) dest: parse_entry_renders(2,3))
  then show ?thesis by (simp add: parse_config_def split_join_with fold_collect_list)
qed

theorem parse_config_roundtrip_witness:
  "parse_config ''a,b:2:0-2;c''
     = Inr [\<lparr>segments = [''a'', ''b''], concurrency = 2, groups = [0, 1, 2]\<rparr>,
            \<lparr>segments = [''c''], concurrency = 1, groups = []\<rparr>]"
proof -
  let ?config = "[\<lparr>segments = [''a'', ''b''], concurrency = 2, groups = [0, 1, 2]\<rparr>, \<lparr>segments = [''c''], concurrency = 1, groups = []\<rparr>]"
  have "print_ranges (find_ranges [0, 1, 2]) = ''0-2''" "show_int 2 = ''2''" by code_simp+
  then have "list_all2 renders ?config [''a,b:2:0-2'', ''c'']" by (simp add: renders_def join_with_def)
  moreover have "\<forall>e \<in> set ?config. entry_ok e" by (simp add: entry_ok_def int_min_def int_max_def)
  moreover have "join_with (CHR '';'') [''a,b:2:0-2'', ''c''] = ''a,b:2:0-2;c''" by (simp add: join_with_def)
  ultimately show ?thesis using parse_config_roundtrip [of ?config "[''a,b:2:0-2'', ''c'']"] by simp
qed

text \<open>An entry with more than three fields, or with a negative group, is rejected.\<close>

lemma parse_entry_rejects:
  "3 < length (split_on (CHR '':'') entry) \<Longrightarrow> \<exists>m. parse_entry entry = Inl (Std_runtime_error m)"
  "split_on (CHR '':'') entry = [segs, conc, grps] \<Longrightarrow> parse_ints grps = Inr ints \<Longrightarrow> i \<in> set ints \<Longrightarrow> i < 0 \<Longrightarrow> grps \<noteq> ''*'' \<Longrightarrow>
   \<exists>m. parse_entry entry = Inl (Check_failed m)"
  by (auto simp: parse_entry_def parse_groups_def parse_groups_fold split: list.splits)

end
