(* ===== verification/Bitmaps.thy ===== *)
theory Bitmaps
  imports Parsing
begin

section \<open>Bitmaps and CPU sets\<close>

text \<open>
  \<^verbatim>\<open>src/public/core/bitmap.cpp\<close>: \<open>Bitmap\<close>, \<open>CpuSet\<close> and \<open>RoundRobinCpuSet\<close>. The bits themselves
  are kept by hwloc, whose functions are a parameter: the record \<open>'b hwloc\<close>. A \<open>Bitmap\<close> owns its
  hwloc bitmap and copies it, so it is a value of type \<open>'b\<close>. The abstraction \<open>bits\<close> and the
  documented behaviour of hwloc are collected in \<open>hwloc_laws\<close>.
\<close>

record 'b hwloc =
  hw_alloc :: 'b
  hw_set :: "'b \<Rightarrow> nat \<Rightarrow> int \<times> 'b"
  hw_clr :: "'b \<Rightarrow> nat \<Rightarrow> int \<times> 'b"
  hw_only :: "'b \<Rightarrow> nat \<Rightarrow> int \<times> 'b"
  hw_zero :: "'b \<Rightarrow> 'b"
  hw_next :: "'b \<Rightarrow> int \<Rightarrow> int"
  hw_weight :: "'b \<Rightarrow> int"
  hw_isset :: "'b \<Rightarrow> nat \<Rightarrow> int"
  hw_iszero :: "'b \<Rightarrow> int"
  hw_and :: "'b \<Rightarrow> 'b \<Rightarrow> int \<times> 'b"
  hw_or :: "'b \<Rightarrow> 'b \<Rightarrow> int \<times> 'b"
  hw_isincluded :: "'b \<Rightarrow> 'b \<Rightarrow> int"

subsection \<open>Conversions\<close>

definition to_u32 :: "int \<Rightarrow> nat" where
  "to_u32 x = nat (x mod 2 ^ 32)"

definition to_i32 :: "nat \<Rightarrow> int" where
  "to_i32 n = (let m = int n mod 2 ^ 32 in if m < 2 ^ 31 then m else m - 2 ^ 32)"

lemma to_i32_u32 [simp]:
  assumes "- (2 ^ 31) \<le> x" and "x < 2 ^ 31"
  shows "to_i32 (to_u32 x) = x"
proof -
  have "x mod 2 ^ 32 = (if 0 \<le> x then x else x + 2 ^ 32)"
  proof (cases "0 \<le> x")
    case False
    have "x mod 2 ^ 32 = (x + 2 ^ 32) mod 2 ^ 32" by simp
    also have "\<dots> = x + 2 ^ 32" using False assms(1) by (intro mod_pos_pos_trivial) auto
    finally show ?thesis using False by simp
  qed (use assms(2) in \<open>simp add: mod_pos_pos_trivial\<close>)
  then show ?thesis using assms by (simp add: to_i32_def to_u32_def Let_def mod_pos_pos_trivial)
qed

lemma to_u32_nat [simp]: "i < 2 ^ 32 \<Longrightarrow> to_u32 (int i) = i"
  by (simp add: to_u32_def)

subsection \<open>Single bits\<close>

definition hw_check :: "int \<times> 'b \<Rightarrow> 'b result" where
  "hw_check r = (if fst r \<noteq> -1 then Inr (snd r) else Inl (Check_failed ''rc != -1''))"

definition bm_on :: "'b hwloc \<Rightarrow> 'b \<Rightarrow> nat \<Rightarrow> 'b result" where
  "bm_on hw b i = hw_check (hw_set hw b i)"

definition bm_off :: "'b hwloc \<Rightarrow> 'b \<Rightarrow> nat \<Rightarrow> 'b result" where
  "bm_off hw b i = hw_check (hw_clr hw b i)"

definition bm_only :: "'b hwloc \<Rightarrow> 'b \<Rightarrow> nat \<Rightarrow> 'b result" where
  "bm_only hw b i = hw_check (hw_only hw b i)"

definition bm_zero :: "'b hwloc \<Rightarrow> 'b \<Rightarrow> 'b" where
  "bm_zero hw b = hw_zero hw b"

definition bm_next :: "'b hwloc \<Rightarrow> 'b \<Rightarrow> int \<Rightarrow> nat" where
  "bm_next hw b prev = to_u32 (hw_next hw b prev)"

definition bm_first :: "'b hwloc \<Rightarrow> 'b \<Rightarrow> nat" where
  "bm_first hw b = bm_next hw b (-1)"

definition bm_weight :: "'b hwloc \<Rightarrow> 'b \<Rightarrow> int result" where
  "bm_weight hw b =
     (if hw_weight hw b \<noteq> -1 then Inr (hw_weight hw b) else Inl (Check_failed ''rc != -1''))"

definition bm_is_set :: "'b hwloc \<Rightarrow> 'b \<Rightarrow> int \<Rightarrow> bool result" where
  "bm_is_set hw b cpu_id =
     (if 0 \<le> cpu_id then Inr (hw_isset hw b (nat cpu_id) \<noteq> 0) else Inl (Check_failed ''cpu_id >= 0''))"

definition bm_empty :: "'b hwloc \<Rightarrow> 'b \<Rightarrow> bool" where
  "bm_empty hw b \<longleftrightarrow> hw_iszero hw b = 1"

definition set_intersect :: "'b hwloc \<Rightarrow> 'b \<Rightarrow> 'b \<Rightarrow> 'b result" where
  "set_intersect hw a b = hw_check (hw_and hw a b)"

definition set_union :: "'b hwloc \<Rightarrow> 'b \<Rightarrow> 'b \<Rightarrow> 'b result" where
  "set_union hw a b = hw_check (hw_or hw a b)"

definition bm_contains :: "'b hwloc \<Rightarrow> 'b \<Rightarrow> 'b \<Rightarrow> bool" where
  "bm_contains hw b sub_bitmap \<longleftrightarrow> hw_isincluded hw sub_bitmap b \<noteq> 0"

subsection \<open>Loops over the bits\<close>

text \<open>The calls that \<open>for_each_bit\<close> makes, as pairs of the running index and the bit.\<close>

fun for_each_loop :: "'b hwloc \<Rightarrow> 'b \<Rightarrow> nat \<Rightarrow> nat \<Rightarrow> int \<Rightarrow> (nat \<times> nat) list" where
  "for_each_loop hw b 0 i prev = []"
| "for_each_loop hw b (Suc n) i prev =
     (let prev = to_i32 (bm_next hw b prev) in (i, to_u32 prev) # for_each_loop hw b n (Suc i) prev)"

definition for_each_bit :: "'b hwloc \<Rightarrow> 'b \<Rightarrow> (nat \<times> nat) list result" where
  "for_each_bit hw b = rbind (bm_weight hw b) (\<lambda>count. Inr (for_each_loop hw b (nat count) 0 (-1)))"

definition bm_append :: "'b hwloc \<Rightarrow> 'b \<Rightarrow> 'b \<Rightarrow> 'b result" where
  "bm_append hw a b = rbind (for_each_bit hw b) (\<lambda>calls. fold_result (\<lambda>(idx, bit) a. bm_on hw a bit) calls a)"

text \<open>The \<^verbatim>\<open>hwloc_bitmap_foreach_begin\<close> loop of \<open>vec\<close>.\<close>

partial_function (option) vec_from :: "'b hwloc \<Rightarrow> 'b \<Rightarrow> int \<Rightarrow> nat list option" where
  [code]: "vec_from hw b index =
     (if index = -1 then Some []
      else Option.bind (vec_from hw b (hw_next hw b index)) (\<lambda>v. Some (to_u32 index # v)))"

definition bm_vec :: "'b hwloc \<Rightarrow> 'b \<Rightarrow> nat list option" where
  "bm_vec hw b = vec_from hw b (hw_next hw b (-1))"

definition bm_str :: "'b hwloc \<Rightarrow> 'b \<Rightarrow> string option" where
  "bm_str hw b = map_option (\<lambda>v. print_ranges (find_ranges v)) (bm_vec hw b)"

definition bitmap_of_id :: "'b hwloc \<Rightarrow> int \<Rightarrow> 'b result" where
  "bitmap_of_id hw cpu_id = bm_on hw (hw_alloc hw) (to_u32 cpu_id)"

definition bitmap_of_str :: "'b hwloc \<Rightarrow> string \<Rightarrow> 'b result" where
  "bitmap_of_str hw cpu_str =
     rbind (parse_ints cpu_str) (\<lambda>cpus. fold_result (\<lambda>cpu b. bm_on hw b (to_u32 cpu)) cpus (hw_alloc hw))"

subsection \<open>Taking bits away\<close>

fun pop_loop :: "'b hwloc \<Rightarrow> nat \<Rightarrow> int \<Rightarrow> 'b \<Rightarrow> 'b \<Rightarrow> ('b \<times> 'b) result" where
  "pop_loop hw 0 prev rv b = Inr (rv, b)"
| "pop_loop hw (Suc n) prev rv b =
     (let p = bm_next hw b prev
      in rbind (bm_on hw rv p) (\<lambda>rv. rbind (bm_off hw b p) (\<lambda>b. pop_loop hw n (to_i32 p) rv b)))"

definition bm_pop :: "'b hwloc \<Rightarrow> nat \<Rightarrow> 'b \<Rightarrow> ('b \<times> 'b) result" where
  "bm_pop hw nbits b =
     rbind (bm_weight hw b) (\<lambda>w.
       if int nbits \<le> w then pop_loop hw nbits (-1) (hw_alloc hw) b
       else Inl (Check_failed ''pop requesting more bits than set in bitmap''))"

fun split_loop :: "'b hwloc \<Rightarrow> nat \<Rightarrow> nat \<Rightarrow> int \<Rightarrow> int \<Rightarrow> 'b \<Rightarrow> 'b list result" where
  "split_loop hw 0 i div' rem' copy = Inr []"
| "split_loop hw (Suc n) i div' rem' copy =
     (let count = div' + (if int i < rem' then 1 else 0)
      in rbind (if count \<noteq> 0 then bm_pop hw (nat count) copy else Inr (hw_alloc hw, copy)) (\<lambda>(v, copy).
         rbind (split_loop hw n (Suc i) div' rem' copy) (\<lambda>vs. Inr (v # vs))))"

definition bm_split :: "'b hwloc \<Rightarrow> int \<Rightarrow> 'b \<Rightarrow> 'b list result" where
  "bm_split hw nways b =
     (if nways > 0
      then rbind (bm_weight hw b) (\<lambda>w. split_loop hw (nat nways) 0 (w div nways) (w mod nways) b)
      else Inl (Check_failed ''nways > 0''))"

subsection \<open>Round robin\<close>

record 'b round_robin =
  rr_bits :: 'b
  rr_prev :: int
  rr_index :: int

definition rr_new :: "'b \<Rightarrow> 'b round_robin" where
  "rr_new b = \<lparr>rr_bits = b, rr_prev = -1, rr_index = -1\<rparr>"

partial_function (option) rr_next :: "'b hwloc \<Rightarrow> 'b round_robin \<Rightarrow> ((int \<times> int) \<times> 'b round_robin) option" where
  [code]: "rr_next hw r =
     (let id = hw_next hw (rr_bits r) (rr_prev r); r = r\<lparr>rr_prev := id, rr_index := rr_index r + 1\<rparr>
      in if id = -1 then rr_next hw (r\<lparr>rr_index := -1\<rparr>)
         else Some ((rr_index r, id), r))"

definition rr_next_index :: "'b hwloc \<Rightarrow> 'b round_robin \<Rightarrow> (int \<times> 'b round_robin) option" where
  "rr_next_index hw r = map_option (\<lambda>(p, r). (fst p, r)) (rr_next hw r)"

definition rr_next_id :: "'b hwloc \<Rightarrow> 'b round_robin \<Rightarrow> (int \<times> 'b round_robin) option" where
  "rr_next_id hw r = map_option (\<lambda>(p, r). (snd p, r)) (rr_next hw r)"

definition rr_next_binding :: "'b hwloc \<Rightarrow> 'b round_robin \<Rightarrow> ('b result \<times> 'b round_robin) option" where
  "rr_next_binding hw r =
     map_option (\<lambda>(id, r). (bm_only hw (hw_alloc hw) (to_u32 id), r)) (rr_next_id hw r)"

definition rr_reset :: "'b round_robin \<Rightarrow> 'b round_robin" where
  "rr_reset r = r\<lparr>rr_prev := -1, rr_index := -1\<rparr>"

subsection \<open>What hwloc promises\<close>

text \<open>Bitmaps are finite, their indices fit an \<^verbatim>\<open>int\<close>, and allocations inside hwloc succeed.\<close>

definition hwloc_laws :: "'b hwloc \<Rightarrow> ('b \<Rightarrow> nat set) \<Rightarrow> bool" where
  "hwloc_laws hw bits \<longleftrightarrow>
     (\<forall>b. finite (bits b) \<and> (\<forall>i \<in> bits b. i < 2 ^ 31))
     \<and> bits (hw_alloc hw) = {}
     \<and> (\<forall>b i. i < 2 ^ 31 \<longrightarrow> fst (hw_set hw b i) \<noteq> -1 \<and> bits (snd (hw_set hw b i)) = insert i (bits b))
     \<and> (\<forall>b i. i < 2 ^ 31 \<longrightarrow> fst (hw_clr hw b i) \<noteq> -1 \<and> bits (snd (hw_clr hw b i)) = bits b - {i})
     \<and> (\<forall>b i. i < 2 ^ 31 \<longrightarrow> fst (hw_only hw b i) \<noteq> -1 \<and> bits (snd (hw_only hw b i)) = {i})
     \<and> (\<forall>b. bits (hw_zero hw b) = {})
     \<and> (\<forall>b p. -1 \<le> p \<longrightarrow> hw_next hw b p =
          (if \<exists>i \<in> bits b. p < int i then int (Min {i \<in> bits b. p < int i}) else -1))
     \<and> (\<forall>b. hw_weight hw b = int (card (bits b)))
     \<and> (\<forall>b i. hw_isset hw b i \<noteq> 0 \<longleftrightarrow> i \<in> bits b)
     \<and> (\<forall>b. hw_iszero hw b = 1 \<longleftrightarrow> bits b = {})
     \<and> (\<forall>a b. fst (hw_and hw a b) \<noteq> -1 \<and> bits (snd (hw_and hw a b)) = bits a \<inter> bits b)
     \<and> (\<forall>a b. fst (hw_or hw a b) \<noteq> -1 \<and> bits (snd (hw_or hw a b)) = bits a \<union> bits b)
     \<and> (\<forall>a b. hw_isincluded hw a b \<noteq> 0 \<longleftrightarrow> bits a \<subseteq> bits b)"

lemma hwloc_lawsD:
  assumes "hwloc_laws hw bits"
  shows "finite (bits b)" "i \<in> bits b \<Longrightarrow> i < 2 ^ 31" "bits (hw_alloc hw) = {}"
    "i < 2 ^ 31 \<Longrightarrow> fst (hw_set hw b i) \<noteq> -1 \<and> bits (snd (hw_set hw b i)) = insert i (bits b)"
    "i < 2 ^ 31 \<Longrightarrow> fst (hw_clr hw b i) \<noteq> -1 \<and> bits (snd (hw_clr hw b i)) = bits b - {i}"
    "i < 2 ^ 31 \<Longrightarrow> fst (hw_only hw b i) \<noteq> -1 \<and> bits (snd (hw_only hw b i)) = {i}"
    "bits (hw_zero hw b) = {}"
    "-1 \<le> p \<Longrightarrow> hw_next hw b p =
       (if \<exists>i \<in> bits b. p < int i then int (Min {i \<in> bits b. p < int i}) else -1)"
    "hw_weight hw b = int (card (bits b))" "hw_isset hw b i \<noteq> 0 \<longleftrightarrow> i \<in> bits b"
    "hw_iszero hw b = 1 \<longleftrightarrow> bits b = {}"
    "fst (hw_and hw a b) \<noteq> -1 \<and> bits (snd (hw_and hw a b)) = bits a \<inter> bits b"
    "fst (hw_or hw a b) \<noteq> -1 \<and> bits (snd (hw_or hw a b)) = bits a \<union> bits b"
    "hw_isincluded hw a b \<noteq> 0 \<longleftrightarrow> bits a \<subseteq> bits b"
  using assms unfolding hwloc_laws_def by (elim conjE, simp)+

abbreviation bit_list :: "('b \<Rightarrow> nat set) \<Rightarrow> 'b \<Rightarrow> nat list" where
  "bit_list bits b \<equiv> sorted_list_of_set (bits b)"

lemma card_bits_le:
  assumes "hwloc_laws hw bits"
  shows "card (bits b) \<le> 2 ^ 31"
proof -
  have "bits b \<subseteq> {..<2 ^ 31}" using hwloc_lawsD(2) [OF assms] by blast
  from card_mono [OF finite_lessThan this] show ?thesis unfolding card_lessThan .
qed

text \<open>The bits above a position, in ascending order.\<close>

definition above :: "nat set \<Rightarrow> int \<Rightarrow> nat list" where
  "above S p = sorted_list_of_set {i \<in> S. p < int i}"

lemma above_start: "above S (-1) = sorted_list_of_set S"
  by (simp add: above_def)

lemma set_above: "finite S \<Longrightarrow> set (above S p) = {i \<in> S. p < int i}"
  by (simp add: above_def)

lemma above_Cons:
  assumes "finite S" and "above S p = x # xs"
  shows "x \<in> S" "p < int x" "Min {i \<in> S. p < int i} = x" "above S (int x) = xs" "above (S - {x}) (int x) = xs"
proof -
  let ?T = "{i \<in> S. p < int i}"
  have fin: "finite ?T" using assms(1) by simp
  have ne: "?T \<noteq> {}" using assms(2) by (metis above_def sorted_list_of_set_empty list.distinct(1))
  have eq: "x = Min ?T" "xs = sorted_list_of_set (?T - {Min ?T})"
    using assms(2) sorted_list_of_set_nonempty [OF fin ne] unfolding above_def by (auto simp only: list.inject)
  then show "x \<in> S" "p < int x" "Min ?T = x" using Min_in [OF fin ne] by auto
  have "{i \<in> S. int x < int i} = ?T - {Min ?T}" "{i \<in> S - {x}. int x < int i} = ?T - {Min ?T}"
    using eq(1) Min_in [OF fin ne] Min_le [OF fin] by (auto simp: order.strict_iff_order)
  then show "above S (int x) = xs" "above (S - {x}) (int x) = xs" by (simp_all add: above_def eq(2))
qed

lemma hw_next_above:
  assumes "hwloc_laws hw bits" and "-1 \<le> p"
  shows "hw_next hw b p = (case above (bits b) p of [] \<Rightarrow> -1 | x # _ \<Rightarrow> int x)"
proof (cases "above (bits b) p")
  case Nil
  then have "{i \<in> bits b. p < int i} = {}"
    using set_above [OF hwloc_lawsD(1) [OF assms(1)], of b p] by simp
  then have "\<not> (\<exists>i \<in> bits b. p < int i)" by blast
  then show ?thesis using hwloc_lawsD(8) [OF assms, of b] Nil by simp
next
  case (Cons x xs)
  note a = above_Cons [OF hwloc_lawsD(1) [OF assms(1)] Cons]
  then have "\<exists>i \<in> bits b. p < int i" by blast
  then show ?thesis using hwloc_lawsD(8) [OF assms, of b] a(3) Cons by simp
qed

text \<open>Moving to the next bit.\<close>

lemma next_Cons:
  assumes "hwloc_laws hw bits" and "-1 \<le> p" and "above (bits b) p = x # xs"
  shows "hw_next hw b p = int x" "bm_next hw b p = x" "to_i32 x = int x" "x < 2 ^ 31"
proof -
  note a = above_Cons [OF hwloc_lawsD(1) [OF assms(1)] assms(3)]
  show x: "x < 2 ^ 31" using hwloc_lawsD(2) [OF assms(1) a(1)] .
  show n: "hw_next hw b p = int x" using hw_next_above [OF assms(1,2)] assms(3) by simp
  show "bm_next hw b p = x" using x by (simp add: bm_next_def n)
  show "to_i32 x = int x" using x by (simp add: to_i32_def Let_def)
qed

lemma for_each_loop_eq:
  assumes "hwloc_laws hw bits"
  shows "-1 \<le> p \<Longrightarrow> n \<le> length (above (bits b) p) \<Longrightarrow>
    for_each_loop hw b n i p = zip [i..<i + n] (take n (above (bits b) p))"
proof (induction n arbitrary: i p)
  case (Suc n)
  then obtain x xs where x: "above (bits b) p = x # xs" by (cases "above (bits b) p") auto
  note nx = next_Cons [OF assms Suc.prems(1) x]
  have "above (bits b) (int x) = xs" using above_Cons(4) [OF hwloc_lawsD(1) [OF assms] x] .
  with Suc.IH [of "int x" "Suc i"] Suc.prems(2) x
  have "for_each_loop hw b n (Suc i) (int x) = zip [Suc i..<Suc i + n] (take n xs)" by simp
  then show ?case using nx x by (simp add: upt_conv_Cons del: upt_Suc)
qed simp

lemma for_each_bit_eq:
  assumes "hwloc_laws hw bits"
  shows "for_each_bit hw b = Inr (zip [0..<card (bits b)] (sorted_list_of_set (bits b)))"
proof -
  have "length (above (bits b) (-1)) = card (bits b)" by (simp add: above_start)
  then show ?thesis
    using for_each_loop_eq [OF assms, of "-1" "card (bits b)" b 0] hwloc_lawsD(9) [OF assms, of b]
    by (simp add: for_each_bit_def bm_weight_def above_start)
qed

lemma vec_from_eq:
  assumes "hwloc_laws hw bits"
  shows "-1 \<le> p \<Longrightarrow> vec_from hw b (hw_next hw b p) = Some (above (bits b) p)"
proof (induction "length (above (bits b) p)" arbitrary: p)
  case 0
  then show ?case using hw_next_above [OF assms, of p b] by (simp add: vec_from.simps)
next
  case (Suc n)
  then obtain x xs where x: "above (bits b) p = x # xs" by (cases "above (bits b) p") auto
  note nx = next_Cons [OF assms Suc.prems x]
  have "above (bits b) (int x) = xs" using above_Cons(4) [OF hwloc_lawsD(1) [OF assms] x] .
  then have "vec_from hw b (hw_next hw b (int x)) = Some xs" using Suc.hyps(1) [of "int x"] Suc.hyps(2) x by simp
  then show ?case using nx x by (simp add: vec_from.simps [of hw b "int x"])
qed

lemma bm_vec_eq: "hwloc_laws hw bits \<Longrightarrow> bm_vec hw b = Some (sorted_list_of_set (bits b))"
  using vec_from_eq [of hw bits "-1" b] by (simp add: bm_vec_def above_start)

subsection \<open>Pop and split\<close>

lemma bm_on_ok:
  assumes "hwloc_laws hw bits" and "i < 2 ^ 31"
  shows "\<exists>b'. bm_on hw b i = Inr b' \<and> bits b' = insert i (bits b)"
  using hwloc_lawsD(4) [OF assms(1), of i b] assms(2) by (simp add: bm_on_def hw_check_def)

lemma bm_off_ok:
  assumes "hwloc_laws hw bits" and "i < 2 ^ 31"
  shows "\<exists>b'. bm_off hw b i = Inr b' \<and> bits b' = bits b - {i}"
  using hwloc_lawsD(5) [OF assms(1), of i b] assms(2) by (simp add: bm_off_def hw_check_def)

lemma pop_loop_ok:
  assumes "hwloc_laws hw bits"
  shows "-1 \<le> p \<Longrightarrow> n \<le> length (above (bits b) p) \<Longrightarrow>
    \<exists>rv' b'. pop_loop hw n p rv b = Inr (rv', b') \<and> bits rv' = bits rv \<union> set (take n (above (bits b) p))
      \<and> bits b' = bits b - set (take n (above (bits b) p))"
proof (induction n arbitrary: p rv b)
  case (Suc n)
  then obtain x xs where x: "above (bits b) p = x # xs" by (cases "above (bits b) p") auto
  note nx = next_Cons [OF assms Suc.prems(1) x]
  obtain rv1 where rv1: "bm_on hw rv x = Inr rv1" "bits rv1 = insert x (bits rv)"
    using bm_on_ok [OF assms nx(4)] by blast
  obtain b1 where b1: "bm_off hw b x = Inr b1" "bits b1 = bits b - {x}"
    using bm_off_ok [OF assms nx(4)] by blast
  have ab: "above (bits b1) (int x) = xs"
    using above_Cons(5) [OF hwloc_lawsD(1) [OF assms] x] b1(2) by simp
  obtain rv' b' where "pop_loop hw n (int x) rv1 b1 = Inr (rv', b')"
    "bits rv' = bits rv1 \<union> set (take n xs)" "bits b' = bits b1 - set (take n xs)"
    using Suc.IH [of "int x" b1 rv1] Suc.prems(2) x ab by auto
  then show ?case using nx rv1 b1 x by auto
qed simp

lemma sorted_list_of_set_drop:
  assumes "finite S"
  shows "sorted_list_of_set (S - set (take n (sorted_list_of_set S))) = drop n (sorted_list_of_set S)"
proof -
  let ?L = "sorted_list_of_set S"
  have "set (take n ?L) \<inter> set (drop n ?L) = {}" by (rule set_take_disj_set_drop_if_distinct) simp_all
  then have "set ?L - set (take n ?L) = set (drop n ?L)"
    using set_append [of "take n ?L" "drop n ?L"] by (auto simp del: set_append)
  then have "S - set (take n ?L) = set (drop n ?L)" using assms by simp
  then show ?thesis by (simp add: sorted_list_of_set.idem_if_sorted_distinct sorted_wrt_drop)
qed

lemma sorted_list_of_set_take:
  "finite S \<Longrightarrow> sorted_list_of_set (set (take n (sorted_list_of_set S))) = take n (sorted_list_of_set S)"
  by (simp add: sorted_list_of_set.idem_if_sorted_distinct sorted_wrt_take)

text \<open>Popping moves the lowest bits.\<close>

lemma bm_pop_ok:
  assumes "hwloc_laws hw bits" and "n \<le> card (bits b)"
  obtains rv b' where "bm_pop hw n b = Inr (rv, b')"
    "sorted_list_of_set (bits rv) = take n (sorted_list_of_set (bits b))"
    "sorted_list_of_set (bits b') = drop n (sorted_list_of_set (bits b))"
proof -
  let ?L = "sorted_list_of_set (bits b)"
  note fin = hwloc_lawsD(1) [OF assms(1)]
  obtain rv b' where "pop_loop hw n (-1) (hw_alloc hw) b = Inr (rv, b')"
    "bits rv = set (take n ?L)" "bits b' = bits b - set (take n ?L)"
    using pop_loop_ok [OF assms(1), of "-1" n b "hw_alloc hw"] assms(2) hwloc_lawsD(3) [OF assms(1)]
    by (auto simp: above_start)
  then show ?thesis
    using that [of rv b'] assms(2) hwloc_lawsD(9) [OF assms(1), of b]
      sorted_list_of_set_drop [OF fin [of b], of n] sorted_list_of_set_take [OF fin [of b], of n]
    by (simp add: bm_pop_def bm_weight_def)
qed

lemma bm_pop_error:
  "hwloc_laws hw bits \<Longrightarrow> card (bits b) < n \<Longrightarrow>
   bm_pop hw n b = Inl (Check_failed ''pop requesting more bits than set in bitmap'')"
  using hwloc_lawsD(9) [of hw bits b] by (simp add: bm_pop_def bm_weight_def)

lemma pop_or_empty:
  assumes "hwloc_laws hw bits" and "0 \<le> c" and "nat c \<le> card (bits b)"
  obtains v b1 where "(if c \<noteq> 0 then bm_pop hw (nat c) b else Inr (hw_alloc hw, b)) = Inr (v, b1)"
    "sorted_list_of_set (bits v) = take (nat c) (sorted_list_of_set (bits b))"
    "sorted_list_of_set (bits b1) = drop (nat c) (sorted_list_of_set (bits b))"
proof (cases "c = 0")
  case True
  then show ?thesis using that [of "hw_alloc hw" b] hwloc_lawsD(3) [OF assms(1)] by simp
next
  case False
  then show ?thesis using bm_pop_ok [OF assms(1,3)] that by auto
qed

lemma split_loop_ok:
  assumes "hwloc_laws hw bits" and "0 \<le> d"
  shows "card (bits b) = (\<Sum>k < n. nat d + (if int (i + k) < r then 1 else 0)) \<Longrightarrow>
    \<exists>vs. split_loop hw n i d r b = Inr vs \<and> length vs = n
      \<and> concat (map (\<lambda>v. sorted_list_of_set (bits v)) vs) = sorted_list_of_set (bits b)
      \<and> (\<forall>k < n. card (bits (vs ! k)) = nat d + (if int (i + k) < r then 1 else 0))"
proof (induction n arbitrary: i b)
  case 0
  then show ?case using hwloc_lawsD(1) [OF assms(1), of b] by simp
next
  case (Suc n)
  let ?c = "nat d + (if int i < r then 1 else 0)"
  have sum: "card (bits b) = ?c + (\<Sum>k < n. nat d + (if int (Suc i + k) < r then 1 else 0))"
    using Suc.prems by (simp add: sum.lessThan_Suc_shift ac_simps del: sum.lessThan_Suc)
  have c: "nat (d + (if int i < r then 1 else 0)) = ?c" "0 \<le> d + (if int i < r then 1 else 0)"
    using assms(2) by auto
  then obtain v b1 where pop: "(if d + (if int i < r then 1 else 0) \<noteq> 0
        then bm_pop hw ?c b else Inr (hw_alloc hw, b)) = Inr (v, b1)"
    and v: "sorted_list_of_set (bits v) = take ?c (sorted_list_of_set (bits b))"
    and b1: "sorted_list_of_set (bits b1) = drop ?c (sorted_list_of_set (bits b))"
    using pop_or_empty [OF assms(1) c(2), of b] sum unfolding c(1) by (metis le_add1)
  have "card (bits b1) = (\<Sum>k < n. nat d + (if int (Suc i + k) < r then 1 else 0))"
    using sum arg_cong [OF b1, of length] by simp
  from Suc.IH [OF this] obtain vs where vs: "split_loop hw n (Suc i) d r b1 = Inr vs" "length vs = n"
    "concat (map (\<lambda>v. sorted_list_of_set (bits v)) vs) = sorted_list_of_set (bits b1)"
    "\<forall>k < n. card (bits (vs ! k)) = nat d + (if int (Suc i + k) < r then 1 else 0)" by blast
  have "card (bits v) = ?c" using sum arg_cong [OF v, of length] by simp
  then have "\<forall>k < Suc n. card (bits ((v # vs) ! k)) = nat d + (if int (i + k) < r then 1 else 0)"
    using vs(4) by (auto simp: nth_Cons split: nat.splits)
  moreover have "split_loop hw (Suc n) i d r b = Inr (v # vs)" unfolding split_loop.simps Let_def c(1) pop by (simp add: vs(1))
  ultimately show ?case using vs(2,3) v b1 by (intro exI [of _ "v # vs"]) simp
qed

lemma sum_ceil:
  assumes "0 < (n :: nat)"
  shows "(\<Sum>k < n. w div n + (if k < w mod n then 1 else 0)) = (w :: nat)"
proof -
  have "(\<Sum>k < n. if k < w mod n then 1 else (0 :: nat)) = card {k. k < n \<and> k < w mod n}"
    by (simp add: sum.If_cases Int_def conj_commute)
  also have "{k. k < n \<and> k < w mod n} = {..<w mod n}" using assms by (auto intro: less_trans)
  finally show ?thesis by (simp add: sum.distrib)
qed

lemma bm_split_ok:
  assumes "hwloc_laws hw bits" and "0 < n"
  obtains vs where "bm_split hw (int n) b = Inr vs" "length vs = n"
    "concat (map (\<lambda>v. sorted_list_of_set (bits v)) vs) = sorted_list_of_set (bits b)"
    "\<forall>k < n. card (bits (vs ! k)) = card (bits b) div n + (if k < card (bits b) mod n then 1 else 0)"
proof -
  let ?w = "card (bits b)"
  have eq: "nat (int ?w div int n) = ?w div n" "int ?w mod int n = int (?w mod n)"
    by (simp_all add: nat_div_distrib zmod_int)
  have sum: "?w = (\<Sum>k < n. nat (int ?w div int n) + (if int (0 + k) < int ?w mod int n then 1 else 0))"
    using sum_ceil [OF assms(2), of ?w] unfolding eq by simp
  have nonneg: "0 \<le> int ?w div int n" using assms(2) by (simp add: pos_imp_zdiv_nonneg_iff)
  obtain vs
    where "split_loop hw n 0 (int ?w div int n) (int ?w mod int n) b = Inr vs" "length vs = n"
      "concat (map (\<lambda>v. sorted_list_of_set (bits v)) vs) = sorted_list_of_set (bits b)"
      "\<forall>k < n. card (bits (vs ! k)) = ?w div n + (if k < ?w mod n then 1 else 0)"
    using split_loop_ok [OF assms(1) nonneg sum] unfolding eq add_0 of_nat_less_iff by blast
  moreover have "bm_split hw (int n) b = split_loop hw n 0 (int ?w div int n) (int ?w mod int n) b"
    using assms(2) hwloc_lawsD(9) [OF assms(1), of b] by (simp add: bm_split_def bm_weight_def)
  ultimately show ?thesis using that by simp
qed

subsection \<open>Strings\<close>

lemma on_all:
  assumes "hwloc_laws hw bits"
  shows "\<forall>i \<in> set is. i < 2 ^ 31 \<Longrightarrow>
    \<exists>b'. fold_result (\<lambda>cpu b. bm_on hw b (to_u32 cpu)) (map int is) b = Inr b' \<and> bits b' = bits b \<union> set is"
proof (induction "is" arbitrary: b)
  case (Cons i "is")
  then have "to_u32 (int i) = i" by simp
  moreover obtain b1 where "bm_on hw b i = Inr b1" "bits b1 = insert i (bits b)"
    using bm_on_ok [OF assms, of i b] Cons.prems by auto
  moreover obtain b2 where "fold_result (\<lambda>cpu b. bm_on hw b (to_u32 cpu)) (map int is) b1 = Inr b2"
    "bits b2 = bits b1 \<union> set is" using Cons.IH [of b1] Cons.prems by auto
  ultimately show ?case by simp
qed simp

lemma append_all:
  assumes "hwloc_laws hw bits"
  shows "\<forall>i \<in> set is. i < 2 ^ 31 \<Longrightarrow> length js = length is \<Longrightarrow>
    \<exists>b'. fold_result (\<lambda>(idx, bit) a. bm_on hw a bit) (zip js is) b = Inr b' \<and> bits b' = bits b \<union> set is"
proof (induction "is" arbitrary: b js)
  case (Cons i "is")
  obtain j js' where js: "js = j # js'" using Cons.prems(2) by (cases js) auto
  obtain b1 where "bm_on hw b i = Inr b1" "bits b1 = insert i (bits b)"
    using bm_on_ok [OF assms, of i b] Cons.prems by auto
  then show ?case using Cons.IH [of js' b1] Cons.prems js by auto
qed simp

lemma bm_append_ok:
  assumes "hwloc_laws hw bits"
  shows "\<exists>c. bm_append hw a b = Inr c \<and> bits c = bits a \<union> bits b"
proof -
  have fin: "finite (bits b)" by (rule hwloc_lawsD(1) [OF assms])
  have "\<forall>i \<in> set (sorted_list_of_set (bits b)). i < 2 ^ 31" using hwloc_lawsD(2) [OF assms] fin by simp
  from append_all [OF assms this, of "[0..<card (bits b)]" a] fin show ?thesis
    by (simp add: bm_append_def for_each_bit_eq [OF assms])
qed

text \<open>C18. A bitmap survives its string: constructing a bitmap from \<open>str()\<close> gives the same bits, for
  bitmaps without the bit at the largest \<^verbatim>\<open>int\<close>.\<close>

theorem bitmap_str_roundtrip:
  assumes "hwloc_laws hw bits" and "2 ^ 31 - 1 \<notin> bits b"
  shows "\<exists>s b'. bm_str hw b = Some s \<and> bitmap_of_str hw s = Inr b' \<and> bits b' = bits b"
proof -
  let ?L = "sorted_list_of_set (bits b)"
  have fin: "finite (bits b)" by (rule hwloc_lawsD(1) [OF assms(1)])
  have lim: "\<forall>i \<in> set ?L. i < 2 ^ 31" using hwloc_lawsD(2) [OF assms(1)] fin by simp
  have "\<forall>i \<in> set ?L. int i < int_max"
  proof
    fix i assume i: "i \<in> set ?L"
    then have "i < 2 ^ 31" "i \<noteq> 2 ^ 31 - 1" using lim assms(2) fin by auto
    then show "int i < int_max" by (simp add: int_max_def)
  qed
  then have "parse_ints (print_ranges (find_ranges ?L)) = Inr (map int ?L)"
    using parse_print_values by (metis sorted_sort_id sorted_list_of_set.sorted_sorted_key_list_of_set)
  then show ?thesis
    using on_all [OF assms(1) lim, of "hw_alloc hw"] hwloc_lawsD(3) [OF assms(1)] fin
    by (simp add: bm_str_def bm_vec_eq [OF assms(1)] bitmap_of_str_def)
qed

text \<open>Splitting a bitmap \<open>n\<close> ways always succeeds and partitions it into consecutive pieces: put
  together in order they give the bits in ascending order, and their sizes differ by at most one,
  the larger ones first.\<close>

lemma bitmap_split_partition:
  assumes "hwloc_laws hw bits" and "0 < n"
  shows "\<exists>vs. bm_split hw (int n) b = Inr vs \<and> length vs = n
     \<and> concat (map (\<lambda>v. sorted_list_of_set (bits v)) vs) = sorted_list_of_set (bits b)
     \<and> (\<forall>k < n. card (bits (vs ! k)) = card (bits b) div n + (if k < card (bits b) mod n then 1 else 0))"
  using bm_split_ok [OF assms, of b] by metis

subsection \<open>Round robin visits the bits in turn\<close>

lemma mod_window_card:
  assumes "n \<le> w"
  shows "card ((\<lambda>t. (j + t) mod w) ` {..<n}) = n"
proof -
  have "inj_on (\<lambda>t. (j + t) mod w) {..<n}"
  proof (rule inj_onI)
    fix s t assume st: "s \<in> {..<n}" "t \<in> {..<n}" "(j + s) mod w = (j + t) mod w"
    define a where "a = j mod w"
    have lt: "a < w" "s < w" "t < w" using st(1,2) assms by (auto simp: a_def)
    have win: "(a + u) mod w = (if a + u < w then a + u else a + u - w)" if "u < w" for u
      using lt(1) that by (simp add: le_mod_geq)
    have "(a + s) mod w = (a + t) mod w" using st(3) by (simp add: a_def mod_add_left_eq)
    then show "s = t" unfolding win [OF lt(2)] win [OF lt(3)] using lt by (simp split: if_splits)
  qed
  then show ?thesis by (simp add: card_image)
qed

lemma above_nth:
  assumes "finite S" and "j < length (sorted_list_of_set S)"
  shows "above S (int (sorted_list_of_set S ! j)) = drop (Suc j) (sorted_list_of_set S)"
  using assms(2)
proof (induction j)
  case 0
  then obtain x xs where x: "sorted_list_of_set S = x # xs" by (cases "sorted_list_of_set S") auto
  then show ?case using above_Cons(4) [OF assms(1), of "-1" x xs] by (simp add: above_start)
next
  case (Suc j)
  then have "above S (int (sorted_list_of_set S ! j)) = sorted_list_of_set S ! Suc j # drop (Suc (Suc j)) (sorted_list_of_set S)"
    by (simp add: Cons_nth_drop_Suc)
  from above_Cons(4) [OF assms(1) this] show ?case .
qed

text \<open>The state in which bit number \<open>j\<close> comes next.\<close>

definition rr_at :: "'b \<Rightarrow> nat list \<Rightarrow> nat \<Rightarrow> 'b round_robin" where
  "rr_at b L j = \<lparr>rr_bits = b, rr_prev = (if j = 0 then -1 else int (L ! (j - 1))), rr_index = int j - 1\<rparr>"

lemma rr_above:
  assumes "hwloc_laws hw bits" and "j \<le> card (bits b)" and "L = sorted_list_of_set (bits b)"
  shows "hw_next hw b (if j = 0 then -1 else int (L ! (j - 1))) = (if j < card (bits b) then int (L ! j) else -1)"
proof -
  have fin: "finite (bits b)" by (rule hwloc_lawsD(1) [OF assms(1)])
  have ab: "above (bits b) (if j = 0 then -1 else int (L ! (j - 1))) = drop j L"
    using above_nth [OF fin, of "j - 1"] assms(2,3) above_start [of "bits b"] by (cases j) auto
  have "-1 \<le> (if j = 0 then -1 else int (L ! (j - 1)))" by simp
  from hw_next_above [OF assms(1) this, of b] show ?thesis
    using assms(2,3) unfolding ab by (simp add: Cons_nth_drop_Suc [symmetric])
qed

lemma rr_next_at:
  assumes "hwloc_laws hw bits" and "j \<le> card (bits b)" and "L = sorted_list_of_set (bits b)" and "bits b \<noteq> {}"
  shows "rr_next hw (rr_at b L j) =
    (let k = (if j < card (bits b) then j else 0) in Some ((int k, int (L ! k)), rr_at b L (Suc k)))"
proof -
  have w: "0 < card (bits b)" using assms(4) hwloc_lawsD(1) [OF assms(1)] by (simp add: card_gt_0_iff)
  have lt: "rr_next hw (rr_at b L i) = Some ((int i, int (L ! i)), rr_at b L (Suc i))" if "i < card (bits b)" for i
    using rr_above [OF assms(1) less_imp_le [OF that] assms(3)] that
    by (subst rr_next.simps) (simp add: rr_at_def Let_def)
  show ?thesis
  proof (cases "j < card (bits b)")
    case False
    then have j: "j = card (bits b)" using assms(2) by simp
    have "rr_next hw (rr_at b L j) = rr_next hw (rr_at b L 0)"
      using rr_above [OF assms(1,2,3)] w j by (subst rr_next.simps) (simp add: rr_at_def Let_def)
    then show ?thesis using lt [OF w] False by simp
  qed (simp add: lt)
qed

fun rr_calls :: "'b hwloc \<Rightarrow> nat \<Rightarrow> 'b round_robin \<Rightarrow> (int \<times> int) list option" where
  "rr_calls hw 0 r = Some []"
| "rr_calls hw (Suc n) r =
     Option.bind (rr_next hw r) (\<lambda>(p, r). map_option (\<lambda>ps. p # ps) (rr_calls hw n r))"

lemma rr_calls_at:
  assumes "hwloc_laws hw bits" and "L = sorted_list_of_set (bits b)" and "bits b \<noteq> {}"
  shows "j \<le> card (bits b) \<Longrightarrow>
    rr_calls hw n (rr_at b L j)
      = Some (map (\<lambda>k. (int (k mod card (bits b)), int (L ! (k mod card (bits b))))) [j..<j + n])"
proof (induction n arbitrary: j)
  case (Suc n)
  let ?w = "card (bits b)"
  have w: "0 < ?w" using assms(3) hwloc_lawsD(1) [OF assms(1)] by (simp add: card_gt_0_iff)
  define k where "k = (if j < ?w then j else 0)"
  have k: "j mod ?w = k" "k < ?w" using Suc.prems w by (auto simp: k_def le_less)
  have "rr_next hw (rr_at b L j) = Some ((int k, int (L ! k)), rr_at b L (Suc k))"
    using rr_next_at [OF assms(1) Suc.prems assms(2,3)] by (simp add: k_def)
  moreover have "rr_calls hw n (rr_at b L (Suc k))
      = Some (map (\<lambda>k. (int (k mod ?w), int (L ! (k mod ?w)))) [Suc k..<Suc k + n])"
    using Suc.IH [of "Suc k"] k(2) by simp
  moreover have "map (\<lambda>k. (int (k mod ?w), int (L ! (k mod ?w)))) [Suc k..<Suc k + n]
      = map (\<lambda>k. (int (k mod ?w), int (L ! (k mod ?w)))) [Suc j..<Suc j + n]"
  proof (rule nth_equalityI)
    fix i assume "i < length (map (\<lambda>k. (int (k mod ?w), int (L ! (k mod ?w)))) [Suc k..<Suc k + n])"
    then have "i < n" by (simp del: upt_Suc)
    moreover have "(Suc k + i) mod ?w = (Suc j + i) mod ?w"
      using k(1) by (metis add_Suc mod_Suc_eq mod_add_left_eq)
    ultimately show "map (\<lambda>k. (int (k mod ?w), int (L ! (k mod ?w)))) [Suc k..<Suc k + n] ! i
        = map (\<lambda>k. (int (k mod ?w), int (L ! (k mod ?w)))) [Suc j..<Suc j + n] ! i"
      by (simp del: upt_Suc)
  qed simp
  ultimately show ?case using k(1) by (simp add: upt_conv_Cons del: upt_Suc)
qed simp

lemma rr_next_returns_nonempty:
  assumes "rr_next hw r = Some y"
  shows "hwloc_laws hw bits \<longrightarrow> -1 \<le> rr_prev r \<longrightarrow> bits (rr_bits r) \<noteq> {}"
proof (rule rr_next.raw_induct [OF _ assms], intro impI notI)
  fix f :: "'a hwloc \<Rightarrow> 'a round_robin \<Rightarrow> ((int \<times> int) \<times> 'a round_robin) option" and hw r y
  assume IH: "\<And>hw r y. f hw r = Some y \<Longrightarrow> hwloc_laws hw bits \<longrightarrow> -1 \<le> rr_prev r \<longrightarrow> bits (rr_bits r) \<noteq> {}"
    and step: "(let id = hw_next hw (rr_bits r) (rr_prev r); r = r\<lparr>rr_prev := id, rr_index := rr_index r + 1\<rparr>
      in if id = -1 then f hw (r\<lparr>rr_index := -1\<rparr>) else Some ((rr_index r, id), r)) = Some y"
    and h: "hwloc_laws hw bits" "-1 \<le> rr_prev r" "bits (rr_bits r) = {}"
  have "hw_next hw (rr_bits r) (rr_prev r) = -1" using hwloc_lawsD(8) [OF h(1,2)] h(3) by simp
  with step have "f hw (r\<lparr>rr_prev := -1, rr_index := -1\<rparr>) = Some y" by (simp add: Let_def)
  from IH [OF this] h(1,3) show False by simp
qed

text \<open>C35. The round robin over a CPU set returns the cores in ascending order with their positions, over
  and over; on an empty set the call never returns.\<close>

theorem round_robin_cycles:
  assumes "hwloc_laws hw bits"
  shows "if bits b = {} then rr_next hw (rr_new b) = None
     else rr_calls hw n (rr_new b)
       = Some (map (\<lambda>k. (int (k mod card (bits b)), int (sorted_list_of_set (bits b) ! (k mod card (bits b))))) [0..<n])"
proof (cases "bits b = {}")
  case True
  then show ?thesis
    using rr_next_returns_nonempty [where hw = hw and r = "rr_new b" and bits = bits] assms by (cases "rr_next hw (rr_new b)") (auto simp: rr_new_def)
next
  case False
  have "rr_new b = rr_at b (sorted_list_of_set (bits b)) 0" by (simp add: rr_new_def rr_at_def)
  then show ?thesis using rr_calls_at [OF assms refl False, of 0 n] False by simp
qed

subsection \<open>A concrete bitmap library\<close>

text \<open>Lists of indices below $2^{31}$ obey the laws; they serve for concrete runs.\<close>

definition list_hwloc :: "nat list hwloc" where
  "list_hwloc =
     (let clip = filter (\<lambda>i. int i < 2147483648);
          nxt = (\<lambda>b p. let c = filter (\<lambda>i. p < int i) (clip b) in if c = [] then -1 else int (Min (set c)));
          has = (\<lambda>b i. i \<in> set (clip b))
      in \<lparr>hw_alloc = [], hw_set = (\<lambda>b i. (0, i # b)), hw_clr = (\<lambda>b i. (0, removeAll i b)),
          hw_only = (\<lambda>b i. (0, [i])), hw_zero = (\<lambda>b. []), hw_next = nxt,
          hw_weight = (\<lambda>b. int (card (set (clip b)))), hw_isset = (\<lambda>b i. if has b i then 1 else 0),
          hw_iszero = (\<lambda>b. if clip b = [] then 1 else 0),
          hw_and = (\<lambda>a b. (0, filter (has b) a)), hw_or = (\<lambda>a b. (0, a @ b)),
          hw_isincluded = (\<lambda>a b. if list_all (has b) (clip a) then 1 else 0)\<rparr>)"

definition list_bits :: "nat list \<Rightarrow> nat set" where
  "list_bits b = {i \<in> set b. i < 2147483648}"

lemma list_hwloc_laws: "hwloc_laws list_hwloc list_bits"
proof -
  have nxt: "hw_next list_hwloc b p =
      (if \<exists>i \<in> list_bits b. p < int i then int (Min {i \<in> list_bits b. p < int i}) else -1)" for b p
  proof -
    let ?c = "filter (\<lambda>i. p < int i) (filter (\<lambda>i. int i < 2147483648) b)"
    have "set ?c = {i \<in> list_bits b. p < int i}" by (auto simp: list_bits_def)
    moreover have "?c = [] \<longleftrightarrow> \<not> (\<exists>i \<in> list_bits b. p < int i)"
      by (auto simp: list_bits_def filter_empty_conv)
    moreover have "hw_next list_hwloc b p = (if ?c = [] then -1 else int (Min (set ?c)))"
      by (simp add: list_hwloc_def Let_def)
    ultimately show ?thesis by presburger
  qed
  show ?thesis
    unfolding hwloc_laws_def nxt
    by (intro conjI allI)
      (auto simp: list_hwloc_def list_bits_def Let_def list_all_iff filter_empty_conv)
qed

theorem bitmap_str_roundtrip_witness:
  "hwloc_laws list_hwloc list_bits
   \<and> (\<exists>s b'. bm_str list_hwloc [5, 0, 1, 2] = Some s \<and> bitmap_of_str list_hwloc s = Inr b'
        \<and> list_bits b' = list_bits [5, 0, 1, 2])"
  using bitmap_str_roundtrip [OF list_hwloc_laws, of "[5, 0, 1, 2]"] list_hwloc_laws
  by (simp add: list_bits_def)

lemma bitmap_split_partition_witness:
  "\<exists>vs. bm_split list_hwloc (int 2) [5, 0, 1] = Inr vs \<and> length vs = 2
     \<and> concat (map (\<lambda>v. sorted_list_of_set (list_bits v)) vs) = sorted_list_of_set (list_bits [5, 0, 1])"
proof -
  obtain vs where "bm_split list_hwloc (int 2) [5, 0, 1] = Inr vs" "length vs = 2"
    "concat (map (\<lambda>v. sorted_list_of_set (list_bits v)) vs) = sorted_list_of_set (list_bits [5, 0, 1])"
    using bitmap_split_partition [OF list_hwloc_laws, of 2 "[5, 0, 1]"] by auto
  then show ?thesis by blast
qed

theorem round_robin_cycles_witness:
  "rr_calls list_hwloc 3 (rr_new [4, 2]) = Some [(0, 2), (1, 4), (0, 2)]"
proof -
  have b: "list_bits [4, 2] = {2, 4}" by (auto simp: list_bits_def)
  then have "card (list_bits [4, 2]) = 2" "sorted_list_of_set (list_bits [4, 2]) = [2, 4]" "list_bits [4, 2] \<noteq> {}"
    by simp_all
  moreover have "[0..<3] = [0, 1, 2 :: nat]" by (simp add: upt_rec)
  ultimately show ?thesis using round_robin_cycles [OF list_hwloc_laws, of "[4, 2]" 3] by simp
qed

end
