(* ===== verification/Options.thy ===== *)
theory Options
  imports Bitmaps
begin

section \<open>Options\<close>

text \<open>
  \<^verbatim>\<open>src/public/options\<close>: the user-facing configuration. Each options class is a record with the
  class's members and default values; a setter returns the updated record. \<open>options\<close> itself holds
  its parts through \<^verbatim>\<open>std::unique_ptr\<close>: a part is \<open>None\<close> in an object that has been moved from, and
  the accessors check for it.
\<close>

subsection \<open>Engine types and launch options\<close>

datatype engine_type = Fiber | Thread | Process

definition engine_type_string :: "engine_type \<Rightarrow> string" where
  "engine_type_string t = (case t of Fiber \<Rightarrow> ''fiber'' | Thread \<Rightarrow> ''thread'' | Process \<Rightarrow> ''process'')"

fun engine_type_code :: "engine_type \<Rightarrow> nat" where
  "engine_type_code Fiber = 0"
| "engine_type_code Thread = 1"
| "engine_type_code Process = 2"

lemma engine_type_code_inj: "engine_type_code s = engine_type_code t \<Longrightarrow> s = t"
  by (cases s; cases t) simp_all

instantiation engine_type :: linorder
begin

definition less_eq_engine_type :: "engine_type \<Rightarrow> engine_type \<Rightarrow> bool" where
  "less_eq_engine_type s t \<longleftrightarrow> engine_type_code s \<le> engine_type_code t"

definition less_engine_type :: "engine_type \<Rightarrow> engine_type \<Rightarrow> bool" where
  "less_engine_type s t \<longleftrightarrow> engine_type_code s < engine_type_code t"

instance
  by standard (auto simp: less_eq_engine_type_def less_engine_type_def intro: engine_type_code_inj)

end

definition default_engine_factory_name :: string where
  "default_engine_factory_name = ''default''"

record launch_options =
  pe_count :: nat
  engines_per_pe :: nat
  engine_factory_name :: string

definition launch_options_default :: launch_options where
  "launch_options_default = \<lparr>pe_count = 1, engines_per_pe = 1, engine_factory_name = default_engine_factory_name\<rparr>"

subsection \<open>Engine groups\<close>

record engine_factory_options =
  efo_cpu_count :: nat
  efo_engine_type :: engine_type
  efo_reusable :: bool
  efo_allow_overlap :: bool

definition engine_factory_options_default :: engine_factory_options where
  "engine_factory_options_default =
     \<lparr>efo_cpu_count = 1, efo_engine_type = Fiber, efo_reusable = True, efo_allow_overlap = False\<rparr>"

record engine_groups =
  eg_dedicated_main_thread :: bool
  eg_dedicated_network_thread :: bool
  eg_default_engine_type :: engine_type
  eg_groups :: "(string, engine_factory_options) smap"

definition engine_groups_default :: engine_groups where
  "engine_groups_default =
     \<lparr>eg_dedicated_main_thread = False, eg_dedicated_network_thread = False,
      eg_default_engine_type = Fiber, eg_groups = []\<rparr>"

definition set_engine_factory_options :: "string \<Rightarrow> engine_factory_options \<Rightarrow> engine_groups \<Rightarrow> engine_groups" where
  "set_engine_factory_options group_name opts g = g\<lparr>eg_groups := smap_put group_name opts (eg_groups g)\<rparr>"

definition set_engine_factory_options_fn ::
    "string \<Rightarrow> (engine_factory_options \<Rightarrow> engine_factory_options) \<Rightarrow> engine_groups \<Rightarrow> engine_groups" where
  "set_engine_factory_options_fn group_name options_fn g =
     set_engine_factory_options group_name (options_fn engine_factory_options_default) g"

definition engine_group_options :: "engine_groups \<Rightarrow> string \<Rightarrow> engine_factory_options result" where
  "engine_group_options g name =
     (case smap_find (eg_groups g) name of
        None \<Rightarrow> Inl (Srf_runtime_error (''Unknown EngineGroup name: '' @ name))
      | Some opts \<Rightarrow> Inr opts)"

definition set_dedicated_main_thread :: "bool \<Rightarrow> engine_groups \<Rightarrow> engine_groups" where
  "set_dedicated_main_thread v g = g\<lparr>eg_dedicated_main_thread := v\<rparr>"

definition set_dedicated_network_thread :: "bool \<Rightarrow> engine_groups \<Rightarrow> engine_groups" where
  "set_dedicated_network_thread v g = g\<lparr>eg_dedicated_network_thread := v\<rparr>"

definition set_default_engine_type :: "engine_type \<Rightarrow> engine_groups \<Rightarrow> engine_groups" where
  "set_default_engine_type t g = g\<lparr>eg_default_engine_type := t\<rparr>"

subsection \<open>Fiber pool, placement and services\<close>

record fiber_pool_options =
  m_enable_memory_binding :: bool
  m_enable_thread_binding :: bool
  m_enable_tracing_scheduler :: bool

definition fiber_pool_options_default :: fiber_pool_options where
  "fiber_pool_options_default =
     \<lparr>m_enable_memory_binding = True, m_enable_thread_binding = True, m_enable_tracing_scheduler = False\<rparr>"

definition set_memory_binding :: "bool \<Rightarrow> fiber_pool_options \<Rightarrow> fiber_pool_options" where
  "set_memory_binding default_true f = f\<lparr>m_enable_memory_binding := default_true\<rparr>"

definition set_thread_binding :: "bool \<Rightarrow> fiber_pool_options \<Rightarrow> fiber_pool_options" where
  "set_thread_binding default_true f = f\<lparr>m_enable_thread_binding := default_true\<rparr>"

definition set_tracing_scheduler :: "bool \<Rightarrow> fiber_pool_options \<Rightarrow> fiber_pool_options" where
  "set_tracing_scheduler default_false f = f\<lparr>m_enable_tracing_scheduler := False\<rparr>"

definition enable_memory_binding :: "fiber_pool_options \<Rightarrow> bool" where
  "enable_memory_binding f = m_enable_memory_binding f"

definition enable_thread_binding :: "fiber_pool_options \<Rightarrow> bool" where
  "enable_thread_binding f = m_enable_memory_binding f"

definition enable_tracing_scheduler :: "fiber_pool_options \<Rightarrow> bool" where
  "enable_tracing_scheduler f = m_enable_tracing_scheduler f"

datatype placement_strategy = PerMachine | PerNumaNode

datatype placement_resources = Dedicated | Shared

record placement_options =
  m_cpu_strategy :: placement_strategy
  m_resources_strategy :: placement_resources

definition placement_options_default :: placement_options where
  "placement_options_default = \<lparr>m_cpu_strategy = PerMachine, m_resources_strategy = Dedicated\<rparr>"

text \<open>\<^verbatim>\<open>InternalServiceType\<close> is an enumeration without enumerators, i.e. an \<^verbatim>\<open>int\<close>.\<close>

record service_options =
  m_service_options :: "(int, launch_options) smap"
  m_default_options :: launch_options

definition service_options_default :: service_options where
  "service_options_default = \<lparr>m_service_options = [], m_default_options = launch_options_default\<rparr>"

definition set_service_options :: "int \<Rightarrow> launch_options \<Rightarrow> service_options \<Rightarrow> service_options" where
  "set_service_options service_type lo s = s\<lparr>m_service_options := smap_put service_type lo (m_service_options s)\<rparr>"

definition set_default_options :: "launch_options \<Rightarrow> service_options \<Rightarrow> service_options" where
  "set_default_options lo s = s\<lparr>m_default_options := lo\<rparr>"

definition service_launch_options :: "service_options \<Rightarrow> int \<Rightarrow> launch_options" where
  "service_launch_options s service_type =
     (case smap_find (m_service_options s) service_type of None \<Rightarrow> m_default_options s | Some lo \<Rightarrow> lo)"

subsection \<open>Memory pools and topology\<close>

definition literal_MiB :: "nat \<Rightarrow> nat" where
  "literal_MiB v = (v * 1024 * 1024) mod 2 ^ 64"

definition literal_GiB :: "nat \<Rightarrow> nat" where
  "literal_GiB v = (v * 1024 * 1024 * 1024) mod 2 ^ 64"

record memory_pool_options =
  mp_block_size :: nat
  mp_max_aggregate_bytes :: nat

record resource_options =
  m_enable_host_memory_pool :: bool
  m_enable_device_memory_pool :: bool
  m_host_memory_pool :: memory_pool_options
  m_device_memory_pool :: memory_pool_options

definition resource_options_default :: resource_options where
  "resource_options_default =
     (let pool = \<lparr>mp_block_size = literal_MiB 128, mp_max_aggregate_bytes = literal_GiB 1\<rparr>
      in \<lparr>m_enable_host_memory_pool = True, m_enable_device_memory_pool = True,
          m_host_memory_pool = pool, m_device_memory_pool = pool\<rparr>)"

record 'b topology_options =
  m_use_process_cpuset :: bool
  m_restrict_numa_domains :: bool
  m_restrict_gpus :: bool
  m_ignore_dgx_display :: bool
  m_user_cpuset :: 'b

definition topology_options_default :: "'b hwloc \<Rightarrow> 'b topology_options" where
  "topology_options_default hw =
     \<lparr>m_use_process_cpuset = True, m_restrict_numa_domains = True, m_restrict_gpus = False,
      m_ignore_dgx_display = True, m_user_cpuset = hw_alloc hw\<rparr>"

definition user_cpuset_str :: "'b hwloc \<Rightarrow> string \<Rightarrow> 'b topology_options \<Rightarrow> 'b topology_options result" where
  "user_cpuset_str hw cpustr t = rbind (bitmap_of_str hw cpustr) (\<lambda>cpu_set. Inr (t\<lparr>m_user_cpuset := cpu_set\<rparr>))"

subsection \<open>All options\<close>

record 'b options =
  m_engine_groups :: "engine_groups option"
  m_fiber_pool :: "fiber_pool_options option"
  m_placement :: "placement_options option"
  m_resources :: "resource_options option"
  m_services :: "service_options option"
  m_topology :: "'b topology_options option"
  m_architect_url :: string
  m_enable_server :: bool
  m_config_request :: string

definition options_default :: "'b hwloc \<Rightarrow> 'b options" where
  "options_default hw =
     \<lparr>m_engine_groups = Some engine_groups_default, m_fiber_pool = Some fiber_pool_options_default,
      m_placement = Some placement_options_default, m_resources = Some resource_options_default,
      m_services = Some service_options_default, m_topology = Some (topology_options_default hw),
      m_architect_url = [], m_enable_server = False, m_config_request = ''*:1:*''\<rparr>"

definition checked :: "'a option \<Rightarrow> string \<Rightarrow> 'a result" where
  "checked p msg = (case p of None \<Rightarrow> Inl (Check_failed msg) | Some x \<Rightarrow> Inr x)"

definition engine_factories :: "'b options \<Rightarrow> engine_groups result" where
  "engine_factories o' = checked (m_engine_groups o') ''m_engine_groups''"

definition fiber_pool :: "'b options \<Rightarrow> fiber_pool_options result" where
  "fiber_pool o' = checked (m_fiber_pool o') ''m_fiber_pool''"

definition placement :: "'b options \<Rightarrow> placement_options result" where
  "placement o' = checked (m_placement o') ''m_placement''"

definition resources :: "'b options \<Rightarrow> resource_options result" where
  "resources o' = checked (m_resources o') ''m_resources''"

definition services :: "'b options \<Rightarrow> service_options result" where
  "services o' = checked (m_services o') ''m_services''"

definition topology :: "'b options \<Rightarrow> 'b topology_options result" where
  "topology o' = checked (m_topology o') ''m_topology''"

lemma checked_Some [simp]: "checked (Some x) msg = Inr x"
  by (simp add: checked_def)

lemma checked_eq_Inr: "checked p msg = Inr x \<longleftrightarrow> p = Some x"
  by (simp add: checked_def split: option.splits)

subsection \<open>Properties of the options\<close>

lemma eg_groups_ok: "smap_ok (eg_groups g) \<Longrightarrow> smap_ok (eg_groups (set_engine_factory_options n opts g))"
  by (simp add: set_engine_factory_options_def)

text \<open>The three setters of the fiber pool options, as calls.\<close>

datatype fiber_pool_call = Memory_binding bool | Thread_binding bool | Tracing_scheduler bool

fun fiber_pool_apply :: "fiber_pool_call \<Rightarrow> fiber_pool_options \<Rightarrow> fiber_pool_options" where
  "fiber_pool_apply (Memory_binding v) f = set_memory_binding v f"
| "fiber_pool_apply (Thread_binding v) f = set_thread_binding v f"
| "fiber_pool_apply (Tracing_scheduler v) f = set_tracing_scheduler v f"

text \<open>No sequence of calls enables the tracing scheduler, and no call of \<open>enable_thread_binding\<close>
  with an argument is visible through any accessor.\<close>

theorem fiber_pool_options_ignored:
  "\<not> enable_tracing_scheduler (fold fiber_pool_apply calls fiber_pool_options_default)
   \<and> enable_thread_binding (fold fiber_pool_apply calls fiber_pool_options_default)
       = enable_memory_binding (fold fiber_pool_apply calls fiber_pool_options_default)
   \<and> enable_memory_binding (fold fiber_pool_apply calls fiber_pool_options_default)
       = enable_memory_binding (fold fiber_pool_apply
           (filter (\<lambda>c. case c of Memory_binding _ \<Rightarrow> True | _ \<Rightarrow> False) calls) fiber_pool_options_default)"
proof -
  have tr: "\<not> m_enable_tracing_scheduler f \<Longrightarrow> \<not> m_enable_tracing_scheduler (fold fiber_pool_apply calls f)" for f
  proof (induction calls arbitrary: f)
    case (Cons c calls)
    then show ?case
      by (cases c) (auto simp: set_memory_binding_def set_thread_binding_def set_tracing_scheduler_def)
  qed simp
  have mem: "m_enable_memory_binding f = m_enable_memory_binding f' \<Longrightarrow>
    m_enable_memory_binding (fold fiber_pool_apply calls f)
      = m_enable_memory_binding (fold fiber_pool_apply
          (filter (\<lambda>c. case c of Memory_binding _ \<Rightarrow> True | _ \<Rightarrow> False) calls) f')" for f f'
  proof (induction calls arbitrary: f f')
    case (Cons c calls)
    then show ?case
      by (cases c) (auto simp: set_memory_binding_def set_thread_binding_def set_tracing_scheduler_def)
  qed simp
  show ?thesis
    using tr [of fiber_pool_options_default] mem [OF refl, of fiber_pool_options_default]
    by (simp add: enable_tracing_scheduler_def enable_thread_binding_def enable_memory_binding_def
        fiber_pool_options_default_def)
qed

end
