(* ===== verification/Topology.thy ===== *)
theory Topology
  imports Options
begin

section \<open>Topology of the machine\<close>

text \<open>
  \<^verbatim>\<open>src/internal/system/topology.cpp\<close> and \<^verbatim>\<open>gpu_info.cpp\<close>: the part of the machine that a process may use. The
  hwloc topology is a parameter with the queries the code makes; the GPUs are what NVML and CUDA report.
  \<^verbatim>\<open>src/internal/utils/shared_resource_bit_map.cpp\<close> collects which objects share a resource.
\<close>

datatype hwloc_obj_type = HW_machine | HW_numanode | HW_core | HW_pu | HW_other

record 'b topo_object =
  ob_cpuset :: 'b
  ob_nodeset :: 'b
  ob_total_memory :: nat

record ('t, 'b) hwloc_topo =
  ht_type_depth :: "'t \<Rightarrow> hwloc_obj_type \<Rightarrow> int"
  ht_type_or_below_depth :: "'t \<Rightarrow> hwloc_obj_type \<Rightarrow> int"
  ht_valid_depth :: "'t \<Rightarrow> int \<Rightarrow> bool"
  ht_by_depth :: "'t \<Rightarrow> int \<Rightarrow> 'b topo_object list"
  ht_cpuset_to_nodeset :: "'t \<Rightarrow> 'b \<Rightarrow> int \<times> 'b"
  ht_cores_inside :: "'t \<Rightarrow> 'b \<Rightarrow> int \<times> 'b list"
  ht_restrict :: "'t \<Rightarrow> 'b \<Rightarrow> bool \<Rightarrow> int \<times> 't"

subsection \<open>GPUs\<close>

record 'b gpu_info =
  gi_cpu_set :: 'b
  gi_name :: string
  gi_uuid :: string
  gi_pcie_bus_id :: string
  gi_cpustr :: string
  gi_memory_capacity :: nat
  gi_cuda_device_id :: int

record gpu_info_msg =
  gm_cpu_set :: string
  gm_name :: string
  gm_uuid :: string
  gm_pcie_bus_id :: string
  gm_memory_capacity :: nat
  gm_cuda_device_id :: int

definition gpu_serialize :: "'b gpu_info \<Rightarrow> gpu_info_msg" where
  "gpu_serialize i = \<lparr>gm_cpu_set = gi_cpustr i, gm_name = gi_name i, gm_uuid = gi_uuid i, gm_pcie_bus_id = gi_pcie_bus_id i,
     gm_memory_capacity = gi_memory_capacity i, gm_cuda_device_id = gi_cuda_device_id i\<rparr>"

definition gpu_deserialize :: "'b hwloc \<Rightarrow> gpu_info_msg \<Rightarrow> 'b gpu_info result" where
  "gpu_deserialize hw msg = rbind (bitmap_of_str hw (gm_cpu_set msg)) (\<lambda>cpu_set.
     Inr \<lparr>gi_cpu_set = cpu_set, gi_name = gm_name msg, gi_uuid = gm_uuid msg, gi_pcie_bus_id = gm_pcie_bus_id msg,
          gi_cpustr = gm_cpu_set msg, gi_memory_capacity = gm_memory_capacity msg, gi_cuda_device_id = gm_cuda_device_id msg\<rparr>)"

type_synonym 'b gpu_map = "(int, 'b gpu_info) smap"

definition gpus_deserialize :: "'b hwloc \<Rightarrow> gpu_info_msg list \<Rightarrow> 'b gpu_map result" where
  "gpus_deserialize hw msgs = fold_result (\<lambda>msg gpus.
     rbind (gpu_deserialize hw msg) (\<lambda>info. Inr (smap_put (gi_cuda_device_id info) info gpus))) msgs []"

subsection \<open>Creation\<close>

record ('t, 'b) topology =
  tp_topology :: 't
  tp_topo_cpuset :: 'b
  tp_numa_cpusets :: "'b list"
  tp_gpu_info :: "'b gpu_map"

fun is_substring :: "string \<Rightarrow> string \<Rightarrow> bool" where
  "is_substring pat [] \<longleftrightarrow> pat = []"
| "is_substring pat (c # cs) \<longleftrightarrow> take (length pat) (c # cs) = pat \<or> is_substring pat cs"

definition depth_for_object :: "('t, 'b) hwloc_topo \<Rightarrow> 't \<Rightarrow> hwloc_obj_type \<Rightarrow> int result" where
  "depth_for_object ht t obj =
     rbind (case obj of
              HW_core \<Rightarrow> Inr (ht_type_or_below_depth ht t HW_core)
            | HW_other \<Rightarrow> Inl (Fatal ''not support by this method'')
            | _ \<Rightarrow> Inr (ht_type_depth ht t obj)) (\<lambda>rc.
     rbind (rcheck (rc \<noteq> -1) ''rc != -1'') (\<lambda>_. Inr rc))"

definition object_at_depth :: "('t, 'b) hwloc_topo \<Rightarrow> 't \<Rightarrow> int \<Rightarrow> nat \<Rightarrow> 'b topo_object result" where
  "object_at_depth ht t depth id' =
     rbind (rcheck (ht_valid_depth ht t depth) ''invalid depth'') (\<lambda>_.
     rbind (rcheck (id' < length (ht_by_depth ht t depth)) ''invalid id'') (\<lambda>_. Inr (ht_by_depth ht t depth ! id')))"

definition cpuset_for_object :: "('t, 'b) hwloc_topo \<Rightarrow> 't \<Rightarrow> int \<Rightarrow> nat \<Rightarrow> 'b result" where
  "cpuset_for_object ht t depth id' = rbind (object_at_depth ht t depth id') (\<lambda>obj. Inr (ob_cpuset obj))"

definition numaset_for_object :: "('t, 'b) hwloc_topo \<Rightarrow> 't \<Rightarrow> int \<Rightarrow> nat \<Rightarrow> 'b result" where
  "numaset_for_object ht t depth id' = rbind (object_at_depth ht t depth id') (\<lambda>obj. Inr (ob_nodeset obj))"

definition numaset_for_cpuset :: "('t, 'b) hwloc_topo \<Rightarrow> 't \<Rightarrow> 'b \<Rightarrow> 'b result" where
  "numaset_for_cpuset ht t cpu_set = hw_check (ht_cpuset_to_nodeset ht t cpu_set)"

definition object_count_at_depth :: "('t, 'b) hwloc_topo \<Rightarrow> 't \<Rightarrow> int \<Rightarrow> nat" where
  "object_count_at_depth ht t depth = length (ht_by_depth ht t depth)"

definition topo_core_count :: "('t, 'b) hwloc_topo \<Rightarrow> 't \<Rightarrow> nat" where
  "topo_core_count ht t = object_count_at_depth ht t (ht_type_or_below_depth ht t HW_core)"

definition topo_cpu_count :: "('t, 'b) hwloc_topo \<Rightarrow> 't \<Rightarrow> nat" where
  "topo_cpu_count ht t = object_count_at_depth ht t (ht_type_depth ht t HW_pu)"

definition topo_numa_count :: "('t, 'b) hwloc_topo \<Rightarrow> 't \<Rightarrow> nat" where
  "topo_numa_count ht t = object_count_at_depth ht t (ht_type_depth ht t HW_numanode)"

definition topo_gpu_count :: "('t, 'b) topology \<Rightarrow> nat" where
  "topo_gpu_count tp = length (tp_gpu_info tp)"

definition topology_new ::
    "'b hwloc \<Rightarrow> ('t, 'b) hwloc_topo \<Rightarrow> 't \<Rightarrow> 'b \<Rightarrow> 'b gpu_map \<Rightarrow> ('t, 'b) topology result" where
  "topology_new hw ht t cpu_set gpus =
     rbind (bm_weight hw cpu_set) (\<lambda>w.
     rbind (rcheck (w > 0) ''m_topo_cpuset.weight() > 0'') (\<lambda>_.
       Inr \<lparr>tp_topology = t, tp_topo_cpuset = cpu_set,
            tp_numa_cpusets = map ob_cpuset (ht_by_depth ht t (ht_type_depth ht t HW_numanode)), tp_gpu_info = gpus\<rparr>))"

definition restrict_cpuset :: "'b hwloc \<Rightarrow> 'b topology_options \<Rightarrow> 'b \<Rightarrow> 'b result" where
  "restrict_cpuset hw o' topo_cpu_set =
     (if bm_empty hw (m_user_cpuset o') then Inr topo_cpu_set
      else rbind (set_intersect hw topo_cpu_set (m_user_cpuset o')) (\<lambda>intersection.
           if bm_empty hw intersection then Inl (Srf_runtime_error ''intersection between user_cpuset and topo_cpuset is null'')
           else Inr intersection))"

definition keep_gpu :: "'b hwloc \<Rightarrow> 'b topology_options \<Rightarrow> 'b \<Rightarrow> int \<times> 'b gpu_info \<Rightarrow> 'b gpu_map \<Rightarrow> 'b gpu_map result" where
  "keep_gpu hw o' topo_cpu_set = (\<lambda>(cuda_id, info) gpus.
     rbind (set_intersect hw (gi_cpu_set info) topo_cpu_set) (\<lambda>overlap.
       if m_restrict_gpus o' \<and> bm_empty hw overlap then Inr gpus
       else if m_ignore_dgx_display o' \<and> is_substring ''DGX Display'' (gi_name info) then Inr gpus
       else Inr (smap_put cuda_id info gpus)))"

definition topology_create ::
    "'b hwloc \<Rightarrow> ('t, 'b) hwloc_topo \<Rightarrow> 'b topology_options \<Rightarrow> 't \<Rightarrow> 'b \<Rightarrow> 'b gpu_map \<Rightarrow> ('t, 'b) topology result" where
  "topology_create hw ht o' system_topology topo_cpu_set gpus =
     rbind (restrict_cpuset hw o' topo_cpu_set) (\<lambda>topo_cpu_set.
     rbind (hw_check (ht_restrict ht system_topology topo_cpu_set (m_restrict_numa_domains o'))) (\<lambda>t.
     rbind (fold_result (keep_gpu hw o' topo_cpu_set) gpus []) (\<lambda>gpu_info.
       topology_new hw ht t topo_cpu_set gpu_info)))"

definition topo_contains :: "'b hwloc \<Rightarrow> ('t, 'b) topology \<Rightarrow> 'b \<Rightarrow> bool" where
  "topo_contains hw tp cpu_set \<longleftrightarrow> hw_isincluded hw cpu_set (tp_topo_cpuset tp) \<noteq> 0"

definition topo_numa_cpuset :: "('t, 'b) topology \<Rightarrow> nat \<Rightarrow> 'b result" where
  "topo_numa_cpuset tp id' =
     rbind (rcheck (id' < length (tp_numa_cpusets tp)) ''id < m_numa_cpusets.size()'') (\<lambda>_. Inr (tp_numa_cpusets tp ! id'))"

subsection \<open>Shared resources\<close>

type_synonym 'b shared_bit_map = "(nat, 'b) smap"

definition sbm_insert :: "'b hwloc \<Rightarrow> 'b \<Rightarrow> nat \<Rightarrow> 'b shared_bit_map \<Rightarrow> 'b shared_bit_map result" where
  "sbm_insert hw bitmap object_id m = rbind (for_each_bit hw bitmap) (\<lambda>calls.
     fold_result (\<lambda>(idx, bit_index) m.
       rbind (bm_on hw (case smap_find m bit_index of None \<Rightarrow> hw_alloc hw | Some b \<Rightarrow> b) object_id) (\<lambda>b.
         Inr (smap_put bit_index b m))) calls m)"

definition sbm_for_objects :: "'b hwloc \<Rightarrow> 'b shared_bit_map \<Rightarrow> nat \<Rightarrow> nat list result" where
  "sbm_for_objects hw m bit_index =
     (case smap_find m bit_index of None \<Rightarrow> Inr [] | Some b \<Rightarrow> map_sum id (map snd) (for_each_bit hw b))"

definition sbm_object_count :: "'b hwloc \<Rightarrow> 'b shared_bit_map \<Rightarrow> nat \<Rightarrow> nat result" where
  "sbm_object_count hw m bit_index = map_sum id length (sbm_for_objects hw m bit_index)"

definition sbm_bitmap :: "'b hwloc \<Rightarrow> 'b shared_bit_map \<Rightarrow> nat \<Rightarrow> 'b" where
  "sbm_bitmap hw m bit_index = (case smap_find m bit_index of None \<Rightarrow> hw_alloc hw | Some b \<Rightarrow> b)"

subsection \<open>What creation keeps\<close>

lemma set_intersect_ok: "hwloc_laws hw bits \<Longrightarrow> \<exists>c. set_intersect hw a b = Inr c \<and> bits c = bits a \<inter> bits b"
  by (simp add: set_intersect_def hw_check_def hwloc_lawsD)

lemma bm_empty_iff: "hwloc_laws hw bits \<Longrightarrow> bm_empty hw b \<longleftrightarrow> bits b = {}"
  by (simp add: bm_empty_def hwloc_lawsD)

lemma keep_gpu_cases:
  assumes "hwloc_laws hw bits" and "keep_gpu hw o' cs g gpus = Inr gpus'"
  shows "gpus' = gpus \<or> gpus' = smap_put (fst g) (snd g) gpus"
  using assms set_intersect_ok [OF assms(1), of "gi_cpu_set (snd g)" cs]
  by (auto simp: keep_gpu_def split_beta rbind_def split: if_splits sum.splits)

text \<open>The topology of a process is the one it was given, cut down to the CPUs the user asked for, with some of the
  GPUs.\<close>

lemma topology_create_ok:
  assumes "hwloc_laws hw bits" and "topology_create hw ht o' st cs gpus = Inr tp"
  shows "bits (tp_topo_cpuset tp) = (if bits (m_user_cpuset o') = {} then bits cs else bits cs \<inter> bits (m_user_cpuset o'))
     \<and> bits (tp_topo_cpuset tp) \<noteq> {} \<and> smap_ok (tp_gpu_info tp) \<and> set (tp_gpu_info tp) \<subseteq> set gpus"
proof -
  obtain cs' t gi where cs': "restrict_cpuset hw o' cs = Inr cs'" and gi: "fold_result (keep_gpu hw o' cs') gpus [] = Inr gi"
    and tp: "topology_new hw ht t cs' gi = Inr tp"
    using assms(2) by (auto simp: topology_create_def rbind_eq_Inr)
  have b: "bits cs' = (if bits (m_user_cpuset o') = {} then bits cs else bits cs \<inter> bits (m_user_cpuset o'))"
    using cs' set_intersect_ok [OF assms(1), of cs "m_user_cpuset o'"]
    by (auto simp: restrict_cpuset_def bm_empty_iff [OF assms(1)] rbind_def split: if_splits)
  have w: "bm_weight hw cs' = Inr (int (card (bits cs')))"
    by (simp add: bm_weight_def hwloc_lawsD [OF assms(1)])
  have "bits cs' \<noteq> {}" "tp_topo_cpuset tp = cs'" "tp_gpu_info tp = gi"
    using tp by (auto simp: topology_new_def w rbind_def rcheck_def split: if_splits)
  moreover have "smap_ok gi \<and> set gi \<subseteq> set gpus"
  proof (rule fold_result_invariant [where I = "\<lambda>m. smap_ok m \<and> set m \<subseteq> set gpus", OF _ _ gi])
    fix g m m' assume "g \<in> set gpus" "smap_ok m \<and> set m \<subseteq> set gpus" "keep_gpu hw o' cs' g m = Inr m'"
    then show "smap_ok m' \<and> set m' \<subseteq> set gpus"
      using keep_gpu_cases [OF assms(1), of o' cs' g m m'] set_smap_put [of "fst g" "snd g" m] by auto
  qed simp_all
  ultimately show ?thesis using b by simp
qed

lemma sbm_step:
  assumes "hwloc_laws hw bits" and "object_id < 2 ^ 31"
  shows "\<exists>m'. fold_result (\<lambda>(idx, bit_index) m.
       rbind (bm_on hw (case smap_find m bit_index of None \<Rightarrow> hw_alloc hw | Some b \<Rightarrow> b) object_id) (\<lambda>b.
         Inr (smap_put bit_index b m))) calls m = Inr m'
     \<and> (\<forall>i. bits (sbm_bitmap hw m' i) = (if i \<in> snd ` set calls then insert object_id (bits (sbm_bitmap hw m i)) else bits (sbm_bitmap hw m i)))"
proof (induction calls arbitrary: m)
  case (Cons c calls)
  obtain idx k where c: "c = (idx, k)" by force
  obtain b where b: "bm_on hw (sbm_bitmap hw m k) object_id = Inr b" "bits b = insert object_id (bits (sbm_bitmap hw m k))"
    using bm_on_ok [OF assms(1,2)] by blast
  have find: "bits (sbm_bitmap hw (smap_put k b m) i) = (if i = k then insert object_id (bits (sbm_bitmap hw m k)) else bits (sbm_bitmap hw m i))" for i
    by (simp add: sbm_bitmap_def b(2))
  show ?case using Cons.IH [of "smap_put k b m"] b(1) by (auto simp: c sbm_bitmap_def [symmetric] rbind_def find)
qed simp

lemma sbm_insert_ok:
  assumes "hwloc_laws hw bits" and "object_id < 2 ^ 31"
  shows "\<exists>m'. sbm_insert hw b object_id m = Inr m'
     \<and> (\<forall>i. bits (sbm_bitmap hw m' i) = (if i \<in> bits b then insert object_id (bits (sbm_bitmap hw m i)) else bits (sbm_bitmap hw m i)))"
proof -
  let ?calls = "zip [0..<card (bits b)] (sorted_list_of_set (bits b))"
  have "snd ` set ?calls = bits b"
    using hwloc_lawsD(1) [OF assms(1), of b] by (metis distinct_sorted_list_of_set length_upt list.set_map map_snd_zip minus_nat.diff_0
        set_sorted_list_of_set sorted_list_of_set.length_sorted_key_list_of_set)
  then show ?thesis using sbm_step [OF assms, of ?calls m] by (simp add: sbm_insert_def for_each_bit_eq [OF assms(1)] rbind_def)
qed

end
