(* ===== verification/Engine_Cpu_Sets.thy ===== *)
theory Engine_Cpu_Sets
  imports Options
begin

section \<open>CPU sets of the engine factories\<close>

text \<open>
  \<^verbatim>\<open>src/internal/system/engine_factory_cpu_sets.cpp\<close>: the logical CPUs of a host partition are dealt
  out to the engine groups. The last loop asks hwloc for the next CPU until it gets one, which may
  never happen, so a run is a \<open>result option\<close>, \<open>None\<close> being a run that does not return.
\<close>

record 'b engine_cpu_sets =
  fiber_cpu_sets :: "(string, 'b) smap"
  thread_cpu_sets :: "(string, 'b) smap"
  reusable :: "(string, bool) smap"
  shared_cpus_set :: 'b
  shared_cpus_has_fibers :: bool

definition engine_cpu_sets_default :: "'b hwloc \<Rightarrow> 'b engine_cpu_sets" where
  "engine_cpu_sets_default hw =
     \<lparr>fiber_cpu_sets = [], thread_cpu_sets = [], reusable = [], shared_cpus_set = hw_alloc hw,
      shared_cpus_has_fibers = False\<rparr>"

definition is_resuable :: "'b engine_cpu_sets \<Rightarrow> string \<Rightarrow> bool result" where
  "is_resuable c name =
     (case smap_find (reusable c) name of
        None \<Rightarrow> Inl (Check_failed (''unable to find '' @ name @ '' in reusable map'')) | Some v \<Rightarrow> Inr v)"

type_synonym group = "string \<times> engine_factory_options"

text \<open>The user's groups, with an entry for a dedicated main thread and one for the network.\<close>

definition engine_groups_map :: "engine_groups \<Rightarrow> string \<Rightarrow> group list" where
  "engine_groups_map g architect_url =
     (let m = eg_groups g;
          m = (if eg_dedicated_main_thread g
               then smap_put ''main'' \<lparr>efo_cpu_count = 1, efo_engine_type = Fiber, efo_reusable = True,
                                       efo_allow_overlap = False\<rparr> m
               else m)
      in if architect_url \<noteq> []
         then smap_put ''srf_network'' \<lparr>efo_cpu_count = 1, efo_engine_type = Fiber, efo_reusable = True,
                                        efo_allow_overlap = \<not> eg_dedicated_network_thread g\<rparr> m
         else m)"

subsection \<open>Counting\<close>

text \<open>One group: the CPUs per engine type, the shared CPUs, and whether fibers share.\<close>

definition count_group ::
    "group \<Rightarrow> (engine_type, nat) smap \<times> nat \<times> bool \<Rightarrow> (engine_type, nat) smap \<times> nat \<times> bool" where
  "count_group kv = (\<lambda>(engine_cpu_count, shared_cpu_count, has_fibers).
     if efo_allow_overlap (snd kv)
     then (engine_cpu_count, max shared_cpu_count (efo_cpu_count (snd kv)),
           has_fibers \<or> efo_engine_type (snd kv) = Fiber)
     else (let n = (case smap_find engine_cpu_count (efo_engine_type (snd kv)) of None \<Rightarrow> 0 | Some n \<Rightarrow> n)
           in smap_put (efo_engine_type (snd kv)) (add_sz n (efo_cpu_count (snd kv))) engine_cpu_count,
           shared_cpu_count, has_fibers))"

definition count_groups :: "group list \<Rightarrow> (engine_type, nat) smap \<times> nat \<times> bool" where
  "count_groups gs = fold count_group gs ([], 0, False)"

definition min_cpu_count :: "group list \<Rightarrow> nat" where
  "min_cpu_count gs =
     (case count_groups gs of (engine_cpu_count, shared, _) \<Rightarrow> fold (\<lambda>kv n. add_sz n (snd kv)) engine_cpu_count shared)"

subsection \<open>Dealing out\<close>

definition store_cpu_set :: "group \<Rightarrow> 'b \<Rightarrow> 'b engine_cpu_sets \<Rightarrow> 'b engine_cpu_sets" where
  "store_cpu_set kv b c =
     (case efo_engine_type (snd kv) of
        Fiber \<Rightarrow> c\<lparr>fiber_cpu_sets := smap_put (fst kv) b (fiber_cpu_sets c)\<rparr>
      | Thread \<Rightarrow> c\<lparr>thread_cpu_sets := smap_put (fst kv) b (thread_cpu_sets c)\<rparr>
      | Process \<Rightarrow> c)"

text \<open>The default pool, and \<open>main\<close> inside it when it has no CPU of its own.\<close>

definition default_pool ::
    "'b hwloc \<Rightarrow> engine_groups \<Rightarrow> nat \<Rightarrow> 'b \<Rightarrow> 'b engine_cpu_sets \<Rightarrow> ('b engine_cpu_sets \<times> 'b) result" where
  "default_pool hw g n cpu_set c =
     rbind (bm_pop hw n cpu_set) (\<lambda>(pool, remaining).
     rbind (case eg_default_engine_type g of
              Fiber \<Rightarrow> Inr (c\<lparr>fiber_cpu_sets := smap_put default_engine_factory_name pool (fiber_cpu_sets c)\<rparr>)
            | Thread \<Rightarrow> Inr (c\<lparr>thread_cpu_sets := smap_put default_engine_factory_name pool (thread_cpu_sets c)\<rparr>)
            | Process \<Rightarrow> Inl (Fatal (''invalid default engine type: '' @ engine_type_string Process))) (\<lambda>c.
     rbind (if eg_dedicated_main_thread g then Inr c
            else rbind (bm_on hw (hw_alloc hw) (bm_first hw pool)) (\<lambda>main.
                   Inr (c\<lparr>fiber_cpu_sets := smap_put ''main'' main (fiber_cpu_sets c)\<rparr>))) (\<lambda>c.
     Inr (c\<lparr>reusable := smap_put ''main'' True (smap_put default_engine_factory_name True (reusable c))\<rparr>,
          remaining))))"

definition dedicated_group ::
    "'b hwloc \<Rightarrow> group \<Rightarrow> 'b engine_cpu_sets \<times> 'b \<Rightarrow> ('b engine_cpu_sets \<times> 'b) result" where
  "dedicated_group hw kv = (\<lambda>(c, remaining).
     let c = c\<lparr>reusable := smap_put (fst kv) (efo_reusable (snd kv)) (reusable c)\<rparr>
     in if efo_allow_overlap (snd kv) then Inr (c, remaining)
        else rbind (bm_pop hw (efo_cpu_count (snd kv)) remaining) (\<lambda>(this_set, remaining).
               Inr (store_cpu_set kv this_set c, remaining)))"

text \<open>\<^verbatim>\<open>do idx = remaining_cpu_set.next(idx); while (idx == -1);\<close>\<close>

partial_function (option) next_shared_cpu :: "'b hwloc \<Rightarrow> 'b \<Rightarrow> int \<Rightarrow> int option" where
  [code]: "next_shared_cpu hw b idx =
     (let idx = to_i32 (bm_next hw b idx) in if idx = -1 then next_shared_cpu hw b idx else Some idx)"

text \<open>One overlapping group; the loop variable is an \<^verbatim>\<open>int\<close>, compared with a \<open>size_t\<close>.\<close>

fun shared_cpus :: "'b hwloc \<Rightarrow> 'b \<Rightarrow> nat \<Rightarrow> int \<times> 'b \<Rightarrow> (int \<times> 'b) result option" where
  "shared_cpus hw b 0 (idx, this_set) = Some (Inr (idx, this_set))"
| "shared_cpus hw b (Suc n) (idx, this_set) =
     Option.bind (next_shared_cpu hw b idx) (\<lambda>idx.
       case bm_on hw this_set (to_u32 idx) of
         Inl e \<Rightarrow> Some (Inl e) | Inr this_set \<Rightarrow> shared_cpus hw b n (idx, this_set))"

definition shared_loop :: "'b hwloc \<Rightarrow> 'b \<Rightarrow> nat \<Rightarrow> int \<times> 'b \<Rightarrow> (int \<times> 'b) result option" where
  "shared_loop hw b n s =
     (if n < 2 ^ 31 then shared_cpus hw b n s
      else Option.bind (shared_cpus hw b (2 ^ 31) s) (\<lambda>_. Some (Inl (Undefined_behaviour ''int overflow''))))"

fun overlapping_groups ::
    "'b hwloc \<Rightarrow> 'b \<Rightarrow> group list \<Rightarrow> int \<Rightarrow> 'b engine_cpu_sets \<Rightarrow> 'b engine_cpu_sets result option" where
  "overlapping_groups hw b [] idx c = Some (Inr c)"
| "overlapping_groups hw b (kv # gs) idx c =
     (if efo_allow_overlap (snd kv)
      then Option.bind (shared_loop hw b (efo_cpu_count (snd kv)) (idx, hw_alloc hw)) (\<lambda>r.
             case r of Inl e \<Rightarrow> Some (Inl e)
             | Inr (idx, this_set) \<Rightarrow> overlapping_groups hw b gs idx (store_cpu_set kv this_set c))
      else overlapping_groups hw b gs idx c)"

definition insufficient_cpus :: srf_error where
  "insufficient_cpus = Srf_runtime_error ''insufficient number of logical cpus assigned to the current process''"

definition generate_engine_factory_cpu_sets ::
    "'b hwloc \<Rightarrow> 'b options \<Rightarrow> 'b \<Rightarrow> 'b engine_cpu_sets result option" where
  "generate_engine_factory_cpu_sets hw o' cpu_set =
     (case rbind (bm_weight hw cpu_set) (\<lambda>cpu_count.
           rbind (rcheck (cpu_count > 0) ''cpu_count > 0'') (\<lambda>_.
           rbind (services o') (\<lambda>_.
           rbind (engine_factories o') (\<lambda>g.
             let gs = engine_groups_map g (m_architect_url o');
                 c = (engine_cpu_sets_default hw)\<lparr>shared_cpus_has_fibers := snd (snd (count_groups gs))\<rparr>
             in if add_sz (min_cpu_count gs) 1 > nat cpu_count then Inl insufficient_cpus
                else rbind (default_pool hw g (sub_sz (nat cpu_count) (min_cpu_count gs)) cpu_set c) (\<lambda>(c, remaining).
                     rbind (fold_result (dedicated_group hw) gs (c, remaining)) (\<lambda>(c, remaining).
                       Inr (gs, c\<lparr>shared_cpus_set := remaining\<rparr>, remaining))))))) of
        Inl e \<Rightarrow> Some (Inl e)
      | Inr (gs, c, remaining) \<Rightarrow> overlapping_groups hw remaining gs (-1) c)"

subsection \<open>How many CPUs are needed\<close>

definition dedicated_groups :: "group list \<Rightarrow> group list" where
  "dedicated_groups gs = filter (\<lambda>kv. \<not> efo_allow_overlap (snd kv)) gs"

definition overlap_groups :: "group list \<Rightarrow> group list" where
  "overlap_groups gs = filter (\<lambda>kv. efo_allow_overlap (snd kv)) gs"

abbreviation group_cpus :: "group \<Rightarrow> nat" where
  "group_cpus kv \<equiv> efo_cpu_count (snd kv)"

text \<open>The CPUs the groups need: each dedicated group its own, the overlapping ones the largest share.\<close>

definition cpu_demand :: "group list \<Rightarrow> nat" where
  "cpu_demand gs = sum_list (map group_cpus (dedicated_groups gs)) + fold max (map group_cpus (overlap_groups gs)) 0"

lemma sum_smap_put:
  "smap_ok m \<Longrightarrow> sum_list (map snd (smap_put k v m)) + (case smap_find m k of None \<Rightarrow> 0 | Some n \<Rightarrow> n)
     = sum_list (map snd m) + (v :: nat)"
proof (induction k v m rule: smap_put.induct)
  case (2 k v k' v' m)
  have "k < k' \<Longrightarrow> smap_find m k = None"
    using "2.prems" by (intro smap_ok_less_None) auto
  then show ?case using 2 by (auto split: option.splits)
qed simp

lemma smap_find_le_sum: "smap_find m k = Some (n :: nat) \<Longrightarrow> n \<le> sum_list (map snd m)"
  by (induction m) (auto split: if_splits)

lemma count_groups_fold:
  "smap_ok m \<Longrightarrow> sum_list (map snd m) + sum_list (map group_cpus (dedicated_groups gs)) < 2 ^ 64 \<Longrightarrow>
   \<exists>m' f'. fold count_group gs (m, s, f) = (m', fold max (map group_cpus (overlap_groups gs)) s, f')
     \<and> sum_list (map snd m') = sum_list (map snd m) + sum_list (map group_cpus (dedicated_groups gs))"
proof (induction gs arbitrary: m s f)
  case (Cons kv gs)
  show ?case
  proof (cases "efo_allow_overlap (snd kv)")
    case True
    then show ?thesis using Cons.IH [OF Cons.prems(1), of "max s (group_cpus kv)"] Cons.prems(2)
      by (simp add: count_group_def dedicated_groups_def overlap_groups_def max.commute)
  next
    case False
    define n where "n = (case smap_find m (efo_engine_type (snd kv)) of None \<Rightarrow> 0 | Some n \<Rightarrow> n)"
    let ?m = "smap_put (efo_engine_type (snd kv)) (n + group_cpus kv) m"
    have n: "n \<le> sum_list (map snd m)" by (auto simp: n_def smap_find_le_sum split: option.splits)
    have lt: "sum_list (map snd m) + group_cpus kv + sum_list (map group_cpus (dedicated_groups gs)) < 2 ^ 64"
      using Cons.prems(2) False by (simp add: dedicated_groups_def)
    have m: "sum_list (map snd ?m) = sum_list (map snd m) + group_cpus kv"
      using sum_smap_put [OF Cons.prems(1), of "efo_engine_type (snd kv)" "n + group_cpus kv"] by (simp add: n_def)
    have "add_sz n (group_cpus kv) = n + group_cpus kv" using n lt by simp
    then have "count_group kv (m, s, f) = (?m, s, f)" using False by (simp add: count_group_def n_def Let_def)
    then show ?thesis using Cons.IH [of ?m s f] Cons.prems(1) False m lt
      by (simp add: dedicated_groups_def overlap_groups_def add.assoc)
  qed
qed (simp add: dedicated_groups_def overlap_groups_def)

lemma fold_add_sz:
  "n + sum_list (map snd m) < 2 ^ 64 \<Longrightarrow> fold (\<lambda>kv n. add_sz n (snd kv)) m n = n + sum_list (map snd m)"
proof (induction m arbitrary: n)
  case (Cons p m)
  then show ?case using Cons.IH [of "n + snd p"] by simp
qed simp

lemma min_cpu_count_eq:
  assumes "cpu_demand gs < 2 ^ 64"
  shows "min_cpu_count gs = cpu_demand gs"
proof -
  obtain m' f' where "count_groups gs = (m', fold max (map group_cpus (overlap_groups gs)) 0, f')"
    and "sum_list (map snd m') = sum_list (map group_cpus (dedicated_groups gs))"
    using count_groups_fold [of "[]" gs 0 False] assms by (auto simp: count_groups_def cpu_demand_def)
  then show ?thesis using assms by (simp add: min_cpu_count_def fold_add_sz cpu_demand_def)
qed

subsection \<open>The sets that are stored\<close>

definition cpu_set_of :: "'b engine_cpu_sets \<Rightarrow> string \<Rightarrow> engine_type \<Rightarrow> 'b option" where
  "cpu_set_of c name t =
     (case t of Fiber \<Rightarrow> smap_find (fiber_cpu_sets c) name | Thread \<Rightarrow> smap_find (thread_cpu_sets c) name | Process \<Rightarrow> None)"

abbreviation group_set :: "'b engine_cpu_sets \<Rightarrow> group \<Rightarrow> 'b option" where
  "group_set c kv \<equiv> cpu_set_of c (fst kv) (efo_engine_type (snd kv))"

lemma cpu_set_of_store:
  "efo_engine_type (snd kv) \<noteq> Process \<Longrightarrow>
   cpu_set_of (store_cpu_set kv b c) n t = (if n = fst kv \<and> t = efo_engine_type (snd kv) then Some b else cpu_set_of c n t)"
  by (cases t; cases "efo_engine_type (snd kv)") (simp_all add: cpu_set_of_def store_cpu_set_def)

lemma cpu_set_of_update [simp]:
  "cpu_set_of (c\<lparr>reusable := r\<rparr>) n t = cpu_set_of c n t"
  "cpu_set_of (c\<lparr>shared_cpus_set := b\<rparr>) n t = cpu_set_of c n t"
  by (simp_all add: cpu_set_of_def split: engine_type.split)

lemma store_keeps [simp]:
  "shared_cpus_set (store_cpu_set kv b c) = shared_cpus_set c" "reusable (store_cpu_set kv b c) = reusable c"
  by (simp_all add: store_cpu_set_def split: engine_type.split)

definition ordinary_group :: "group \<Rightarrow> bool" where
  "ordinary_group kv \<longleftrightarrow> efo_engine_type (snd kv) \<noteq> Process \<and> fst kv \<noteq> default_engine_factory_name"

lemma dedicated_groups_ok:
  assumes "hwloc_laws hw bits"
  shows "\<forall>kv \<in> set gs. ordinary_group kv \<Longrightarrow> distinct (map fst gs) \<Longrightarrow>
    sum_list (map group_cpus (dedicated_groups gs)) \<le> card (bits b) \<Longrightarrow>
    \<exists>c' b' vs. fold_result (dedicated_group hw) gs (c, b) = Inr (c', b')
      \<and> list_all2 (\<lambda>kv v. group_set c' kv = Some v \<and> card (bits v) = group_cpus kv) (dedicated_groups gs) vs
      \<and> concat (map (bit_list bits) vs) @ bit_list bits b' = bit_list bits b
      \<and> (\<forall>n t. n \<notin> fst ` set gs \<longrightarrow> cpu_set_of c' n t = cpu_set_of c n t)"
proof (induction gs arbitrary: c b)
  case (Cons kv gs)
  let ?c = "c\<lparr>reusable := smap_put (fst kv) (efo_reusable (snd kv)) (reusable c)\<rparr>"
  show ?case
  proof (cases "efo_allow_overlap (snd kv)")
    case True
    then have eq: "dedicated_groups (kv # gs) = dedicated_groups gs"
      "fold_result (dedicated_group hw) (kv # gs) (c, b) = fold_result (dedicated_group hw) gs (?c, b)"
      by (simp_all add: dedicated_groups_def dedicated_group_def Let_def)
    have "\<exists>c' b' vs. fold_result (dedicated_group hw) gs (?c, b) = Inr (c', b')
      \<and> list_all2 (\<lambda>kv v. group_set c' kv = Some v \<and> card (bits v) = group_cpus kv) (dedicated_groups gs) vs
      \<and> concat (map (bit_list bits) vs) @ bit_list bits b' = bit_list bits b
      \<and> (\<forall>n t. n \<notin> fst ` set gs \<longrightarrow> cpu_set_of c' n t = cpu_set_of ?c n t)"
      using Cons.prems unfolding eq by (intro Cons.IH) auto
    then show ?thesis unfolding eq by auto
  next
    case False
    have "group_cpus kv \<le> card (bits b)" using Cons.prems(3) False by (simp add: dedicated_groups_def)
    then obtain v b1 where pop: "bm_pop hw (group_cpus kv) b = Inr (v, b1)"
      and v: "bit_list bits v = take (group_cpus kv) (bit_list bits b)"
      and b1: "bit_list bits b1 = drop (group_cpus kv) (bit_list bits b)"
      by (rule bm_pop_ok [OF assms])
    have cards: "card (bits v) = group_cpus kv" "card (bits b1) = card (bits b) - group_cpus kv"
      using arg_cong [OF v, of length] arg_cong [OF b1, of length] \<open>group_cpus kv \<le> card (bits b)\<close> by simp_all
    have "sum_list (map group_cpus (dedicated_groups gs)) \<le> card (bits b1)"
      using Cons.prems(3) False cards(2) by (simp add: dedicated_groups_def)
    then obtain c' b' vs where step: "fold_result (dedicated_group hw) gs (store_cpu_set kv v ?c, b1) = Inr (c', b')"
      and all: "list_all2 (\<lambda>kv v. group_set c' kv = Some v \<and> card (bits v) = group_cpus kv) (dedicated_groups gs) vs"
      and cat: "concat (map (bit_list bits) vs) @ bit_list bits b' = bit_list bits b1"
      and keep: "\<forall>n t. n \<notin> fst ` set gs \<longrightarrow> cpu_set_of c' n t = cpu_set_of (store_cpu_set kv v ?c) n t"
      using Cons.IH [of b1 "store_cpu_set kv v ?c"] Cons.prems(1,2) by auto
    have "group_set c' kv = Some v"
      using keep Cons.prems(1,2) by (simp add: cpu_set_of_store ordinary_group_def)
    moreover have "\<forall>n t. n \<notin> fst ` set (kv # gs) \<longrightarrow> cpu_set_of c' n t = cpu_set_of c n t"
      using keep Cons.prems(1) by (simp add: cpu_set_of_store ordinary_group_def)
    moreover have "fold_result (dedicated_group hw) (kv # gs) (c, b) = Inr (c', b')"
      using step False by (simp add: dedicated_group_def Let_def pop)
    ultimately show ?thesis
      using all cat False cards(1) v b1
      by (intro exI [of _ c'] exI [of _ b'] exI [of _ "v # vs"]) (simp add: dedicated_groups_def)
  qed
qed (simp add: dedicated_groups_def)

subsection \<open>The round robin over the shared CPUs\<close>

lemma next_shared_cpu_at:
  assumes "hwloc_laws hw bits" and "j \<le> card (bits b)" and "L = bit_list bits b" and "bits b \<noteq> {}"
  shows "next_shared_cpu hw b (if j = 0 then -1 else int (L ! (j - 1))) = Some (int (L ! (j mod card (bits b))))"
proof -
  have fin: "finite (bits b)" by (rule hwloc_lawsD(1) [OF assms(1)])
  have w: "0 < card (bits b)" using assms(4) fin by (simp add: card_gt_0_iff)
  have lt: "next_shared_cpu hw b (if i = 0 then -1 else int (L ! (i - 1))) = Some (int (L ! i))" if "i < card (bits b)" for i
  proof -
    have "L ! i \<in> set L" using that assms(3) by (intro nth_mem) simp
    then have "L ! i < 2 ^ 31" using hwloc_lawsD(2) [OF assms(1)] assms(3) fin by auto
    then have "to_i32 (bm_next hw b (if i = 0 then -1 else int (L ! (i - 1)))) = int (L ! i)"
      using rr_above [OF assms(1) less_imp_le [OF that] assms(3)] that by (simp add: bm_next_def to_i32_def Let_def)
    then show ?thesis by (subst next_shared_cpu.simps) (simp add: Let_def)
  qed
  show ?thesis
  proof (cases "j < card (bits b)")
    case False
    then have j: "j = card (bits b)" using assms(2) by simp
    have "to_i32 (bm_next hw b (if j = 0 then -1 else int (L ! (j - 1)))) = -1"
      using rr_above [OF assms(1,2,3)] j by (simp add: bm_next_def)
    then have "next_shared_cpu hw b (if j = 0 then -1 else int (L ! (j - 1))) = next_shared_cpu hw b (-1)"
      by (subst next_shared_cpu.simps) (simp add: Let_def)
    then show ?thesis using lt [OF w] j by simp
  qed (use lt in simp)
qed

lemma shared_cpus_at:
  assumes "hwloc_laws hw bits" and "L = bit_list bits b" and "bits b \<noteq> {}"
  shows "j \<le> card (bits b) \<Longrightarrow>
    \<exists>j' v'. j' \<le> card (bits b)
      \<and> shared_cpus hw b n (if j = 0 then -1 else int (L ! (j - 1)), v)
          = Some (Inr (if j' = 0 then -1 else int (L ! (j' - 1)), v'))
      \<and> bits v' = bits v \<union> (\<lambda>t. L ! ((j + t) mod card (bits b))) ` {..<n}"
proof (induction n arbitrary: j v)
  case (Suc n)
  let ?w = "card (bits b)"
  have fin: "finite (bits b)" by (rule hwloc_lawsD(1) [OF assms(1)])
  have w: "j mod ?w < ?w" using assms(3) fin by (simp add: card_gt_0_iff)
  have "L ! (j mod ?w) \<in> set L" using w assms(2) by (intro nth_mem) simp
  then have lim: "L ! (j mod ?w) < 2 ^ 31" using hwloc_lawsD(2) [OF assms(1)] assms(2) fin by auto
  obtain v1 where v1: "bm_on hw v (L ! (j mod ?w)) = Inr v1" "bits v1 = insert (L ! (j mod ?w)) (bits v)"
    using bm_on_ok [OF assms(1) lim] by blast
  obtain j' v' where j': "j' \<le> ?w" "shared_cpus hw b n (int (L ! (j mod ?w)), v1)
      = Some (Inr (if j' = 0 then -1 else int (L ! (j' - 1)), v'))"
    "bits v' = bits v1 \<union> (\<lambda>t. L ! ((Suc (j mod ?w) + t) mod ?w)) ` {..<n}"
    using Suc.IH [of "Suc (j mod ?w)" v1] w by auto
  have "shared_cpus hw b (Suc n) (if j = 0 then -1 else int (L ! (j - 1)), v)
      = shared_cpus hw b n (int (L ! (j mod ?w)), v1)"
    using next_shared_cpu_at [OF assms(1) Suc.prems assms(2,3)] lim v1(1) by simp
  moreover have "bits v' = bits v \<union> (\<lambda>t. L ! ((j + t) mod ?w)) ` {..<Suc n}"
  proof -
    have "(Suc (j mod ?w) + t) mod ?w = (j + Suc t) mod ?w" for t
      by (metis add_Suc add_Suc_right mod_Suc_eq mod_add_left_eq)
    then show ?thesis using j'(3) v1(2) by (simp add: lessThan_Suc_eq_insert_0 image_image)
  qed
  ultimately show ?case using j'(1,2) by auto
qed auto

lemma shared_loop_at:
  assumes "hwloc_laws hw bits" and "L = bit_list bits b" and "j \<le> card (bits b)"
    and "n \<le> card (bits b)" and "n < 2 ^ 31"
  shows "\<exists>j' v'. j' \<le> card (bits b)
      \<and> shared_loop hw b n (if j = 0 then -1 else int (L ! (j - 1)), hw_alloc hw)
          = Some (Inr (if j' = 0 then -1 else int (L ! (j' - 1)), v'))
      \<and> bits v' \<subseteq> bits b \<and> card (bits v') = n"
proof (cases "n = 0")
  case True
  then show ?thesis using assms(3) hwloc_lawsD(3) [OF assms(1)]
    by (intro exI [of _ j] exI [of _ "hw_alloc hw"]) (simp add: shared_loop_def)
next
  case False
  let ?w = "card (bits b)"
  have fin: "finite (bits b)" by (rule hwloc_lawsD(1) [OF assms(1)])
  have w: "0 < ?w" using assms(4) False by simp
  then have ne: "bits b \<noteq> {}" by auto
  let ?I = "(\<lambda>t. (j + t) mod ?w) ` {..<n}"
  obtain j' v' where *: "j' \<le> ?w" "shared_cpus hw b n (if j = 0 then -1 else int (L ! (j - 1)), hw_alloc hw)
      = Some (Inr (if j' = 0 then -1 else int (L ! (j' - 1)), v'))" "bits v' = (!) L ` ?I"
    using shared_cpus_at [OF assms(1,2) ne assms(3), of n "hw_alloc hw"] hwloc_lawsD(3) [OF assms(1)] by (auto simp: image_image)
  have I: "?I \<subseteq> {..<length L}" using w assms(2) by auto
  have "inj_on ((!) L) {..<length L}" using assms(2) by (auto simp: inj_on_def nth_eq_iff_index_eq)
  then have "card (bits v') = n"
    using *(3) mod_window_card [OF assms(4), of j] card_image [OF inj_on_subset [OF _ I]] by simp
  moreover have "bits v' \<subseteq> set L" using *(3) I by auto
  ultimately show ?thesis using *(1,2) assms(2,5) fin by (auto simp: shared_loop_def)
qed

lemma overlapping_groups_ok:
  assumes "hwloc_laws hw bits" and "L = bit_list bits b"
  shows "\<forall>kv \<in> set gs. ordinary_group kv \<and> (efo_allow_overlap (snd kv) \<longrightarrow> group_cpus kv \<le> card (bits b) \<and> group_cpus kv < 2 ^ 31) \<Longrightarrow>
    distinct (map fst gs) \<Longrightarrow> j \<le> card (bits b) \<Longrightarrow>
    \<exists>c'. overlapping_groups hw b gs (if j = 0 then -1 else int (L ! (j - 1))) c = Some (Inr c')
      \<and> (\<forall>kv \<in> set (overlap_groups gs). \<exists>v. group_set c' kv = Some v \<and> bits v \<subseteq> bits b \<and> card (bits v) = group_cpus kv)
      \<and> (\<forall>n t. n \<notin> fst ` set (overlap_groups gs) \<longrightarrow> cpu_set_of c' n t = cpu_set_of c n t)
      \<and> shared_cpus_set c' = shared_cpus_set c"
proof (induction gs arbitrary: j c)
  case (Cons kv gs)
  show ?case
  proof (cases "efo_allow_overlap (snd kv)")
    case False
    then show ?thesis using Cons.IH [of j c] Cons.prems by (simp add: overlap_groups_def)
  next
    case True
    have kv: "ordinary_group kv" "group_cpus kv \<le> card (bits b)" "group_cpus kv < 2 ^ 31"
      using Cons.prems(1) True by auto
    obtain j' v where v: "j' \<le> card (bits b)" "bits v \<subseteq> bits b" "card (bits v) = group_cpus kv"
      "shared_loop hw b (group_cpus kv) (if j = 0 then -1 else int (L ! (j - 1)), hw_alloc hw)
        = Some (Inr (if j' = 0 then -1 else int (L ! (j' - 1)), v))"
      using shared_loop_at [OF assms Cons.prems(3) kv(2,3)] by blast
    obtain c' where c': "overlapping_groups hw b gs (if j' = 0 then -1 else int (L ! (j' - 1))) (store_cpu_set kv v c) = Some (Inr c')"
      and sets: "\<forall>kv \<in> set (overlap_groups gs). \<exists>v. group_set c' kv = Some v \<and> bits v \<subseteq> bits b \<and> card (bits v) = group_cpus kv"
      and keep: "\<forall>n t. n \<notin> fst ` set (overlap_groups gs) \<longrightarrow> cpu_set_of c' n t = cpu_set_of (store_cpu_set kv v c) n t"
      and shared: "shared_cpus_set c' = shared_cpus_set (store_cpu_set kv v c)"
      using Cons.IH [of j' "store_cpu_set kv v c"] Cons.prems(1,2) v(1) by auto
    have "fst kv \<notin> fst ` set (overlap_groups gs)" using Cons.prems(2) by (auto simp: overlap_groups_def)
    then have "group_set c' kv = Some v" using keep kv(1) by (simp add: cpu_set_of_store ordinary_group_def)
    moreover have "overlapping_groups hw b (kv # gs) (if j = 0 then -1 else int (L ! (j - 1))) c = Some (Inr c')"
      using True v(4) c' by simp
    moreover have "overlap_groups (kv # gs) = kv # overlap_groups gs" using True by (simp add: overlap_groups_def)
    ultimately show ?thesis
      using sets keep shared v(2,3) kv(1) by (intro exI [of _ c']) (auto simp: cpu_set_of_store ordinary_group_def)
  qed
qed (simp add: overlap_groups_def)

subsection \<open>The default pool\<close>

lemma bm_first_ok:
  assumes "hwloc_laws hw bits" and "bits b \<noteq> {}"
  shows "bm_first hw b = Min (bits b)" "Min (bits b) < 2 ^ 31"
proof -
  have fin: "finite (bits b)" by (rule hwloc_lawsD(1) [OF assms(1)])
  obtain x xs where x: "above (bits b) (-1) = x # xs"
    using assms(2) fin by (cases "above (bits b) (-1)") (auto simp: above_start)
  have "Min {i \<in> bits b. -1 < int i} = x" by (rule above_Cons(3) [OF fin x])
  then have "Min (bits b) = x" by simp
  then show "bm_first hw b = Min (bits b)" "Min (bits b) < 2 ^ 31"
    using next_Cons(2,4) [OF assms(1) _ x] by (simp_all add: bm_first_def)
qed

lemma default_pool_ok:
  assumes "hwloc_laws hw bits" and "eg_default_engine_type g \<noteq> Process" and "0 < n" and "n \<le> card (bits b)"
  shows "\<exists>c' b' D. default_pool hw g n b c = Inr (c', b')
     \<and> bit_list bits D = take n (bit_list bits b) \<and> bit_list bits b' = drop n (bit_list bits b)
     \<and> cpu_set_of c' default_engine_factory_name (eg_default_engine_type g) = Some D
     \<and> (\<not> eg_dedicated_main_thread g \<longrightarrow> (\<exists>v. cpu_set_of c' ''main'' Fiber = Some v \<and> bits v = {Min (bits D)}))"
proof -
  obtain D b' where pop: "bm_pop hw n b = Inr (D, b')" "bit_list bits D = take n (bit_list bits b)"
    "bit_list bits b' = drop n (bit_list bits b)" by (rule bm_pop_ok [OF assms(1,4)])
  have "card (bits D) = n" using arg_cong [OF pop(2), of length] assms(4) by simp
  then have D: "bits D \<noteq> {}" using assms(3) by auto
  obtain v where v: "bm_on hw (hw_alloc hw) (bm_first hw D) = Inr v" "bits v = {Min (bits D)}"
    using bm_on_ok [OF assms(1), of "Min (bits D)" "hw_alloc hw"] bm_first_ok [OF assms(1) D] hwloc_lawsD(3) [OF assms(1)]
    by auto
  show ?thesis
  proof (cases "eg_default_engine_type g")
    case Process
    then show ?thesis using assms(2) by simp
  next
    case Fiber
    then show ?thesis
      using pop v by (auto simp: default_pool_def cpu_set_of_def default_engine_factory_name_def)
  next
    case Thread
    then show ?thesis
      using pop v by (auto simp: default_pool_def cpu_set_of_def default_engine_factory_name_def)
  qed
qed

lemma le_fold_max: "x \<in> set xs \<or> x \<le> (s :: nat) \<Longrightarrow> x \<le> fold max xs s"
proof (induction xs arbitrary: s)
  case (Cons y ys)
  have "x \<in> set ys \<or> x \<le> max y s" using Cons.prems by (auto simp: le_max_iff_disj)
  then show ?case using Cons.IH by simp
qed simp

lemma smap_ok_groups: "smap_ok (eg_groups g) \<Longrightarrow> smap_ok (engine_groups_map g url)"
  by (simp add: engine_groups_map_def Let_def)

lemma generate_eq:
  assumes "hwloc_laws hw bits" and "m_engine_groups o' = Some g" and "m_services o' \<noteq> None" and "bits cpu_set \<noteq> {}"
    and "gs = engine_groups_map g (m_architect_url o')" and "cpu_demand gs + 1 < 2 ^ 64"
  shows "generate_engine_factory_cpu_sets hw o' cpu_set =
    (if card (bits cpu_set) \<le> cpu_demand gs then Some (Inl insufficient_cpus)
     else case rbind (default_pool hw g (card (bits cpu_set) - cpu_demand gs) cpu_set
                   ((engine_cpu_sets_default hw)\<lparr>shared_cpus_has_fibers := snd (snd (count_groups gs))\<rparr>)) (\<lambda>(c, remaining).
                rbind (fold_result (dedicated_group hw) gs (c, remaining)) (\<lambda>(c, remaining).
                  Inr (c\<lparr>shared_cpus_set := remaining\<rparr>, remaining))) of
            Inl e \<Rightarrow> Some (Inl e)
          | Inr (c, remaining) \<Rightarrow> overlapping_groups hw remaining gs (-1) c)"
proof -
  have fin: "finite (bits cpu_set)" by (rule hwloc_lawsD(1) [OF assms(1)])
  have w: "bm_weight hw cpu_set = Inr (int (card (bits cpu_set)))" "0 < card (bits cpu_set)"
    using hwloc_lawsD(9) [OF assms(1), of cpu_set] assms(4) fin by (simp_all add: bm_weight_def card_gt_0_iff)
  have lt: "card (bits cpu_set) < 2 ^ 64"
    by (rule le_less_trans [OF card_bits_le [OF assms(1)]]) simp
  have m: "min_cpu_count gs = cpu_demand gs" "add_sz (cpu_demand gs) (Suc 0) = Suc (cpu_demand gs)"
    using assms(6) by (simp_all add: min_cpu_count_eq)
  obtain s where s: "m_services o' = Some s" using assms(3) by auto
  show ?thesis
  proof (cases "card (bits cpu_set) \<le> cpu_demand gs")
    case True
    then show ?thesis
      by (simp add: generate_engine_factory_cpu_sets_def w services_def engine_factories_def assms(2) s m
          assms(5) [symmetric] Let_def)
  next
    case False
    then have "sub_sz (card (bits cpu_set)) (cpu_demand gs) = card (bits cpu_set) - cpu_demand gs"
      using lt by (intro sub_sz_le) auto
    then show ?thesis
      using False
      by (simp add: generate_engine_factory_cpu_sets_def w services_def engine_factories_def assms(2) s m
          assms(5) [symmetric] Let_def rbind_def split: sum.splits prod.splits)
  qed
qed

lemma deal_ok:
  assumes "hwloc_laws hw bits" and "\<forall>kv \<in> set gs. ordinary_group kv" and "distinct (map fst gs)"
    and "card (bits b) = cpu_demand gs" and "cpu_demand gs < 2 ^ 31"
  shows "\<exists>c2 b2 c vs. fold_result (dedicated_group hw) gs (c1, b) = Inr (c2, b2)
     \<and> overlapping_groups hw b2 gs (-1) (c2\<lparr>shared_cpus_set := b2\<rparr>) = Some (Inr c)
     \<and> list_all2 (\<lambda>kv v. group_set c kv = Some v \<and> card (bits v) = group_cpus kv) (dedicated_groups gs) vs
     \<and> concat (map (bit_list bits) vs) @ bit_list bits (shared_cpus_set c) = bit_list bits b
     \<and> (\<forall>kv \<in> set (overlap_groups gs). \<exists>v. group_set c kv = Some v
          \<and> bits v \<subseteq> bits (shared_cpus_set c) \<and> card (bits v) = group_cpus kv)
     \<and> (\<forall>n t. n \<notin> fst ` set gs \<longrightarrow> cpu_set_of c n t = cpu_set_of c1 n t)"
proof -
  have "sum_list (map group_cpus (dedicated_groups gs)) \<le> card (bits b)" using assms(4) by (simp add: cpu_demand_def)
  from dedicated_groups_ok [OF assms(1-3) this] obtain c2 b2 vs
    where d: "fold_result (dedicated_group hw) gs (c1, b) = Inr (c2, b2)"
      and vs: "list_all2 (\<lambda>kv v. group_set c2 kv = Some v \<and> card (bits v) = group_cpus kv) (dedicated_groups gs) vs"
      and cat: "concat (map (bit_list bits) vs) @ bit_list bits b2 = bit_list bits b"
      and keep2: "\<forall>n t. n \<notin> fst ` set gs \<longrightarrow> cpu_set_of c2 n t = cpu_set_of c1 n t" by blast
  have "length (concat (map (bit_list bits) vs)) = sum_list (map group_cpus (dedicated_groups gs))"
    using vs by (induction rule: list_all2_induct) simp_all
  then have b2: "card (bits b2) = fold max (map group_cpus (overlap_groups gs)) 0"
    using arg_cong [OF cat, of length] assms(4) by (simp add: cpu_demand_def)
  have fits: "\<forall>kv \<in> set gs. ordinary_group kv \<and> (efo_allow_overlap (snd kv) \<longrightarrow> group_cpus kv \<le> card (bits b2) \<and> group_cpus kv < 2 ^ 31)"
  proof (intro ballI conjI impI)
    fix kv assume kv: "kv \<in> set gs" "efo_allow_overlap (snd kv)"
    then show le: "group_cpus kv \<le> card (bits b2)" unfolding b2 by (intro le_fold_max) (simp add: overlap_groups_def)
    have "card (bits b2) \<le> cpu_demand gs" unfolding b2 by (simp add: cpu_demand_def)
    then show "group_cpus kv < 2 ^ 31" using le assms(5) by linarith
  qed (use assms(2) in blast)
  obtain c where c: "overlapping_groups hw b2 gs (-1) (c2\<lparr>shared_cpus_set := b2\<rparr>) = Some (Inr c)"
    and sets: "\<forall>kv \<in> set (overlap_groups gs). \<exists>v. group_set c kv = Some v \<and> bits v \<subseteq> bits b2 \<and> card (bits v) = group_cpus kv"
    and keep: "\<forall>n t. n \<notin> fst ` set (overlap_groups gs) \<longrightarrow> cpu_set_of c n t = cpu_set_of c2 n t"
    and sh: "shared_cpus_set c = b2"
    using overlapping_groups_ok [OF assms(1) refl fits assms(3), of 0 "c2\<lparr>shared_cpus_set := b2\<rparr>"] by auto
  have ded: "fst kv \<notin> fst ` set (overlap_groups gs)" if "kv \<in> set (dedicated_groups gs)" for kv
    using that assms(3) by (auto simp: overlap_groups_def dedicated_groups_def distinct_map dest: inj_onD)
  have "list_all2 (\<lambda>kv v. group_set c kv = Some v \<and> card (bits v) = group_cpus kv) (dedicated_groups gs) vs"
    using vs by (rule list.rel_mono_strong) (use keep ded in simp)
  moreover have "\<forall>n t. n \<notin> fst ` set gs \<longrightarrow> cpu_set_of c n t = cpu_set_of c1 n t"
    using keep keep2 by (auto simp: overlap_groups_def)
  ultimately show ?thesis using d c cat sets unfolding sh [symmetric] by blast
qed

text \<open>C12. The logical CPUs of a partition are split without loss. When the partition has more CPUs than the
  groups demand, no group is of the process type and none has a reserved name, generation returns, and the default pool, the dedicated groups in the order of their
  names and the shared set, read one after the other, are exactly the CPUs of the partition in
  ascending order, so no two of them overlap. Every dedicated group gets as many CPUs as it asked for,
  every overlapping group as many distinct CPUs of the shared set as it asked for, and a main thread
  that is not dedicated gets the lowest CPU of the default pool.\<close>

theorem engine_cpu_sets_partition:
  assumes "hwloc_laws hw bits" and "m_engine_groups o' = Some g" and "m_services o' \<noteq> None"
    and "gs = engine_groups_map g (m_architect_url o')" and "smap_ok (eg_groups g)"
    and "eg_default_engine_type g \<noteq> Process" and "\<forall>kv \<in> set gs. ordinary_group kv"
    and "eg_dedicated_main_thread g \<or> ''main'' \<notin> fst ` set gs"
    and "cpu_demand gs < card (bits cpu_set)"
  shows "\<exists>c D vs. generate_engine_factory_cpu_sets hw o' cpu_set = Some (Inr c)
     \<and> cpu_set_of c default_engine_factory_name (eg_default_engine_type g) = Some D
     \<and> list_all2 (\<lambda>kv v. group_set c kv = Some v \<and> card (bits v) = group_cpus kv) (dedicated_groups gs) vs
     \<and> bit_list bits D @ concat (map (bit_list bits) vs) @ bit_list bits (shared_cpus_set c) = bit_list bits cpu_set
     \<and> (\<forall>kv \<in> set (overlap_groups gs). \<exists>v. group_set c kv = Some v
          \<and> bits v \<subseteq> bits (shared_cpus_set c) \<and> card (bits v) = group_cpus kv)
     \<and> (eg_dedicated_main_thread g \<or> (\<exists>v. cpu_set_of c ''main'' Fiber = Some v \<and> bits v = {Min (bits D)}))"
proof -
  let ?n = "card (bits cpu_set) - cpu_demand gs"
  have lim: "card (bits cpu_set) \<le> 2 ^ 31" by (rule card_bits_le [OF assms(1)])
  then have sm: "cpu_demand gs + 1 < 2 ^ 64" using assms(9) by simp
  have dist: "distinct (map fst gs)"
    unfolding assms(4) by (rule smap_ok_distinct [OF smap_ok_groups [OF assms(5)]])
  have names: "default_engine_factory_name \<notin> fst ` set gs" using assms(7) by (auto simp: ordinary_group_def)
  have n: "0 < ?n" "?n \<le> card (bits cpu_set)" using assms(9) by auto
  let ?c = "(engine_cpu_sets_default hw)\<lparr>shared_cpus_has_fibers := snd (snd (count_groups gs))\<rparr>"
  from default_pool_ok [OF assms(1,6) n, of ?c] obtain c1 b1 D
    where p: "default_pool hw g ?n cpu_set ?c = Inr (c1, b1)"
    and D: "bit_list bits D = take ?n (bit_list bits cpu_set)" "bit_list bits b1 = drop ?n (bit_list bits cpu_set)"
    and def: "cpu_set_of c1 default_engine_factory_name (eg_default_engine_type g) = Some D"
    and main: "\<not> eg_dedicated_main_thread g \<longrightarrow> (\<exists>v. cpu_set_of c1 ''main'' Fiber = Some v \<and> bits v = {Min (bits D)})"
    by blast
  have b1: "card (bits b1) = cpu_demand gs" using arg_cong [OF D(2), of length] assms(9) by simp
  have lt: "cpu_demand gs < 2 ^ 31" using assms(9) lim by linarith
  from deal_ok [OF assms(1,7) dist b1 lt, of c1] obtain c2 b2 c vs
    where d: "fold_result (dedicated_group hw) gs (c1, b1) = Inr (c2, b2)"
      "overlapping_groups hw b2 gs (-1) (c2\<lparr>shared_cpus_set := b2\<rparr>) = Some (Inr c)"
      and vs: "list_all2 (\<lambda>kv v. group_set c kv = Some v \<and> card (bits v) = group_cpus kv) (dedicated_groups gs) vs"
      and cat: "concat (map (bit_list bits) vs) @ bit_list bits (shared_cpus_set c) = bit_list bits b1"
      and sets: "\<forall>kv \<in> set (overlap_groups gs). \<exists>v. group_set c kv = Some v
          \<and> bits v \<subseteq> bits (shared_cpus_set c) \<and> card (bits v) = group_cpus kv"
      and keep: "\<forall>n t. n \<notin> fst ` set gs \<longrightarrow> cpu_set_of c n t = cpu_set_of c1 n t"
    by blast
  have ne: "bits cpu_set \<noteq> {}" using assms(9) by auto
  have gen: "generate_engine_factory_cpu_sets hw o' cpu_set = Some (Inr c)"
    using assms(9) by (simp add: generate_eq [OF assms(1-3) ne assms(4) sm] p d)
  have "bit_list bits D @ concat (map (bit_list bits) vs) @ bit_list bits (shared_cpus_set c) = bit_list bits cpu_set"
    unfolding cat D by simp
  moreover have "cpu_set_of c default_engine_factory_name (eg_default_engine_type g) = Some D" using keep def names by simp
  moreover have "eg_dedicated_main_thread g \<or> (\<exists>v. cpu_set_of c ''main'' Fiber = Some v \<and> bits v = {Min (bits D)})"
    using assms(8) main keep by auto
  ultimately show ?thesis using gen vs sets by blast
qed


text \<open>A partition without a CPU to spare for the default pool is refused: when the demand of the groups
  reaches the number of CPUs, and fits a \<open>size_t\<close>, generation throws, whatever the groups are.\<close>

lemma engine_cpu_sets_insufficient:
  assumes "hwloc_laws hw bits" and "m_engine_groups o' = Some g" and "m_services o' \<noteq> None" and "bits cpu_set \<noteq> {}"
    and "card (bits cpu_set) \<le> cpu_demand (engine_groups_map g (m_architect_url o'))"
    and "cpu_demand (engine_groups_map g (m_architect_url o')) + 1 < 2 ^ 64"
  shows "generate_engine_factory_cpu_sets hw o' cpu_set = Some (Inl insufficient_cpus)"
  using assms(5) by (simp add: generate_eq [OF assms(1-4) refl assms(6)])

subsection \<open>Concrete runs\<close>

definition sample_groups :: engine_groups where
  "sample_groups =
     set_engine_factory_options ''io''
       \<lparr>efo_cpu_count = 2, efo_engine_type = Thread, efo_reusable = False, efo_allow_overlap = False\<rparr>
       (set_engine_factory_options ''net''
         \<lparr>efo_cpu_count = 1, efo_engine_type = Fiber, efo_reusable = True, efo_allow_overlap = True\<rparr> engine_groups_default)"

definition sample_options :: "nat list options" where
  "sample_options = (options_default list_hwloc)\<lparr>m_engine_groups := Some sample_groups\<rparr>"

lemma sample_map:
  "engine_groups_map sample_groups [] =
     [(''io'', \<lparr>efo_cpu_count = 2, efo_engine_type = Thread, efo_reusable = False, efo_allow_overlap = False\<rparr>),
      (''net'', \<lparr>efo_cpu_count = 1, efo_engine_type = Fiber, efo_reusable = True, efo_allow_overlap = True\<rparr>)]"
  by code_simp

lemma sample_bits: "list_bits [0, 1, 2, 3, 4] = {0, 1, 2, 3, 4}"
  by (auto simp: list_bits_def)

theorem engine_cpu_sets_partition_witness:
  "hwloc_laws list_hwloc list_bits
   \<and> (\<exists>c D vs. generate_engine_factory_cpu_sets list_hwloc sample_options [0, 1, 2, 3, 4] = Some (Inr c)
        \<and> bit_list list_bits D @ concat (map (bit_list list_bits) vs) @ bit_list list_bits (shared_cpus_set c)
            = bit_list list_bits [0, 1, 2, 3, 4])"
proof -
  have gs: "m_engine_groups sample_options = Some sample_groups" "m_services sample_options \<noteq> None"
    "engine_groups_map sample_groups [] = engine_groups_map sample_groups (m_architect_url sample_options)"
    by (simp_all add: sample_options_def options_default_def)
  have eg: "smap_ok (eg_groups sample_groups)" "eg_default_engine_type sample_groups \<noteq> Process"
    by (simp_all add: sample_groups_def set_engine_factory_options_def engine_groups_default_def del: smap_put.simps)
  have ord: "\<forall>kv \<in> set (engine_groups_map sample_groups []). ordinary_group kv"
    "eg_dedicated_main_thread sample_groups \<or> ''main'' \<notin> fst ` set (engine_groups_map sample_groups [])"
    unfolding sample_map by (simp_all add: ordinary_group_def default_engine_factory_name_def)
  have "cpu_demand (engine_groups_map sample_groups []) < card (list_bits [0, 1, 2, 3, 4])"
    unfolding sample_bits sample_map by (simp add: cpu_demand_def dedicated_groups_def overlap_groups_def)
  from engine_cpu_sets_partition [OF list_hwloc_laws gs eg ord this] list_hwloc_laws show ?thesis by blast
qed

lemma engine_cpu_sets_insufficient_witness:
  "generate_engine_factory_cpu_sets list_hwloc sample_options [0, 1, 2] = Some (Inl insufficient_cpus)"
proof -
  have "list_bits [0, 1, 2] = {0, 1, 2}" by (auto simp: list_bits_def)
  moreover have "cpu_demand (engine_groups_map sample_groups []) = 3"
    unfolding sample_map by (simp add: cpu_demand_def dedicated_groups_def overlap_groups_def)
  ultimately show ?thesis
    using engine_cpu_sets_insufficient [OF list_hwloc_laws, of sample_options sample_groups "[0, 1, 2]"]
    by (simp add: sample_options_def options_default_def)
qed

text \<open>The sum of the requests is a \<open>size_t\<close>: two requests of $2^{63}$ CPUs pass the check, and the
  first of them then aborts the process.\<close>

definition huge_options :: "nat list options" where
  "huge_options = (options_default list_hwloc)\<lparr>m_engine_groups := Some (engine_groups_default\<lparr>eg_groups :=
     [(''a'', \<lparr>efo_cpu_count = 9223372036854775808, efo_engine_type = Fiber, efo_reusable = True, efo_allow_overlap = False\<rparr>),
      (''b'', \<lparr>efo_cpu_count = 9223372036854775808, efo_engine_type = Fiber, efo_reusable = True, efo_allow_overlap = False\<rparr>)]\<rparr>)\<rparr>"

theorem cpu_count_check_wraps:
  "generate_engine_factory_cpu_sets list_hwloc huge_options [0]
     = Some (Inl (Check_failed ''pop requesting more bits than set in bitmap''))"
proof -
  define g where "g = engine_groups_default\<lparr>eg_groups :=
     [(''a'', \<lparr>efo_cpu_count = 9223372036854775808, efo_engine_type = Fiber, efo_reusable = True, efo_allow_overlap = False\<rparr>),
      (''b'', \<lparr>efo_cpu_count = 9223372036854775808, efo_engine_type = Fiber, efo_reusable = True, efo_allow_overlap = False\<rparr>)]\<rparr>"
  have gs: "engine_groups_map g [] = eg_groups g" by (simp add: engine_groups_map_def engine_groups_default_def g_def)
  have m: "min_cpu_count (eg_groups g) = 0"
    by (simp add: min_cpu_count_def count_groups_def count_group_def add_sz_def g_def)
  have bits: "list_bits [0] = {0}" by (auto simp: list_bits_def)
  let ?c = "(engine_cpu_sets_default list_hwloc)\<lparr>shared_cpus_has_fibers := snd (snd (count_groups (eg_groups g)))\<rparr>"
  obtain c b where d: "default_pool list_hwloc g 1 [0] ?c = Inr (c, b)" "bit_list list_bits b = drop 1 (bit_list list_bits [0])"
    using default_pool_ok [OF list_hwloc_laws, of g 1 "[0]" ?c] bits by (auto simp: engine_groups_default_def g_def)
  have "list_bits b = {}" using d(2) hwloc_lawsD(1) [OF list_hwloc_laws, of b] unfolding bits by simp
  then have pop: "bm_pop list_hwloc 9223372036854775808 b
      = Inl (Check_failed ''pop requesting more bits than set in bitmap'')"
    by (intro bm_pop_error [OF list_hwloc_laws]) simp
  have w: "bm_weight list_hwloc [0] = Inr 1"
    using hwloc_lawsD(9) [OF list_hwloc_laws, of "[0]"] bits by (simp add: bm_weight_def)
  have o': "m_engine_groups huge_options = Some g" "m_architect_url huge_options = []"
    "m_services huge_options = Some service_options_default"
    by (simp_all add: huge_options_def options_default_def g_def)
  have sz: "add_sz 0 (Suc 0) = Suc 0" "sub_sz (Suc 0) 0 = Suc 0" by (simp_all add: add_sz_def sub_sz_def)
  have f: "fold_result (dedicated_group list_hwloc) (eg_groups g) (c, b)
      = Inl (Check_failed ''pop requesting more bits than set in bitmap'')"
    by (simp add: dedicated_group_def pop Let_def g_def)
  show ?thesis
    using d(1) by (simp add: generate_engine_factory_cpu_sets_def w services_def engine_factories_def o' gs m sz f Let_def)
qed

end
