(* ===== verification/Partitions.thy ===== *)
theory Partitions
  imports Topology Engine_Cpu_Sets
begin

section \<open>Host and device partitions\<close>

text \<open>
  \<^verbatim>\<open>src/internal/system/partitions.cpp\<close>, \<^verbatim>\<open>host_partition.cpp\<close> and \<^verbatim>\<open>device_partition.cpp\<close>: the machine is divided
  into host partitions, one for the machine or for every NUMA node, which are divided again among the GPUs
  when every GPU is to have cores of its own; every GPU becomes a device partition of a host partition.
\<close>

definition div_even :: "int \<Rightarrow> int \<Rightarrow> int \<Rightarrow> int \<times> int" where
  "div_even n np me =
     (let nr = n div np; ne = n mod np
      in (nr, if me < ne then (nr + 1) * me else (nr + 1) * ne + nr * (me - ne)))"

record 'b host_partition =
  hp_cpu_set :: 'b
  hp_numa_set :: 'b
  hp_total_memory :: nat
  hp_device_partitions :: "nat list"
  hp_engine_factory_cpu_sets :: "'b engine_cpu_sets option"

definition host_partition_new :: "'b \<Rightarrow> 'b \<Rightarrow> nat \<Rightarrow> 'b host_partition" where
  "host_partition_new cpu_set numa_set total_memory =
     \<lparr>hp_cpu_set = cpu_set, hp_numa_set = numa_set, hp_total_memory = total_memory, hp_device_partitions = [],
      hp_engine_factory_cpu_sets = None\<rparr>"

definition add_device_partition_id :: "nat \<Rightarrow> 'b host_partition \<Rightarrow> 'b host_partition" where
  "add_device_partition_id gpu_id h = h\<lparr>hp_device_partitions := hp_device_partitions h @ [gpu_id]\<rparr>"

record 'b device_partition =
  dp_gpu :: "'b gpu_info"
  dp_host_partition_id :: nat

definition device_partition_new :: "'b gpu_info \<Rightarrow> 'b host_partition list \<Rightarrow> nat \<Rightarrow> 'b device_partition result" where
  "device_partition_new info hosts id' =
     rbind (rcheck (id' < length hosts) ''m_host_partition_id < m_host_partitions.size()'') (\<lambda>_.
       Inr \<lparr>dp_gpu = info, dp_host_partition_id = id'\<rparr>)"

definition device_host :: "'b host_partition list \<Rightarrow> 'b device_partition \<Rightarrow> 'b host_partition result" where
  "device_host hosts d =
     (if dp_host_partition_id d < length hosts then Inr (hosts ! dp_host_partition_id d) else Inl (Out_of_range ''vector::at''))"

record 'b partitions =
  pt_host_partitions :: "'b host_partition list"
  pt_device_partitions :: "'b device_partition list"
  pt_cpu_strategy :: placement_strategy
  pt_device_to_host_strategy :: placement_resources

subsection \<open>Strategies\<close>

definition gpus_per_numa_node ::
    "'b hwloc \<Rightarrow> ('t, 'b) hwloc_topo \<Rightarrow> ('t, 'b) topology \<Rightarrow> 'b shared_bit_map result" where
  "gpus_per_numa_node hw ht tp =
     fold_result (\<lambda>(gpu_id, info) m.
       rbind (hw_check (ht_cpuset_to_nodeset ht (tp_topology tp) (gi_cpu_set info))) (\<lambda>node_set.
       rbind (bm_weight hw node_set) (\<lambda>w.
         if w = 0 then Inr m
         else rbind (rcheck (w = 1) ''node_set.weight() == 1'') (\<lambda>_. sbm_insert hw node_set (to_u32 gpu_id) m))))
       (tp_gpu_info tp) []"

definition symmetric_topology :: "'b hwloc \<Rightarrow> nat \<Rightarrow> nat \<Rightarrow> 'b shared_bit_map \<Rightarrow> bool result" where
  "symmetric_topology hw gpu_count numa_count m =
     (let div' = int (gpu_count div length m); rem' = gpu_count mod length m
      in fold_result (\<lambda>(numa_id, gpu_bitmap) symmetric.
           rbind (bm_weight hw gpu_bitmap) (\<lambda>w. Inr (symmetric \<and> w = div'))) m (numa_count = length m \<and> rem' = 0))"

definition select_cpu_strategy ::
    "'b hwloc \<Rightarrow> placement_strategy \<Rightarrow> nat \<Rightarrow> nat \<Rightarrow> 'b shared_bit_map \<Rightarrow> placement_strategy result" where
  "select_cpu_strategy hw strategy gpu_count numa_count m =
     (if strategy = PerNumaNode \<and> m \<noteq> []
      then rbind (symmetric_topology hw gpu_count numa_count m) (\<lambda>symmetric. Inr (if symmetric then strategy else PerMachine))
      else Inr strategy)"

definition select_resources_strategy :: "placement_resources \<Rightarrow> nat \<Rightarrow> nat \<Rightarrow> placement_resources" where
  "select_resources_strategy strategy cpu_count gpu_count =
     (if cpu_count < gpu_count \<and> strategy = Dedicated then Shared else strategy)"

subsection \<open>Forming the partitions\<close>

record 'b forming =
  fm_hosts :: "'b host_partition list"
  fm_devices :: "'b device_partition list"
  fm_remaining :: "'b gpu_map"

text \<open>The best score is never raised, so every GPU beats it.\<close>

definition device_best_match :: "'b hwloc \<Rightarrow> 'b \<Rightarrow> 'b gpu_map \<Rightarrow> (int \<times> 'b gpu_map) result" where
  "device_best_match hw cpu_set remaining_gpus =
     (let top_score = -1
      in rbind (fold_result (\<lambda>(gpu_id, info) top_idx.
           rbind (set_intersect hw cpu_set (gi_cpu_set info)) (\<lambda>intersection.
           rbind (bm_weight hw intersection) (\<lambda>w. Inr (if w > top_score then gpu_id else top_idx)))) remaining_gpus (-1)) (\<lambda>top_idx.
         Inr (top_idx, smap_erase top_idx remaining_gpus)))"

definition core_cpu_set :: "'b hwloc \<Rightarrow> 'b list \<Rightarrow> int \<Rightarrow> int \<Rightarrow> 'b result" where
  "core_cpu_set hw cores sc nc =
     fold_result (\<lambda>ic cpu_set.
       if nat ic < length cores then bm_append hw cpu_set (cores ! nat ic)
       else Inl (Undefined_behaviour ''null core_obj'')) [sc .. sc + nc - 1] (hw_alloc hw)"

definition dedicated_cpu_sets :: "'b hwloc \<Rightarrow> ('t, 'b) hwloc_topo \<Rightarrow> 't \<Rightarrow> 'b \<Rightarrow> nat \<Rightarrow> 'b list result" where
  "dedicated_cpu_sets hw ht t root_cpuset count' =
     (case ht_cores_inside ht t root_cpuset of (core_count, cores) \<Rightarrow>
        rbind (rcheck (core_count \<noteq> -1) ''core_count != -1'') (\<lambda>_.
        rbind (rcheck (int count' \<le> core_count) ''count <= core_count'') (\<lambda>_.
          fold_result (\<lambda>i cpu_sets.
            case div_even core_count (int count') (int i) of (nc, sc) \<Rightarrow>
              rbind (core_cpu_set hw cores sc nc) (\<lambda>cpu_set. Inr (cpu_sets @ [cpu_set]))) [0 ..< count'] [])))"

definition place_device :: "'b hwloc \<Rightarrow> 'b gpu_map \<Rightarrow> 'b forming \<Rightarrow> 'b forming result" where
  "place_device hw gpus st =
     rbind (rcheck (0 < length (fm_hosts st)) ''m_host_partitions.size() > 0'') (\<lambda>_.
       let host_partition_id = length (fm_hosts st) - 1
       in if fm_remaining st = [] then Inr st
          else rbind (device_best_match hw (hp_cpu_set (fm_hosts st ! host_partition_id)) (fm_remaining st)) (\<lambda>(cuda_id, remaining).
               case smap_find gpus cuda_id of
                 None \<Rightarrow> Inl (Out_of_range ''map::at'')
               | Some info \<Rightarrow>
                   rbind (device_partition_new info (fm_hosts st) host_partition_id) (\<lambda>d.
                     let device_partition_id = length (fm_devices st)
                     in Inr \<lparr>fm_hosts = (fm_hosts st)[host_partition_id :=
                               add_device_partition_id device_partition_id (fm_hosts st ! host_partition_id)],
                             fm_devices = fm_devices st @ [d], fm_remaining = remaining\<rparr>)))"

definition place_dedicated ::
    "'b hwloc \<Rightarrow> ('t, 'b) hwloc_topo \<Rightarrow> ('t, 'b) topology \<Rightarrow> 'b list \<Rightarrow> nat \<Rightarrow> nat \<Rightarrow> 'b forming \<Rightarrow> 'b forming result" where
  "place_dedicated hw ht tp cpu_sets partition_memory s_id st =
     rbind (rcheck (s_id < length cpu_sets) ''s_id < cpu_sets.size()'') (\<lambda>_.
     rbind (numaset_for_cpuset ht (tp_topology tp) (cpu_sets ! s_id)) (\<lambda>numa_set.
       place_device hw (tp_gpu_info tp)
         (st\<lparr>fm_hosts := fm_hosts st @ [host_partition_new (cpu_sets ! s_id) numa_set partition_memory]\<rparr>)))"

definition form_partition ::
    "'b hwloc \<Rightarrow> ('t, 'b) hwloc_topo \<Rightarrow> ('t, 'b) topology \<Rightarrow> placement_resources \<Rightarrow> int \<Rightarrow> nat \<Rightarrow> nat \<Rightarrow> 'b forming \<Rightarrow> 'b forming result" where
  "form_partition hw ht tp strategy depth count' p_id st =
     rbind (object_at_depth ht (tp_topology tp) depth p_id) (\<lambda>obj.
       if strategy = Dedicated
       then rbind (dedicated_cpu_sets hw ht (tp_topology tp) (ob_cpuset obj) count') (\<lambda>cpu_sets.
              fold_result (place_dedicated hw ht tp cpu_sets (ob_total_memory obj div count')) [0 ..< count'] st)
       else rbind (cpuset_for_object ht (tp_topology tp) depth p_id) (\<lambda>cpu_set.
            rbind (numaset_for_object ht (tp_topology tp) depth p_id) (\<lambda>numa_set.
              fold_result (\<lambda>s_id. place_device hw (tp_gpu_info tp)) [0 ..< count']
                (st\<lparr>fm_hosts := fm_hosts st @ [host_partition_new cpu_set numa_set (ob_total_memory obj)]\<rparr>))))"

definition form_all ::
    "'b hwloc \<Rightarrow> ('t, 'b) hwloc_topo \<Rightarrow> ('t, 'b) topology \<Rightarrow> placement_options \<Rightarrow> 'b shared_bit_map \<Rightarrow> 'b partitions result" where
  "form_all hw ht tp po m =
     (let t = tp_topology tp; gpu_count = topo_gpu_count tp
      in rbind (select_cpu_strategy hw (m_cpu_strategy po) gpu_count (topo_numa_count ht t) m) (\<lambda>cpu_strategy.
         let resources = select_resources_strategy (m_resources_strategy po) (topo_cpu_count ht t) gpu_count
         in rbind (depth_for_object ht t (if cpu_strategy = PerNumaNode then HW_numanode else HW_machine)) (\<lambda>depth.
            let partition_size = object_count_at_depth ht t depth
            in if partition_size = 0 then Inl (Undefined_behaviour ''division by zero'')
               else rbind (rcheck (gpu_count mod partition_size = 0) ''gpu_count % partition_size == 0'') (\<lambda>_.
                    rbind (fold_result (form_partition hw ht tp resources depth (max (gpu_count div partition_size) 1))
                             [0 ..< partition_size] \<lparr>fm_hosts = [], fm_devices = [], fm_remaining = tp_gpu_info tp\<rparr>) (\<lambda>st.
                    rbind (rcheck (gpu_count = length (fm_devices st)) ''gpu_count == m_device_partitions.size()'') (\<lambda>_.
                    rbind (rcheck (length (fm_remaining st) = 0) ''remaining_gpus.size() == 0'') (\<lambda>_.
                      Inr \<lparr>pt_host_partitions = fm_hosts st, pt_device_partitions = fm_devices st,
                           pt_cpu_strategy = cpu_strategy, pt_device_to_host_strategy = resources\<rparr>)))))))"

definition partitions_form ::
    "'b hwloc \<Rightarrow> ('t, 'b) hwloc_topo \<Rightarrow> ('t, 'b) topology \<Rightarrow> 'b options \<Rightarrow> 'b partitions result" where
  "partitions_form hw ht tp o' =
     rbind (gpus_per_numa_node hw ht tp) (\<lambda>m. rbind (placement o') (\<lambda>po. form_all hw ht tp po m))"

text \<open>The engine factories of every host partition; \<open>None\<close> stands for a constructor that does not return.\<close>

definition set_engine_factory_cpu_sets :: "'b hwloc \<Rightarrow> 'b options \<Rightarrow> 'b host_partition \<Rightarrow> 'b host_partition result option" where
  "set_engine_factory_cpu_sets hw o' h =
     map_option (map_sum id (\<lambda>c. h\<lparr>hp_engine_factory_cpu_sets := Some c\<rparr>)) (generate_engine_factory_cpu_sets hw o' (hp_cpu_set h))"

fun set_all_engine_factories :: "'b hwloc \<Rightarrow> 'b options \<Rightarrow> 'b host_partition list \<Rightarrow> 'b host_partition list result option" where
  "set_all_engine_factories hw o' [] = Some (Inr [])"
| "set_all_engine_factories hw o' (h # hs) =
     Option.bind (set_engine_factory_cpu_sets hw o' h) (\<lambda>r. case r of
       Inl e \<Rightarrow> Some (Inl e)
     | Inr h \<Rightarrow> map_option (map_sum id (\<lambda>hs. h # hs)) (set_all_engine_factories hw o' hs))"

definition partitions_new ::
    "'b hwloc \<Rightarrow> ('t, 'b) hwloc_topo \<Rightarrow> ('t, 'b) topology \<Rightarrow> 'b options \<Rightarrow> 'b partitions result option" where
  "partitions_new hw ht tp o' =
     (case partitions_form hw ht tp o' of
        Inl e \<Rightarrow> Some (Inl e)
      | Inr pt \<Rightarrow> map_option (map_sum id (\<lambda>hs. pt\<lparr>pt_host_partitions := hs\<rparr>))
                   (set_all_engine_factories hw o' (pt_host_partitions pt)))"

definition host_partition_containing :: "'b hwloc \<Rightarrow> 'b \<Rightarrow> 'b partitions \<Rightarrow> 'b host_partition result" where
  "host_partition_containing hw cpu_set pt =
     rbind (bm_weight hw cpu_set) (\<lambda>w.
     rbind (rcheck (w > 0) ''cpu_set.weight() > 0'') (\<lambda>_.
     case find (\<lambda>h. bm_contains hw (hp_cpu_set h) cpu_set) (pt_host_partitions pt) of
       Some h \<Rightarrow> Inr h
     | None \<Rightarrow> Inl (Fatal ''unable to determine host_partition which contains cpu_set'')))"

subsection \<open>Every GPU has a place\<close>

text \<open>The host partition ids of the devices are valid, and a host partition lists exactly its devices, in order.\<close>

definition linked :: "'b host_partition list \<Rightarrow> 'b device_partition list \<Rightarrow> bool" where
  "linked hs ds \<longleftrightarrow> (\<forall>d \<in> set ds. dp_host_partition_id d < length hs)
     \<and> (\<forall>h < length hs. hp_device_partitions (hs ! h) = filter (\<lambda>j. dp_host_partition_id (ds ! j) = h) [0 ..< length ds])"

definition forming_ok :: "'b gpu_map \<Rightarrow> 'b forming \<Rightarrow> bool" where
  "forming_ok gpus st \<longleftrightarrow> linked (fm_hosts st) (fm_devices st)
     \<and> (\<exists>k \<le> length gpus. fm_remaining st = take k gpus \<and> map dp_gpu (fm_devices st) = rev (map snd (drop k gpus)))"

lemma linked_new_host: "linked hs ds \<Longrightarrow> hp_device_partitions h = [] \<Longrightarrow> linked (hs @ [h]) ds"
proof -
  assume l: "linked hs ds" and h: "hp_device_partitions h = []"
  have ids: "\<forall>d \<in> set ds. dp_host_partition_id d < length hs" using l by (simp add: linked_def)
  have "filter (\<lambda>j. dp_host_partition_id (ds ! j) = length hs) [0 ..< length ds] = []"
    using ids by (auto simp: filter_empty_conv) (metis nat_neq_iff nth_mem)
  moreover have "\<forall>d \<in> set ds. dp_host_partition_id d < length (hs @ [h])" using ids by auto
  ultimately show ?thesis using l h by (simp add: linked_def nth_append less_Suc_eq)
qed

lemma linked_new_device:
  assumes "linked hs ds" and "dp_host_partition_id d < length hs"
  shows "linked (hs[dp_host_partition_id d := add_device_partition_id (length ds) (hs ! dp_host_partition_id d)]) (ds @ [d])"
proof -
  have "filter (\<lambda>j. dp_host_partition_id ((ds @ [d]) ! j) = h) [0 ..< length ds] = filter (\<lambda>j. dp_host_partition_id (ds ! j) = h) [0 ..< length ds]" for h
    by (rule filter_cong) (simp_all add: nth_append)
  then show ?thesis using assms by (auto simp: linked_def add_device_partition_id_def nth_list_update)
qed

lemma smap_erase_last:
  assumes "smap_ok (m @ [(k, v)])"
  shows "smap_erase k (m @ [(k, v)]) = m"
proof -
  have "\<forall>p \<in> set m. fst p \<noteq> k" using smap_ok_distinct [OF assms] by auto
  then show ?thesis by (simp add: smap_erase_def)
qed

lemma best_match_scan:
  assumes "hwloc_laws hw bits"
  shows "fold_result (\<lambda>(gpu_id, info) top_idx.
           rbind (set_intersect hw cs (gi_cpu_set info)) (\<lambda>intersection.
           rbind (bm_weight hw intersection) (\<lambda>w. Inr (if w > -1 then gpu_id else top_idx)))) m i
     = Inr (if m = [] then i else fst (last m))"
proof (induction m arbitrary: i)
  case (Cons g m)
  obtain c where "set_intersect hw cs (gi_cpu_set (snd g)) = Inr c" using set_intersect_ok [OF assms] by blast
  then show ?case using Cons.IH [of "fst g"]
    by (cases g) (simp add: rbind_def bm_weight_def hwloc_lawsD(9) [OF assms])
qed simp

text \<open>The scan ends on the GPU with the highest id, whatever the overlap.\<close>

lemma device_best_match_last:
  assumes "hwloc_laws hw bits" and "smap_ok (m @ [(k, v)])"
  shows "device_best_match hw cs (m @ [(k, v)]) = Inr (k, m)"
  using best_match_scan [OF assms(1), of cs "m @ [(k, v)]"] smap_erase_last [OF assms(2)]
  by (simp add: device_best_match_def rbind_def)

lemma smap_ok_take: "smap_ok m \<Longrightarrow> smap_ok (take k m)"
  by (simp add: smap_ok_def take_map [symmetric] sorted_wrt_take)

lemma smap_find_nth: "smap_ok m \<Longrightarrow> i < length m \<Longrightarrow> smap_find m (fst (m ! i)) = Some (snd (m ! i))"
  using smap_ok_distinct by (metis map_of_is_SomeI nth_mem prod.collapse)

lemma place_device_ok:
  assumes "hwloc_laws hw bits" and "smap_ok gpus" and "forming_ok gpus st" and "place_device hw gpus st = Inr st'"
  shows "forming_ok gpus st'"
proof (cases "fm_remaining st = []")
  case True
  then show ?thesis using assms(3,4) by (simp add: place_device_def rbind_def rcheck_def Let_def split: if_splits)
next
  case False
  obtain k where k: "k \<le> length gpus" "fm_remaining st = take k gpus" "map dp_gpu (fm_devices st) = rev (map snd (drop k gpus))"
    and lk: "linked (fm_hosts st) (fm_devices st)"
    using assms(3) by (auto simp: forming_ok_def)
  obtain n where n: "k = Suc n" using False k(2) by (cases k) auto
  have tk: "take k gpus = take n gpus @ [(fst (gpus ! n), snd (gpus ! n))]"
    using k(1) by (simp add: n take_Suc_conv_app_nth)
  let ?h = "length (fm_hosts st) - 1"
  let ?d = "\<lparr>dp_gpu = snd (gpus ! n), dp_host_partition_id = ?h\<rparr>"
  have ne: "fm_hosts st \<noteq> []" using assms(4) by (auto simp: place_device_def rbind_def rcheck_def)
  have bm: "device_best_match hw cs (fm_remaining st) = Inr (fst (gpus ! n), take n gpus)" for cs
    using device_best_match_last [OF assms(1), of "take n gpus" "fst (gpus ! n)" "snd (gpus ! n)" cs] smap_ok_take [OF assms(2), of k]
    unfolding k(2) tk by blast
  have st': "st' = \<lparr>fm_hosts = (fm_hosts st)[?h := add_device_partition_id (length (fm_devices st)) (fm_hosts st ! ?h)],
      fm_devices = fm_devices st @ [?d], fm_remaining = take n gpus\<rparr>"
    using assms(4) False ne bm smap_find_nth [OF assms(2), of n] k(1)
    by (simp add: place_device_def device_partition_new_def rbind_def rcheck_def Let_def n)
  have "drop n gpus = gpus ! n # drop k gpus" using k(1) by (simp add: n Cons_nth_drop_Suc)
  then show ?thesis
    using linked_new_device [OF lk, of ?d] ne k by (auto simp: st' forming_ok_def n intro!: exI [of _ n])
qed

lemma forming_ok_new_host:
  "forming_ok gpus st \<Longrightarrow> forming_ok gpus (st\<lparr>fm_hosts := fm_hosts st @ [host_partition_new a b m]\<rparr>)"
  using linked_new_host [of "fm_hosts st" "fm_devices st" "host_partition_new a b m"]
  by (simp add: forming_ok_def host_partition_new_def)

lemma place_dedicated_ok:
  assumes "hwloc_laws hw bits" and "smap_ok (tp_gpu_info tp)" and "forming_ok (tp_gpu_info tp) st"
    and "place_dedicated hw ht tp css pm s st = Inr st'"
  shows "forming_ok (tp_gpu_info tp) st'"
proof -
  obtain ns where p: "place_device hw (tp_gpu_info tp)
      (st\<lparr>fm_hosts := fm_hosts st @ [host_partition_new (css ! s) ns pm]\<rparr>) = Inr st'"
    using assms(4) by (auto simp: place_dedicated_def rbind_eq_Inr)
  show ?thesis by (rule place_device_ok [OF assms(1,2) forming_ok_new_host [OF assms(3)] p])
qed

lemma form_partition_ok:
  assumes "hwloc_laws hw bits" and "smap_ok (tp_gpu_info tp)" and "forming_ok (tp_gpu_info tp) st"
    and "form_partition hw ht tp rs depth c p st = Inr st'"
  shows "forming_ok (tp_gpu_info tp) st'"
proof -
  note inv = fold_result_invariant [where I = "forming_ok (tp_gpu_info tp)"]
  show ?thesis
  proof (cases "rs = Dedicated")
    case True
    then obtain css pm where "fold_result (place_dedicated hw ht tp css pm) [0 ..< c] st = Inr st'"
      using assms(4) by (auto simp: form_partition_def rbind_eq_Inr)
    from inv [OF _ assms(3) this] show ?thesis using place_dedicated_ok [OF assms(1,2)] by blast
  next
    case False
    then obtain a b m where f: "fold_result (\<lambda>s. place_device hw (tp_gpu_info tp)) [0 ..< c]
        (st\<lparr>fm_hosts := fm_hosts st @ [host_partition_new a b m]\<rparr>) = Inr st'"
      using assms(4) by (auto simp: form_partition_def rbind_eq_Inr)
    from inv [OF _ forming_ok_new_host [OF assms(3)] f] show ?thesis using place_device_ok [OF assms(1,2)] by blast
  qed
qed

text \<open>C14. When the partitions are formed, every GPU of the topology has exactly one device partition, in the order
  of the GPU ids from the highest to the lowest; every device partition belongs to an existing host partition, and
  every host partition lists exactly its own device partitions. The overlap of the CPU sets plays no part in it,
  although the comment of \<^verbatim>\<open>device_best_match\<close> promises the GPU with the highest overlap.\<close>

theorem partitions_place_gpus:
  assumes "hwloc_laws hw bits" and "smap_ok (tp_gpu_info tp)" and "partitions_form hw ht tp o' = Inr pt"
  shows "map dp_gpu (pt_device_partitions pt) = rev (map snd (tp_gpu_info tp))
     \<and> (\<forall>d \<in> set (pt_device_partitions pt). \<exists>h. device_host (pt_host_partitions pt) d = Inr h)
     \<and> (\<forall>h < length (pt_host_partitions pt). hp_device_partitions (pt_host_partitions pt ! h)
          = filter (\<lambda>j. dp_host_partition_id (pt_device_partitions pt ! j) = h) [0 ..< length (pt_device_partitions pt)])"
proof -
  obtain rs depth c n st where st: "fold_result (form_partition hw ht tp rs depth c) [0 ..< n]
        \<lparr>fm_hosts = [], fm_devices = [], fm_remaining = tp_gpu_info tp\<rparr> = Inr st"
    and rem: "fm_remaining st = []" and pt: "pt_host_partitions pt = fm_hosts st" "pt_device_partitions pt = fm_devices st"
    using assms(3) by (auto simp: partitions_form_def form_all_def rbind_eq_Inr rcheck_def Let_def split: if_splits)
  have "forming_ok (tp_gpu_info tp) st"
  proof (rule fold_result_invariant [where I = "forming_ok (tp_gpu_info tp)", OF _ _ st])
    show "forming_ok (tp_gpu_info tp) \<lparr>fm_hosts = [], fm_devices = [], fm_remaining = tp_gpu_info tp\<rparr>"
      by (auto simp: forming_ok_def linked_def intro!: exI [of _ "length (tp_gpu_info tp)"])
  qed (use form_partition_ok [OF assms(1,2)] in blast)
  then obtain k where k: "take k (tp_gpu_info tp) = []" "map dp_gpu (fm_devices st) = rev (map snd (drop k (tp_gpu_info tp)))"
    and lk: "linked (fm_hosts st) (fm_devices st)"
    using rem by (auto simp: forming_ok_def)
  from k(1) have "drop k (tp_gpu_info tp) = tp_gpu_info tp" by auto
  then show ?thesis using k(2) lk by (auto simp: pt linked_def device_host_def)
qed

subsection \<open>Dedicated cores\<close>

definition first_core :: "nat \<Rightarrow> nat \<Rightarrow> nat \<Rightarrow> nat" where
  "first_core n np i = i * (n div np) + min i (n mod np)"

lemma div_even_nat: "div_even (int n) (int np) (int i) = (int (n div np), int (first_core n np i))"
  by (simp add: div_even_def first_core_def Let_def zdiv_int [symmetric] zmod_int [symmetric] min_def)
     (simp add: algebra_simps of_nat_diff)

lemma first_core_apart:
  assumes "i < j"
  shows "first_core n np i + n div np \<le> first_core n np j"
proof -
  have "(i + 1) * (n div np) \<le> j * (n div np)" using assms by (intro mult_le_mono1) simp
  then show ?thesis using assms by (simp add: first_core_def min_def)
qed

lemma first_core_bound:
  assumes "i < np"
  shows "first_core n np i + n div np \<le> n"
proof -
  have "first_core n np i + n div np \<le> first_core n np np" using first_core_apart assms by blast
  also have "\<dots> \<le> np * (n div np) + n mod np" unfolding first_core_def by (intro add_left_mono min.cobounded2)
  finally show ?thesis by simp
qed

lemma skipped_core:
  assumes "i < n mod np" and "first_core n np j \<le> i * (n div np + 1) + n div np"
  shows "first_core n np j + n div np \<le> i * (n div np + 1) + n div np"
proof (cases "j \<le> i")
  case True
  then have "j * (n div np) \<le> i * (n div np)" by (rule mult_le_mono1)
  moreover have "min j (n mod np) \<le> i" using True by simp
  ultimately have "first_core n np j \<le> i * (n div np) + i" unfolding first_core_def by (rule add_mono)
  then show ?thesis by (simp add: algebra_simps)
next
  case False
  have "(i + 1) * (n div np) \<le> j * (n div np)" using False by (intro mult_le_mono1) simp
  then have "i * (n div np + 1) + n div np < first_core n np j"
    using False assms(1) by (simp add: first_core_def min_def algebra_simps)
  then show ?thesis using assms(2) by simp
qed

lemma skipped_core_bound:
  assumes "i < n mod np" and "0 < (np :: nat)"
  shows "i * (n div np + 1) + n div np < n"
proof -
  have "(i + 1) * (n div np) \<le> np * (n div np)"
    using assms mod_less_divisor [OF assms(2), of n] by (intro mult_le_mono1) linarith
  moreover have "np * (n div np) + n mod np = n" by simp
  ultimately have "(i + 1) * (n div np) + i < n" using assms(1) by linarith
  then show ?thesis by (simp add: algebra_simps)
qed

lemma core_cpu_set_ok:
  assumes "hwloc_laws hw bits" and "sc + nc \<le> length cores"
  shows "\<exists>cs. core_cpu_set hw cores (int sc) (int nc) = Inr cs \<and> bits cs = (\<Union>c \<in> {sc ..< sc + nc}. bits (cores ! c))"
proof -
  let ?f = "\<lambda>ic cpu_set. if nat ic < length cores then bm_append hw cpu_set (cores ! nat ic)
       else Inl (Undefined_behaviour ''null core_obj'')"
  have fold: "set (map nat is) \<subseteq> {..< length cores} \<Longrightarrow>
      \<exists>cs. fold_result ?f is a = Inr cs \<and> bits cs = bits a \<union> (\<Union>c \<in> set (map nat is). bits (cores ! c))" for "is" a
  proof (induction "is" arbitrary: a)
    case (Cons x xs)
    obtain b where "bm_append hw a (cores ! nat x) = Inr b" "bits b = bits a \<union> bits (cores ! nat x)"
      using bm_append_ok [OF assms(1)] by blast
    then show ?case using Cons.prems Cons.IH [of b] by auto
  qed simp
  have img: "set (map nat [int sc .. int sc + int nc - 1]) = {sc ..< sc + nc}"
  proof (intro set_eqI iffI)
    fix c assume "c \<in> {sc ..< sc + nc}"
    then have "int c \<in> {int sc .. int sc + int nc - 1}" "c = nat (int c)" by auto
    then show "c \<in> set (map nat [int sc .. int sc + int nc - 1])" by (metis image_eqI list.set_map set_upto)
  qed auto
  have "{sc ..< sc + nc} \<subseteq> {..< length cores}" using assms(2) by auto
  then show ?thesis using fold [of "[int sc .. int sc + int nc - 1]" "hw_alloc hw"]
    unfolding img hwloc_lawsD(3) [OF assms(1)] core_cpu_set_def by simp
qed

lemma dedicated_fold:
  assumes "hwloc_laws hw bits" and "n = length cores" and "k \<le> np"
  shows "\<exists>css. fold_result (\<lambda>i cpu_sets.
            case div_even (int n) (int np) (int i) of (nc, sc) \<Rightarrow>
              rbind (core_cpu_set hw cores sc nc) (\<lambda>cpu_set. Inr (cpu_sets @ [cpu_set]))) [0 ..< k] [] = Inr css
     \<and> length css = k \<and> (\<forall>i < k. bits (css ! i) = (\<Union>c \<in> {first_core n np i ..< first_core n np i + n div np}. bits (cores ! c)))"
  using assms(3)
proof (induction k)
  case (Suc k)
  then obtain css where css: "fold_result (\<lambda>i cpu_sets.
            case div_even (int n) (int np) (int i) of (nc, sc) \<Rightarrow>
              rbind (core_cpu_set hw cores sc nc) (\<lambda>cpu_set. Inr (cpu_sets @ [cpu_set]))) [0 ..< k] [] = Inr css"
    "length css = k" "\<forall>i < k. bits (css ! i) = (\<Union>c \<in> {first_core n np i ..< first_core n np i + n div np}. bits (cores ! c))"
    by auto
  obtain cs where "core_cpu_set hw cores (int (first_core n np k)) (int (n div np)) = Inr cs"
    "bits cs = (\<Union>c \<in> {first_core n np k ..< first_core n np k + n div np}. bits (cores ! c))"
    using core_cpu_set_ok [OF assms(1), of "first_core n np k" "n div np" cores] first_core_bound [of k np n] Suc.prems assms(2) by auto
  then show ?case using css
    by (auto simp: fold_result_append rbind_def div_even_nat nth_append less_Suc_eq intro!: exI [of _ "css @ [cs]"])
qed simp

text \<open>C21. The cores of a domain are divided among its GPUs: with at least one core for each, the split succeeds,
  gives every GPU the same number of cores in consecutive slices, and no two of them share a CPU. When the
  division leaves a remainder, one core after each of the first slices belongs to nobody.\<close>

theorem dedicated_cpu_sets_split:
  assumes "hwloc_laws hw bits" and "ht_cores_inside ht t root = (int (length cores), cores)"
    and "0 < np" and "np \<le> length cores"
    and "\<forall>a < length cores. \<forall>b < length cores. a \<noteq> b \<longrightarrow> bits (cores ! a) \<inter> bits (cores ! b) = {}"
  shows "\<exists>css. dedicated_cpu_sets hw ht t root np = Inr css \<and> length css = np
     \<and> (\<forall>i < np. bits (css ! i) =
          (\<Union>c \<in> {first_core (length cores) np i ..< first_core (length cores) np i + length cores div np}. bits (cores ! c)))
     \<and> (\<forall>i < np. \<forall>j < np. i \<noteq> j \<longrightarrow> bits (css ! i) \<inter> bits (css ! j) = {})
     \<and> (\<forall>i < length cores mod np. \<forall>j < np.
          bits (cores ! (i * (length cores div np + 1) + length cores div np)) \<inter> bits (css ! j) = {})"
proof -
  let ?n = "length cores" and ?s = "\<lambda>i. {first_core (length cores) np i ..< first_core (length cores) np i + length cores div np}"
  obtain css where css: "dedicated_cpu_sets hw ht t root np = Inr css" "length css = np"
    and b: "\<And>i. i < np \<Longrightarrow> bits (css ! i) = (\<Union>c \<in> ?s i. bits (cores ! c))"
    using dedicated_fold [OF assms(1) refl, where k = np and np = np and cores = cores] assms(2,4)
    by (auto simp: dedicated_cpu_sets_def rbind_def rcheck_def)
  have lt: "c < ?n" if "c \<in> ?s i" "i < np" for c i
    using first_core_bound [OF that(2), of ?n] that(1) by auto
  have disj: "bits (cores ! c) \<inter> bits (cores ! d) = {}" if "c < ?n" "d < ?n" "c \<noteq> d" for c d
    using assms(5) that by blast
  have apart: "?s i \<inter> ?s j = {}" if "i \<noteq> j" for i j
  proof (cases "i < j")
    case True
    then show ?thesis using first_core_apart [of i j ?n np] by auto
  next
    case False
    then show ?thesis using first_core_apart [of j i ?n np] that by auto
  qed
  have "bits (css ! i) \<inter> bits (css ! j) = {}" if "i < np" "j < np" "i \<noteq> j" for i j
    using disj lt [OF _ that(1)] lt [OF _ that(2)] apart [OF that(3)] unfolding b [OF that(1)] b [OF that(2)] by blast
  moreover have "bits (cores ! (i * (?n div np + 1) + ?n div np)) \<inter> bits (css ! j) = {}" if "i < ?n mod np" "j < np" for i j
  proof -
    let ?c = "i * (?n div np + 1) + ?n div np"
    have "?c < ?n" using that(1) assms(3) by (rule skipped_core_bound)
    moreover have "?c \<notin> ?s j" using skipped_core [OF that(1), of j] by auto
    ultimately show ?thesis using disj lt [OF _ that(2)] unfolding b [OF that(2)] by blast
  qed
  ultimately show ?thesis using css b by blast
qed

subsection \<open>A machine with two NUMA nodes\<close>

definition sample_node :: "nat list \<Rightarrow> nat list \<Rightarrow> nat list topo_object" where
  "sample_node cpus nodes = \<lparr>ob_cpuset = cpus, ob_nodeset = nodes, ob_total_memory = 64\<rparr>"

definition sample_topo :: "(unit, nat list) hwloc_topo" where
  "sample_topo =
     \<lparr>ht_type_depth = (\<lambda>t obj. case obj of HW_machine \<Rightarrow> 0 | HW_numanode \<Rightarrow> 1 | HW_core \<Rightarrow> 2 | _ \<Rightarrow> 3),
      ht_type_or_below_depth = (\<lambda>t obj. 2), ht_valid_depth = (\<lambda>t d. 0 \<le> d \<and> d \<le> 3),
      ht_by_depth = (\<lambda>t d. if d = 0 then [sample_node [0, 1, 2, 3, 4] [0, 1]]
        else if d = 1 then [sample_node [0, 1] [0], sample_node [2, 3, 4] [1]]
        else map (\<lambda>i. sample_node [i] [if i < 2 then 0 else 1]) [0, 1, 2, 3, 4]),
      ht_cpuset_to_nodeset = (\<lambda>t cs. (0, (if 0 \<in> set cs \<or> 1 \<in> set cs then [0] else []) @ (if 2 \<in> set cs \<or> 3 \<in> set cs then [1] else []))),
      ht_cores_inside = (\<lambda>t cs. (int (length cs), map (\<lambda>i. [i]) cs)),
      ht_restrict = (\<lambda>t cs b. (0, t))\<rparr>"

definition sample_gpu :: "int \<Rightarrow> nat list \<Rightarrow> nat list gpu_info" where
  "sample_gpu i cs = \<lparr>gi_cpu_set = cs, gi_name = ''gpu'', gi_uuid = [], gi_pcie_bus_id = [], gi_cpustr = [],
     gi_memory_capacity = 16, gi_cuda_device_id = i\<rparr>"

definition sample_topology :: "(unit, nat list) topology" where
  "sample_topology = \<lparr>tp_topology = (), tp_topo_cpuset = [0, 1, 2, 3, 4], tp_numa_cpusets = [[0, 1], [2, 3, 4]],
     tp_gpu_info = [(0, sample_gpu 0 [0, 1]), (1, sample_gpu 1 [2, 3])]\<rparr>"

definition per_numa_options :: "nat list options" where
  "per_numa_options = (options_default list_hwloc)\<lparr>m_placement := Some \<lparr>m_cpu_strategy = PerNumaNode, m_resources_strategy = Shared\<rparr>\<rparr>"

text \<open>Each GPU is close to one of the nodes, and each is placed on the other.\<close>

lemma sample_partitions:
  "case partitions_form list_hwloc sample_topo sample_topology per_numa_options of
     Inl e \<Rightarrow> False
   | Inr pt \<Rightarrow> map hp_cpu_set (pt_host_partitions pt) = [[0, 1], [2, 3, 4]]
       \<and> map (\<lambda>d. (gi_cpu_set (dp_gpu d), dp_host_partition_id d)) (pt_device_partitions pt) = [([2, 3], 0), ([0, 1], 1)]"
proof -
  have po: "placement per_numa_options = Inr \<lparr>m_cpu_strategy = PerNumaNode, m_resources_strategy = Shared\<rparr>"
    by (simp add: placement_def checked_def per_numa_options_def)
  show ?thesis unfolding partitions_form_def po rbind_Inr by code_simp
qed

theorem partitions_place_gpus_witness:
  "hwloc_laws list_hwloc list_bits \<and> smap_ok (tp_gpu_info sample_topology)
   \<and> (\<exists>pt. partitions_form list_hwloc sample_topo sample_topology per_numa_options = Inr pt
        \<and> map dp_gpu (pt_device_partitions pt) = [sample_gpu 1 [2, 3], sample_gpu 0 [0, 1]])"
proof -
  obtain pt where pt: "partitions_form list_hwloc sample_topo sample_topology per_numa_options = Inr pt"
    using sample_partitions by (auto split: sum.splits)
  have ok: "smap_ok (tp_gpu_info sample_topology)" by (simp add: sample_topology_def)
  have "map dp_gpu (pt_device_partitions pt) = rev (map snd (tp_gpu_info sample_topology))"
    using partitions_place_gpus [OF list_hwloc_laws ok pt] by blast
  then show ?thesis using pt ok list_hwloc_laws by (simp add: sample_topology_def)
qed

theorem dedicated_cpu_sets_split_witness:
  "\<exists>css. dedicated_cpu_sets list_hwloc sample_topo () [0 ..< 5] 2 = Inr css \<and> length css = 2
     \<and> list_bits (css ! 0) \<inter> list_bits (css ! 1) = {} \<and> list_bits [2] \<inter> list_bits (css ! 1) = {}"
proof -
  define cores :: "nat list list" where "cores = map (\<lambda>i. [i]) [0 ..< 5]"
  have len: "length cores = 5" and at: "i < 5 \<Longrightarrow> cores ! i = [i]" for i by (simp_all add: cores_def)
  have inside: "ht_cores_inside sample_topo () [0 ..< 5] = (int (length cores), cores)"
    by (simp add: sample_topo_def cores_def)
  have disj: "\<forall>a < length cores. \<forall>b < length cores. a \<noteq> b \<longrightarrow> list_bits (cores ! a) \<inter> list_bits (cores ! b) = {}"
    by (auto simp: list_bits_def len at)
  have np: "0 < (2 :: nat)" "2 \<le> length cores" by (simp_all add: len)
  obtain css where css: "dedicated_cpu_sets list_hwloc sample_topo () [0 ..< 5] 2 = Inr css" "length css = 2"
    and apart: "\<forall>i < 2. \<forall>j < 2. i \<noteq> j \<longrightarrow> list_bits (css ! i) \<inter> list_bits (css ! j) = {}"
    and skip: "\<forall>i < length cores mod 2. \<forall>j < 2.
          list_bits (cores ! (i * (length cores div 2 + 1) + length cores div 2)) \<inter> list_bits (css ! j) = {}"
    using dedicated_cpu_sets_split [OF list_hwloc_laws inside np disj] by blast
  have two: "0 * (length cores div 2 + 1) + length cores div 2 = 2" "0 < length cores mod 2" by (simp_all add: len)
  have "list_bits [2] \<inter> list_bits (css ! 1) = {}"
    using skip [rule_format, OF two(2), of 1] at [of 2] unfolding two(1) by simp
  moreover have "list_bits (css ! 0) \<inter> list_bits (css ! 1) = {}" using apart by simp
  ultimately show ?thesis using css by blast
qed

end
