(* ===== verification/Engines.thy ===== *)
theory Engines
  imports Options Runner
begin

section \<open>Engines, engine factories and launch control\<close>

text \<open>
  \<^verbatim>\<open>src/internal/runnable/engine*.cpp\<close>, \<^verbatim>\<open>fiber_engine*.cpp\<close>, \<^verbatim>\<open>thread_engine*.cpp\<close>, the fiber pools
  of \<^verbatim>\<open>src/internal/system\<close>, and \<^verbatim>\<open>include/srf/runnable/launch_control.hpp\<close> with
  \<^verbatim>\<open>src/public/runnable/launcher.cpp\<close>. A factory hands out processing elements; the engines built on
  them run the tasks of one runner. A task queue is named by the CPU it runs on; a null
  \<^verbatim>\<open>shared_ptr\<close> is \<open>None\<close>. What a factory promises to its client is the locale
  \<open>engine_factory\<close>.
\<close>

subsection \<open>Counting loops\<close>

text \<open>The loops \<^verbatim>\<open>for (int i = 0; i < n; ++i)\<close> where \<open>n\<close> is a \<open>size_t\<close>.\<close>

fun loop_result :: "('s \<Rightarrow> 's result) \<Rightarrow> nat \<Rightarrow> 's \<Rightarrow> 's result" where
  "loop_result f 0 s = Inr s"
| "loop_result f (Suc n) s = rbind (f s) (loop_result f n)"

definition int_loop :: "('s \<Rightarrow> 's result) \<Rightarrow> nat \<Rightarrow> 's \<Rightarrow> 's result" where
  "int_loop f n s =
     (if int n < 2147483648 then loop_result f n s
      else rbind (loop_result f 2147483648 s) (\<lambda>_. Inl (Undefined_behaviour ''int overflow'')))"

lemma int_loop_small: "n < 2 ^ 31 \<Longrightarrow> int_loop f n s = loop_result f n s"
  by (simp add: int_loop_def)

lemma int_loop_Inr: "int_loop f n s = Inr t \<longleftrightarrow> n < 2 ^ 31 \<and> loop_result f n s = Inr t"
  by (auto simp: int_loop_def rbind_def split: sum.splits)

lemma loop_append: "loop_result (\<lambda>xs. Inr (xs @ [x])) n xs = Inr (xs @ replicate n x)"
  by (induction n arbitrary: xs) (simp_all add: replicate_app_Cons_same)

lemma int_loop_invariant:
  assumes "int_loop f n s = Inr t" and "I s" and "\<And>s s'. I s \<Longrightarrow> f s = Inr s' \<Longrightarrow> I s'"
  shows "I t"
proof -
  have "loop_result f n s = Inr t" using assms(1) by (simp add: int_loop_Inr)
  then show ?thesis using assms(2) by (induction n arbitrary: s) (auto simp: rbind_eq_Inr intro: assms(3))
qed

subsection \<open>Fiber managers and pools\<close>

record 'b fiber_manager =
  fm_cpu_set :: 'b
  fm_queues :: "(nat, nat option) smap"

record 'b system_fiber_pool =
  fp_cpu_set :: 'b
  fp_queues :: "nat option list"

definition fiber_manager_new :: "'b hwloc \<Rightarrow> 'b \<Rightarrow> 'b fiber_manager result" where
  "fiber_manager_new hw cpu_set =
     rbind (for_each_bit hw cpu_set) (\<lambda>calls.
       Inr \<lparr>fm_cpu_set = cpu_set, fm_queues = fold (\<lambda>(idx, cpu_id). smap_put cpu_id (Some cpu_id)) calls []\<rparr>)"

fun queues_at :: "(nat, nat option) smap \<Rightarrow> nat list \<Rightarrow> nat option list result" where
  "queues_at m [] = Inr []"
| "queues_at m (cpu # cpus) =
     (case smap_find m cpu of
        None \<Rightarrow> Inl (Out_of_range ''map::at'') | Some q \<Rightarrow> rbind (queues_at m cpus) (\<lambda>qs. Inr (q # qs)))"

definition make_pool :: "'b hwloc \<Rightarrow> 'b fiber_manager \<Rightarrow> 'b \<Rightarrow> 'b system_fiber_pool result option" where
  "make_pool hw fm cpu_set =
     (if \<not> bm_contains hw (fm_cpu_set fm) cpu_set
      then Some (Inl (Srf_runtime_error ''cpu_set must be a subset of the initial topology to create a fiber pool''))
      else map_option (\<lambda>cpus. rbind (queues_at (fm_queues fm) cpus) (\<lambda>qs. Inr \<lparr>fp_cpu_set = cpu_set, fp_queues = qs\<rparr>))
             (bm_vec hw cpu_set))"

definition fiber_manager_join :: "'b fiber_manager \<Rightarrow> 'b fiber_manager" where
  "fiber_manager_join fm = fm\<lparr>fm_queues := map (\<lambda>(cpu_id, queue). (cpu_id, None)) (fm_queues fm)\<rparr>"

definition fiber_manager_task_queue :: "'b fiber_manager \<Rightarrow> nat \<Rightarrow> nat option result" where
  "fiber_manager_task_queue fm cpu_id =
     (case smap_find (fm_queues fm) cpu_id of
        None \<Rightarrow> Inl (Check_failed ''unable to find cpu_id in set of task queue'') | Some q \<Rightarrow> Inr q)"

abbreviation thread_count :: "'b system_fiber_pool \<Rightarrow> nat" where
  "thread_count p \<equiv> length (fp_queues p)"

definition task_queue_shared :: "'b system_fiber_pool \<Rightarrow> nat \<Rightarrow> nat option result" where
  "task_queue_shared p index =
     (if index < thread_count p
      then if fp_queues p ! index \<noteq> None then Inr (fp_queues p ! index) else Inl (Check_failed ''m_queues.at(index)'')
      else Inl (Check_failed ''index < m_queues.size()''))"

subsection \<open>Engines\<close>

datatype 'b engine_backend = On_queue "nat option" int | On_cpus 'b

record 'b engine =
  en_backend :: "'b engine_backend"
  en_launched :: bool

fun backend_type :: "'b engine_backend \<Rightarrow> engine_type" where
  "backend_type (On_queue q priority) = Fiber"
| "backend_type (On_cpus b) = Thread"

text \<open>\<open>Engine::launch_task\<close> with the two \<open>do_launch_task\<close>: a fiber engine enqueues on its queue, a thread
  engine starts a thread on its CPUs.\<close>

definition do_launch_task :: "'b engine_backend \<Rightarrow> unit result" where
  "do_launch_task b =
     (case b of On_queue q priority \<Rightarrow> rcheck (q \<noteq> None) ''m_task_queue'' | On_cpus cpus \<Rightarrow> Inr ())"

definition launch_task :: "'b engine \<Rightarrow> 'b engine result" where
  "launch_task e =
     (if en_launched e
      then Inl (Fatal ''detected attempted reuse of a runnable::Engine; this is a fatal error'')
      else rbind (do_launch_task (en_backend e)) (\<lambda>_. Inr (e\<lparr>en_launched := True\<rparr>)))"

text \<open>The destructor of a thread engine joins its thread, which exists only after a launch.\<close>

definition engine_destroy :: "'b engine \<Rightarrow> unit result" where
  "engine_destroy e =
     (case en_backend e of
        On_queue q priority \<Rightarrow> Inr ()
      | On_cpus b \<Rightarrow> if en_launched e then Inr () else Inl (Undefined_behaviour ''null m_thread''))"

record 'b engines =
  es_launch_options :: launch_options
  es_launchers :: "'b engine list"

abbreviation es_size :: "'b engines \<Rightarrow> nat" where
  "es_size es \<equiv> length (es_launchers es)"

definition fiber_engines :: "launch_options \<Rightarrow> nat option list \<Rightarrow> int \<Rightarrow> 'b engines result" where
  "fiber_engines lo queues priority =
     (if pe_count lo \<noteq> length queues
      then Inl (Check_failed ''mismatched fiber pool task queue size with respect to pe_count'')
      else rbind (fold_result (\<lambda>q. int_loop (\<lambda>ls. Inr (ls @ [\<lparr>en_backend = On_queue q priority, en_launched = False\<rparr>]))
                                   (engines_per_pe lo)) queues []) (\<lambda>ls.
           Inr \<lparr>es_launch_options = lo, es_launchers = ls\<rparr>))"

definition pool_queues :: "'b system_fiber_pool \<Rightarrow> nat option list result" where
  "pool_queues p =
     fold_result (\<lambda>i qs. rbind (task_queue_shared p i) (\<lambda>q. Inr (qs @ [q]))) [0..<thread_count p] []"

definition fiber_engines_of_pool :: "launch_options \<Rightarrow> 'b system_fiber_pool \<Rightarrow> int \<Rightarrow> 'b engines result" where
  "fiber_engines_of_pool lo p priority = rbind (pool_queues p) (\<lambda>qs. fiber_engines lo qs priority)"

definition thread_engines :: "'b hwloc \<Rightarrow> launch_options \<Rightarrow> 'b \<Rightarrow> 'b engines result" where
  "thread_engines hw lo cpu_set =
     rbind (bm_weight hw cpu_set) (\<lambda>w.
       if int (pe_count lo) \<noteq> w
       then Inl (Check_failed ''mismatch in the number of cores in the cpu set with respect to the requested pe_count'')
       else if \<not> 1 \<le> engines_per_pe lo then Inl (Check_failed ''launch_options().engines_per_pe >= 1'')
       else rbind (for_each_bit hw cpu_set) (\<lambda>calls.
            rbind (fold_result (\<lambda>(idx, cpu_id) ls.
                     rbind (bm_only hw (hw_alloc hw) cpu_id) (\<lambda>cpu.
                       int_loop (\<lambda>ls. Inr (ls @ [\<lparr>en_backend = On_cpus cpu, en_launched = False\<rparr>]))
                         (engines_per_pe lo) ls)) calls []) (\<lambda>ls.
            Inr \<lparr>es_launch_options = lo, es_launchers = ls\<rparr>)))"

subsection \<open>Factories\<close>

record 'b fiber_factory =
  ff_pool :: "'b system_fiber_pool"
  ff_offset :: nat

record 'b thread_factory =
  tf_cpu_set :: 'b
  tf_prev_cpu_idx :: int

datatype 'b factory =
    ReusableFiber "'b fiber_factory"
  | SingleUseFiber "'b fiber_factory"
  | ReusableThread "'b thread_factory"
  | SingleUseThread "'b thread_factory"

definition SRF_DEFAULT_FIBER_PRIORITY :: int where
  "SRF_DEFAULT_FIBER_PRIORITY = 0"

definition ff_next :: "'b fiber_factory \<Rightarrow> nat \<times> 'b fiber_factory" where
  "ff_next f =
     (let m = ff_offset f + 1
      in (ff_offset f, f\<lparr>ff_offset := (if m = thread_count (ff_pool f) then 0 else m)\<rparr>))"

definition reusable_queues ::
    "nat \<Rightarrow> 'b fiber_factory \<Rightarrow> (nat option list \<times> 'b fiber_factory) result" where
  "reusable_queues count' f =
     int_loop (\<lambda>(queues, f). case ff_next f of (n, f) \<Rightarrow>
        rbind (task_queue_shared (ff_pool f) n) (\<lambda>q. Inr (queues @ [q], f))) count' ([], f)"

definition single_use_queues :: "nat \<Rightarrow> 'b fiber_factory \<Rightarrow> nat option list result" where
  "single_use_queues count' f =
     (if add_sz (ff_offset f) count' > thread_count (ff_pool f)
      then Inl (Srf_runtime_error ''more dedicated threads/cores than available'')
      else rbind (int_loop (\<lambda>(queues, i).
             rbind (task_queue_shared (ff_pool f) (ff_offset f + i)) (\<lambda>q. Inr (queues @ [q], i + 1))) count' ([], 0))
           (\<lambda>(queues, i). Inr queues))"

definition reusable_cpus :: "'b hwloc \<Rightarrow> nat \<Rightarrow> 'b thread_factory \<Rightarrow> ('b \<times> 'b thread_factory) result" where
  "reusable_cpus hw count' f =
     int_loop (\<lambda>(cpu_set, f).
        let prev = to_i32 (bm_next hw (tf_cpu_set f) (tf_prev_cpu_idx f));
            prev = (if prev = -1 then to_i32 (bm_next hw (tf_cpu_set f) prev) else prev)
        in rbind (bm_on hw cpu_set (to_u32 prev)) (\<lambda>cpu_set. Inr (cpu_set, f\<lparr>tf_prev_cpu_idx := prev\<rparr>)))
       count' (hw_alloc hw, f)"

text \<open>The index survives the exception; the CPUs run out before the loop counter overflows.\<close>

fun single_use_cpus :: "'b hwloc \<Rightarrow> nat \<Rightarrow> 'b \<Rightarrow> 'b thread_factory \<Rightarrow> 'b result \<times> 'b thread_factory" where
  "single_use_cpus hw 0 cpu_set f = (Inr cpu_set, f)"
| "single_use_cpus hw (Suc n) cpu_set f =
     (let prev = to_i32 (bm_next hw (tf_cpu_set f) (tf_prev_cpu_idx f)); f = f\<lparr>tf_prev_cpu_idx := prev\<rparr>
      in if prev = -1 then (Inl (Srf_runtime_error ''SingleUse logical cpu ids exhausted''), f)
         else case bm_on hw cpu_set (to_u32 prev) of
                Inl e \<Rightarrow> (Inl e, f) | Inr cpu_set \<Rightarrow> single_use_cpus hw n cpu_set f)"

fun build_engines :: "'b hwloc \<Rightarrow> launch_options \<Rightarrow> 'b factory \<Rightarrow> 'b engines result \<times> 'b factory" where
  "build_engines hw lo (ReusableFiber f) =
     (case reusable_queues (pe_count lo) f of
        Inl e \<Rightarrow> (Inl e, ReusableFiber f)
      | Inr (queues, f) \<Rightarrow> (fiber_engines lo queues SRF_DEFAULT_FIBER_PRIORITY, ReusableFiber f))"
| "build_engines hw lo (SingleUseFiber f) =
     (rbind (single_use_queues (pe_count lo) f) (\<lambda>queues. fiber_engines lo queues SRF_DEFAULT_FIBER_PRIORITY),
      SingleUseFiber f)"
| "build_engines hw lo (ReusableThread f) =
     (case reusable_cpus hw (pe_count lo) f of
        Inl e \<Rightarrow> (Inl e, ReusableThread f)
      | Inr (cpu_set, f) \<Rightarrow> (thread_engines hw lo cpu_set, ReusableThread f))"
| "build_engines hw lo (SingleUseThread f) =
     (case single_use_cpus hw (pe_count lo) (hw_alloc hw) f of
        (r, f) \<Rightarrow> (rbind r (thread_engines hw lo), SingleUseThread f))"

fun factory_backend :: "'b factory \<Rightarrow> engine_type" where
  "factory_backend (ReusableFiber f) = Fiber"
| "factory_backend (SingleUseFiber f) = Fiber"
| "factory_backend (ReusableThread f) = Thread"
| "factory_backend (SingleUseThread f) = Thread"

definition make_engine_factory ::
    "'b hwloc \<Rightarrow> 'b fiber_manager \<Rightarrow> engine_type \<Rightarrow> 'b \<Rightarrow> bool \<Rightarrow> 'b factory result option" where
  "make_engine_factory hw fm t cpu_set reusable' =
     (case t of
        Fiber \<Rightarrow> map_option (\<lambda>r. rbind r (\<lambda>pool.
          let f = \<lparr>ff_pool = pool, ff_offset = 0\<rparr> in Inr (if reusable' then ReusableFiber f else SingleUseFiber f)))
          (make_pool hw fm cpu_set)
      | Thread \<Rightarrow> Some (if bm_empty hw cpu_set then Inl (Check_failed ''!m_cpu_set.empty()'')
          else let f = \<lparr>tf_cpu_set = cpu_set, tf_prev_cpu_idx = -1\<rparr>
               in Inr (if reusable' then ReusableThread f else SingleUseThread f))
      | Process \<Rightarrow> Some (Inl (Fatal ''unsupported engine type'')))"

subsection \<open>Launch control\<close>

record 'b launch_control =
  lc_resource_groups :: "(string, 'b factory) smap"

text \<open>The traits of the runnable's context; the branch for thread runnables tests the runnable itself with a
  trait of contexts and is never taken.\<close>

datatype runnable_kind = Fiber_runnable | Thread_runnable | Any_runnable

record 'b launcher =
  la_runner :: "runner option"
  la_context_type :: engine_type
  la_contexts :: "run_context list"
  la_engines :: "'b engines option"

definition get_engine_factory :: "'b launch_control \<Rightarrow> string \<Rightarrow> 'b factory result" where
  "get_engine_factory lc name =
     (case smap_find (lc_resource_groups lc) name of
        None \<Rightarrow> Inl (Check_failed (''unable to find launch group named: '' @ name)) | Some f \<Rightarrow> Inr f)"

definition launch_control_new :: "(string, 'b factory) smap \<Rightarrow> 'b launch_control result" where
  "launch_control_new gs =
     (let lc = \<lparr>lc_resource_groups = gs\<rparr>
      in rbind (get_engine_factory lc default_engine_factory_name) (\<lambda>_. Inr lc))"

definition lc_build_engines ::
    "'b hwloc \<Rightarrow> launch_options \<Rightarrow> 'b launch_control \<Rightarrow> 'b engines result \<times> 'b launch_control" where
  "lc_build_engines hw lo lc =
     (case get_engine_factory lc (engine_factory_name lo) of
        Inl e \<Rightarrow> (Inl e, lc)
      | Inr f \<Rightarrow> (case build_engines hw lo f of (r, f) \<Rightarrow>
          (r, lc\<lparr>lc_resource_groups := smap_put (engine_factory_name lo) f (lc_resource_groups lc)\<rparr>)))"

text \<open>The contexts of one runner share a barrier for \<open>size\<close> participants; the barrier of
  Boost.Fiber is the parameter \<open>fiber_barrier\<close>.\<close>

definition context_resources :: "(nat \<Rightarrow> unit result) \<Rightarrow> engine_type \<Rightarrow> nat \<Rightarrow> unit result" where
  "context_resources fiber_barrier t n = (if t = Fiber then fiber_barrier n else Inr ())"

definition context_type :: "runnable_kind \<Rightarrow> engine_type \<Rightarrow> engine_type result" where
  "context_type k backend =
     (case k of
        Fiber_runnable \<Rightarrow> if backend = Fiber then Inr Fiber
          else Inl (Check_failed ''Requested FiberRunnable to be run on a ThreadEngine'')
      | _ \<Rightarrow> if backend = Process then Inl (Fatal ''Unsupported EngineType'') else Inr backend)"

definition prepare_launcher ::
    "'b hwloc \<Rightarrow> (nat \<Rightarrow> unit result) \<Rightarrow> runnable_kind \<Rightarrow> launch_options \<Rightarrow> bool \<Rightarrow> 'b launch_control
     \<Rightarrow> 'b launcher result \<times> 'b launch_control" where
  "prepare_launcher hw fiber_barrier k lo has_runnable lc =
     (if \<not> has_runnable then (Inl (Check_failed ''Null Runnable detected''), lc)
      else case lc_build_engines hw lo lc of (r, lc) \<Rightarrow>
        (rbind r (\<lambda>engines.
         rbind (get_engine_factory lc (engine_factory_name lo)) (\<lambda>f.
         rbind (context_type k (factory_backend f)) (\<lambda>t.
         rbind (context_resources fiber_barrier t (es_size engines)) (\<lambda>_.
           Inr \<lparr>la_runner = Some runner_new, la_context_type = t, la_contexts = make_contexts (es_size engines),
                la_engines = Some engines\<rparr>)))), lc))"

text \<open>The overload that wraps the contexts takes the same steps, and the one without options uses the
  default ones.\<close>

definition prepare_launcher_with_wrapped_context ::
    "'b hwloc \<Rightarrow> (nat \<Rightarrow> unit result) \<Rightarrow> runnable_kind \<Rightarrow> launch_options \<Rightarrow> bool \<Rightarrow> 'b launch_control
     \<Rightarrow> 'b launcher result \<times> 'b launch_control" where
  "prepare_launcher_with_wrapped_context = prepare_launcher"

definition prepare_launcher_default ::
    "'b hwloc \<Rightarrow> (nat \<Rightarrow> unit result) \<Rightarrow> runnable_kind \<Rightarrow> bool \<Rightarrow> 'b launch_control
     \<Rightarrow> 'b launcher result \<times> 'b launch_control" where
  "prepare_launcher_default hw fiber_barrier k has_runnable lc =
     prepare_launcher hw fiber_barrier k launch_options_default has_runnable lc"

fun launch_all :: "'b engine list \<Rightarrow> 'b engine list result" where
  "launch_all [] = Inr []"
| "launch_all (e # es) = rbind (launch_task e) (\<lambda>e. rbind (launch_all es) (\<lambda>es. Inr (e # es)))"

text \<open>\<open>ignition\<close>: the runner leaves the launcher; the contexts and the engines stay.\<close>

definition ignition :: "'b launcher \<Rightarrow> (runner \<times> 'b launcher) result" where
  "ignition la =
     (case la_runner la of
        None \<Rightarrow> Inl (Check_failed ''m_runner'')
      | Some r \<Rightarrow> (case la_engines la of
          None \<Rightarrow> Inl (Check_failed ''m_engines'')
        | Some es \<Rightarrow>
            if la_contexts la = [] then Inl (Check_failed ''m_contexts.size()'')
            else rbind (runner_enqueue (es_size es) (la_contexts la) r) (\<lambda>r.
                 rbind (launch_all (es_launchers es)) (\<lambda>ls.
                   Inr (r, la\<lparr>la_runner := None, la_engines := Some (es\<lparr>es_launchers := ls\<rparr>)\<rparr>)))))"

subsection \<open>What a factory promises\<close>

definition engine_ready :: "engine_type \<Rightarrow> 'b engine \<Rightarrow> bool" where
  "engine_ready t e \<longleftrightarrow> \<not> en_launched e \<and> backend_type (en_backend e) = t \<and> is_ok (do_launch_task (en_backend e))"

locale engine_factory =
  fixes build :: "launch_options \<Rightarrow> 'f \<Rightarrow> 'b engines result \<times> 'f"
    and backend :: "'f \<Rightarrow> engine_type"
  assumes build_backend: "backend (snd (build lo f)) = backend f"
    and build_size: "fst (build lo f) = Inr es \<Longrightarrow> es_size es = pe_count lo * engines_per_pe lo"
    and build_ready: "fst (build lo f) = Inr es \<Longrightarrow> e \<in> set (es_launchers es) \<Longrightarrow> engine_ready (backend f) e"
begin

lemma ready_launch: "\<forall>e \<in> set ls. engine_ready t e \<Longrightarrow> launch_all ls = Inr (map (\<lambda>e. e\<lparr>en_launched := True\<rparr>) ls)"
proof (induction ls)
  case (Cons e ls)
  then have "launch_task e = Inr (e\<lparr>en_launched := True\<rparr>)"
    by (auto simp: engine_ready_def launch_task_def is_ok_iff)
  then show ?case using Cons by simp
qed simp

text \<open>Engines that were built can be launched, and then not again.\<close>

lemma build_launch:
  assumes "fst (build lo f) = Inr es"
  shows "launch_all (es_launchers es) = Inr (map (\<lambda>e. e\<lparr>en_launched := True\<rparr>) (es_launchers es))"
  using ready_launch build_ready [OF assms] by blast

lemma build_no_relaunch:
  assumes "fst (build lo f) = Inr es" and "0 < pe_count lo * engines_per_pe lo"
  shows "launch_all (map (\<lambda>e. e\<lparr>en_launched := True\<rparr>) (es_launchers es))
     = Inl (Fatal ''detected attempted reuse of a runnable::Engine; this is a fatal error'')"
  using build_size [OF assms(1)] assms(2) by (cases "es_launchers es") (auto simp: launch_task_def)

end

lemma fold_engines:
  "fold_result (\<lambda>x. int_loop (\<lambda>ls. Inr (ls @ [g x])) n) xs ls = Inr ls' \<Longrightarrow>
   ls' = ls @ concat (map (\<lambda>x. replicate n (g x)) xs)"
proof (induction xs arbitrary: ls)
  case (Cons x xs)
  then have "fold_result (\<lambda>x. int_loop (\<lambda>ls. Inr (ls @ [g x])) n) xs (ls @ replicate n (g x)) = Inr ls'"
    by (auto simp: int_loop_Inr loop_append split: sum.splits)
  from Cons.IH [OF this] show ?case by simp
qed simp

lemma task_queue_shared_Inr: "task_queue_shared p i = Inr q \<longleftrightarrow> i < thread_count p \<and> fp_queues p ! i = q \<and> q \<noteq> None"
  by (auto simp: task_queue_shared_def)

lemma fiber_engines_launchers:
  "fiber_engines lo qs p = Inr es \<Longrightarrow> length qs = pe_count lo \<and> es_launch_options es = lo \<and>
   es_launchers es = concat (map (\<lambda>q. replicate (engines_per_pe lo) \<lparr>en_backend = On_queue q p, en_launched = False\<rparr>) qs)"
  using fold_engines [of "\<lambda>q. \<lparr>en_backend = On_queue q p, en_launched = False\<rparr>" "engines_per_pe lo" qs "[]"]
  by (auto simp: fiber_engines_def rbind_eq_Inr split: if_splits)

lemma length_for_each_loop: "length (for_each_loop hw b n i prev) = n"
  by (induction n arbitrary: i prev) (simp_all add: Let_def)

lemma fold_thread_engines:
  "fold_result (\<lambda>(idx, cpu_id) ls. rbind (bm_only hw (hw_alloc hw) cpu_id) (\<lambda>cpu.
     int_loop (\<lambda>ls. Inr (ls @ [\<lparr>en_backend = On_cpus cpu, en_launched = False\<rparr>])) n ls)) calls ls = Inr ls' \<Longrightarrow>
   \<exists>cpus. list_all2 (\<lambda>call cpu. bm_only hw (hw_alloc hw) (snd call) = Inr cpu) calls cpus
     \<and> ls' = ls @ concat (map (\<lambda>cpu. replicate n \<lparr>en_backend = On_cpus cpu, en_launched = False\<rparr>) cpus)"
proof (induction calls arbitrary: ls)
  case (Cons c calls)
  obtain idx cpu_id where c: "c = (idx, cpu_id)" by force
  from Cons.prems obtain cpu where cpu: "bm_only hw (hw_alloc hw) cpu_id = Inr cpu"
    by (auto simp: c rbind_def split: sum.splits)
  let ?e = "\<lparr>en_backend = On_cpus cpu, en_launched = False\<rparr>"
  have "int_loop (\<lambda>ls. Inr (ls @ [?e])) n ls = Inr (ls @ replicate n ?e)"
  proof (cases "int_loop (\<lambda>ls. Inr (ls @ [?e])) n ls")
    case (Inl e)
    then show ?thesis using Cons.prems by (simp add: c cpu)
  qed (simp add: int_loop_Inr loop_append)
  with Cons.prems Cons.IH [of "ls @ replicate n ?e"] obtain cpus
    where "list_all2 (\<lambda>call cpu. bm_only hw (hw_alloc hw) (snd call) = Inr cpu) calls cpus"
      "ls' = ls @ replicate n ?e @ concat (map (\<lambda>cpu. replicate n \<lparr>en_backend = On_cpus cpu, en_launched = False\<rparr>) cpus)"
    by (auto simp: c cpu)
  then show ?case using cpu by (intro exI [of _ "cpu # cpus"]) (simp add: c)
qed simp

lemma thread_engines_launchers:
  assumes "thread_engines hw lo b = Inr es"
  obtains cpus where "length cpus = pe_count lo" "es_launch_options es = lo"
    "es_launchers es = concat (map (\<lambda>cpu. replicate (engines_per_pe lo) \<lparr>en_backend = On_cpus cpu, en_launched = False\<rparr>) cpus)"
    "\<exists>calls. for_each_bit hw b = Inr calls \<and> list_all2 (\<lambda>call cpu. bm_only hw (hw_alloc hw) (snd call) = Inr cpu) calls cpus"
proof -
  from assms obtain calls ls where calls: "for_each_bit hw b = Inr calls" "length calls = pe_count lo"
    and f: "fold_result (\<lambda>(idx, cpu_id) ls. rbind (bm_only hw (hw_alloc hw) cpu_id) (\<lambda>cpu.
        int_loop (\<lambda>ls. Inr (ls @ [\<lparr>en_backend = On_cpus cpu, en_launched = False\<rparr>])) (engines_per_pe lo) ls)) calls [] = Inr ls"
    and es: "es = \<lparr>es_launch_options = lo, es_launchers = ls\<rparr>"
    by (auto simp: thread_engines_def rbind_eq_Inr for_each_bit_def length_for_each_loop split: if_splits)
  from fold_thread_engines [OF f] that [OF _ _ _ exI, of _ calls] show ?thesis
    using calls es by (metis append_Nil list_all2_lengthD engines.select_convs(1,2))
qed

lemma reusable_queues_some:
  assumes "reusable_queues n f = Inr (qs, f')"
  shows "None \<notin> set qs"
proof -
  have "case (qs, f') of (qs, f) \<Rightarrow> None \<notin> set qs"
    by (rule int_loop_invariant [OF assms [unfolded reusable_queues_def]])
      (auto simp: rbind_eq_Inr task_queue_shared_Inr split: prod.splits)
  then show ?thesis by simp
qed

lemma single_use_queues_some:
  assumes "single_use_queues n f = Inr qs"
  shows "None \<notin> set qs"
proof -
  from assms obtain i where l: "int_loop (\<lambda>(queues, i).
      rbind (task_queue_shared (ff_pool f) (ff_offset f + i)) (\<lambda>q. Inr (queues @ [q], i + 1))) n ([], 0) = Inr (qs, i)"
    by (auto simp: single_use_queues_def rbind_eq_Inr split: if_splits prod.splits)
  have "case (qs, i) of (qs, i) \<Rightarrow> None \<notin> set qs"
    by (rule int_loop_invariant [OF l]) (auto simp: rbind_eq_Inr task_queue_shared_Inr split: prod.splits)
  then show ?thesis by simp
qed

lemma fiber_engines_ready:
  assumes "fiber_engines lo qs p = Inr es" and "None \<notin> set qs"
  shows "es_size es = pe_count lo * engines_per_pe lo" "\<forall>e \<in> set (es_launchers es). engine_ready Fiber e"
proof -
  note l = fiber_engines_launchers [OF assms(1)]
  show "es_size es = pe_count lo * engines_per_pe lo"
    using l by (simp add: length_concat comp_def sum_list_triv)
  show "\<forall>e \<in> set (es_launchers es). engine_ready Fiber e"
    using l assms(2) by (auto simp: engine_ready_def do_launch_task_def is_ok_def rcheck_def, metis not_None_eq)
qed

lemma thread_engines_ready:
  assumes "thread_engines hw lo b = Inr es"
  shows "es_size es = pe_count lo * engines_per_pe lo" "\<forall>e \<in> set (es_launchers es). engine_ready Thread e"
proof -
  obtain cpus where l: "length cpus = pe_count lo"
    "es_launchers es = concat (map (\<lambda>cpu. replicate (engines_per_pe lo) \<lparr>en_backend = On_cpus cpu, en_launched = False\<rparr>) cpus)"
    by (rule thread_engines_launchers [OF assms])
  show "es_size es = pe_count lo * engines_per_pe lo" using l by (simp add: length_concat comp_def sum_list_triv)
  show "\<forall>e \<in> set (es_launchers es). engine_ready Thread e"
    using l by (auto simp: engine_ready_def do_launch_task_def is_ok_def)
qed

lemma build_engines_ok:
  assumes "fst (build_engines hw lo f) = Inr es"
  shows "es_size es = pe_count lo * engines_per_pe lo \<and> (\<forall>e \<in> set (es_launchers es). engine_ready (factory_backend f) e)"
proof (cases f)
  case (ReusableFiber x)
  then obtain qs x' where "reusable_queues (pe_count lo) x = Inr (qs, x')"
    "fiber_engines lo qs SRF_DEFAULT_FIBER_PRIORITY = Inr es" using assms by (auto split: sum.splits)
  then show ?thesis using fiber_engines_ready reusable_queues_some ReusableFiber by fastforce
next
  case (SingleUseFiber x)
  then obtain qs where "single_use_queues (pe_count lo) x = Inr qs"
    "fiber_engines lo qs SRF_DEFAULT_FIBER_PRIORITY = Inr es" using assms by (auto simp: rbind_eq_Inr)
  then show ?thesis using fiber_engines_ready single_use_queues_some SingleUseFiber by fastforce
next
  case (ReusableThread x)
  then obtain b where "thread_engines hw lo b = Inr es" using assms by (auto split: sum.splits)
  then show ?thesis using thread_engines_ready ReusableThread by fastforce
next
  case (SingleUseThread x)
  then obtain b where "thread_engines hw lo b = Inr es" using assms by (auto simp: rbind_eq_Inr split: prod.splits)
  then show ?thesis using thread_engines_ready SingleUseThread by fastforce
qed

lemma build_engines_backend: "factory_backend (snd (build_engines hw lo f)) = factory_backend f"
  by (cases f) (auto split: sum.splits prod.splits)

interpretation ef: engine_factory "build_engines hw" factory_backend for hw
  by unfold_locales (use build_engines_ok build_engines_backend in blast)+

subsection \<open>Which processing elements are handed out\<close>

lemma task_queue_shared_ok: "i < thread_count p \<Longrightarrow> None \<notin> set (fp_queues p) \<Longrightarrow> task_queue_shared p i = Inr (fp_queues p ! i)"
  unfolding task_queue_shared_Inr by (metis nth_mem)

text \<open>A reusable fiber factory hands its queues out in turn.\<close>

lemma reusable_queues_rotate:
  assumes "None \<notin> set (fp_queues (ff_pool f))" and "ff_offset f < thread_count (ff_pool f)" and "n < 2 ^ 31"
  shows "reusable_queues n f = Inr
     (map (\<lambda>t. fp_queues (ff_pool f) ! ((ff_offset f + t) mod thread_count (ff_pool f))) [0..<n],
      f\<lparr>ff_offset := (ff_offset f + n) mod thread_count (ff_pool f)\<rparr>)"
proof -
  let ?w = "thread_count (ff_pool f)"
  let ?step = "\<lambda>(queues, f). case ff_next f of (n, f) \<Rightarrow>
      rbind (task_queue_shared (ff_pool f) n) (\<lambda>q. Inr (queues @ [q], f))"
  have "k < ?w \<Longrightarrow> loop_result ?step n (qs, f\<lparr>ff_offset := k\<rparr>) = Inr
     (qs @ map (\<lambda>t. fp_queues (ff_pool f) ! ((k + t) mod ?w)) [0..<n], f\<lparr>ff_offset := (k + n) mod ?w\<rparr>)" for k qs
  proof (induction n arbitrary: k qs)
    case (Suc n)
    let ?k = "if k + 1 = ?w then 0 else k + 1"
    have k: "?k = (k + 1) mod ?w" "?k < ?w" using Suc.prems by auto
    have "?step (qs, f\<lparr>ff_offset := k\<rparr>) = Inr (qs @ [fp_queues (ff_pool f) ! k], f\<lparr>ff_offset := ?k\<rparr>)"
      using Suc.prems task_queue_shared_ok [OF Suc.prems assms(1)] by (simp add: ff_next_def)
    moreover have "(?k + t) mod ?w = (k + Suc t) mod ?w" for t
      unfolding k(1) by (simp add: mod_add_left_eq)
    ultimately show ?case using Suc.IH [OF k(2)] Suc.prems
      by (simp add: map_upt_Suc del: upt_Suc)
  qed simp
  from this [OF assms(2), of "[]"] show ?thesis
    using assms(3) by (simp add: reusable_queues_def int_loop_small)
qed

text \<open>A single-use fiber factory does not remember what it has given away.\<close>

theorem single_use_fiber_repeats:
  assumes "build_engines hw lo (SingleUseFiber f) = (Inr es, g)"
  shows "g = SingleUseFiber f \<and> build_engines hw lo g = (Inr es, g)"
  using assms by auto

abbreviation tf_at :: "'b \<Rightarrow> nat list \<Rightarrow> nat \<Rightarrow> 'b thread_factory" where
  "tf_at b L j \<equiv> \<lparr>tf_cpu_set = b, tf_prev_cpu_idx = (if j = 0 then -1 else int (L ! (j - 1)))\<rparr>"

lemma to_i32_nat: "i < 2 ^ 31 \<Longrightarrow> to_i32 i = int i"
  by (simp add: to_i32_def Let_def)

lemma next_at:
  assumes "hwloc_laws hw bits" and "j \<le> card (bits b)" and "L = bit_list bits b"
  shows "to_i32 (bm_next hw b (if j = 0 then -1 else int (L ! (j - 1)))) = (if j < card (bits b) then int (L ! j) else -1)"
    and "j < card (bits b) \<Longrightarrow> L ! j \<in> bits b \<and> L ! j < 2 ^ 31"
proof -
  have fin: "finite (bits b)" by (rule hwloc_lawsD(1) [OF assms(1)])
  have in_set: "L ! j \<in> set L" if "j < card (bits b)" using that assms(3) by (intro nth_mem) simp
  then show lim: "j < card (bits b) \<Longrightarrow> L ! j \<in> bits b \<and> L ! j < 2 ^ 31"
    using hwloc_lawsD(2) [OF assms(1)] assms(3) fin by auto
  show "to_i32 (bm_next hw b (if j = 0 then -1 else int (L ! (j - 1)))) = (if j < card (bits b) then int (L ! j) else -1)"
    using rr_above [OF assms] lim by (cases "j < card (bits b)") (simp_all add: bm_next_def to_i32_nat)
qed

lemma reusable_cpus_at:
  assumes "hwloc_laws hw bits" and "L = bit_list bits b" and "bits b \<noteq> {}" and "j \<le> card (bits b)" and "n < 2 ^ 31"
  shows "\<exists>j' v. reusable_cpus hw n (tf_at b L j) = Inr (v, tf_at b L j') \<and> j' \<le> card (bits b)
     \<and> j' mod card (bits b) = (j + n) mod card (bits b)
     \<and> bits v = (\<lambda>t. L ! ((j + t) mod card (bits b))) ` {..<n}"
proof -
  let ?w = "card (bits b)"
  let ?step = "\<lambda>(cpu_set, f).
        let prev = to_i32 (bm_next hw (tf_cpu_set f) (tf_prev_cpu_idx f));
            prev = (if prev = -1 then to_i32 (bm_next hw (tf_cpu_set f) prev) else prev)
        in rbind (bm_on hw cpu_set (to_u32 prev)) (\<lambda>cpu_set. Inr (cpu_set, f\<lparr>tf_prev_cpu_idx := prev\<rparr>))"
  have fin: "finite (bits b)" by (rule hwloc_lawsD(1) [OF assms(1)])
  have w: "0 < ?w" using assms(3) fin by (simp add: card_gt_0_iff)
  have "j \<le> ?w \<Longrightarrow> \<exists>j' v. loop_result ?step n (u, tf_at b L j) = Inr (v, tf_at b L j') \<and> j' \<le> ?w
     \<and> j' mod ?w = (j + n) mod ?w \<and> bits v = bits u \<union> (\<lambda>t. L ! ((j + t) mod ?w)) ` {..<n}" for j u
  proof (induction n arbitrary: j u)
    case (Suc n)
    let ?k = "j mod ?w"
    have k: "?k < ?w" "?k = (if j < ?w then j else 0)" using w Suc.prems by auto
    note lim = next_at(2) [OF assms(1) less_imp_le [OF k(1)] assms(2) k(1)]
    obtain u1 where u1: "bm_on hw u (L ! ?k) = Inr u1" "bits u1 = insert (L ! ?k) (bits u)"
      using bm_on_ok [OF assms(1)] lim by blast
    have "?step (u, tf_at b L j) = Inr (u1, tf_at b L (Suc ?k))"
      using next_at(1) [OF assms(1) Suc.prems assms(2)] next_at(1) [OF assms(1) _ assms(2), of 0] k w lim u1(1)
      by (cases "j < ?w") (simp_all add: Let_def)
    moreover obtain j' v where v: "loop_result ?step n (u1, tf_at b L (Suc ?k)) = Inr (v, tf_at b L j')" "j' \<le> ?w"
      "j' mod ?w = (Suc ?k + n) mod ?w" "bits v = bits u1 \<union> (\<lambda>t. L ! ((Suc ?k + t) mod ?w)) ` {..<n}"
      using Suc.IH [of "Suc ?k" u1] k(1) by auto
    moreover have m: "(Suc ?k + t) mod ?w = (j + Suc t) mod ?w" for t
      by (metis add_Suc add_Suc_right mod_Suc_eq mod_add_left_eq)
    ultimately show ?case
      unfolding m u1(2) by (intro exI [of _ j'] exI [of _ v]) (auto simp: lessThan_Suc_eq_insert_0 image_image)
  qed auto
  from this [OF assms(4), of "hw_alloc hw"] show ?thesis
    using hwloc_lawsD(3) [OF assms(1)] assms(5) by (simp add: reusable_cpus_def int_loop_small)
qed

lemma single_use_cpus_at:
  assumes "hwloc_laws hw bits" and "L = bit_list bits b"
  shows "j \<le> card (bits b) \<Longrightarrow>
    if j + n \<le> card (bits b)
    then \<exists>v. single_use_cpus hw n u (tf_at b L j) = (Inr v, tf_at b L (j + n)) \<and> bits v = bits u \<union> set (take n (drop j L))
    else single_use_cpus hw n u (tf_at b L j)
      = (Inl (Srf_runtime_error ''SingleUse logical cpu ids exhausted''), tf_at b L 0)"
proof (induction n arbitrary: j u)
  case (Suc n)
  note nx = next_at [OF assms(1) Suc.prems assms(2)]
  show ?case
  proof (cases "j < card (bits b)")
    case False
    then show ?thesis using nx(1) by (simp add: Let_def)
  next
    case True
    obtain u1 where u1: "bm_on hw u (L ! j) = Inr u1" "bits u1 = insert (L ! j) (bits u)"
      using bm_on_ok [OF assms(1)] nx(2) [OF True] by blast
    have "single_use_cpus hw (Suc n) u (tf_at b L j) = single_use_cpus hw n u1 (tf_at b L (Suc j))"
      using nx(1) nx(2) [OF True] True u1(1) by (simp add: Let_def)
    moreover have "drop j L = L ! j # drop (Suc j) L" using True assms(2) by (simp add: Cons_nth_drop_Suc)
    ultimately show ?thesis using Suc.IH [of "Suc j" u1] True u1(2) by (simp split: if_splits)
  qed
qed simp

text \<open>The CPUs an engine runs on.\<close>

definition engine_cpus :: "('b \<Rightarrow> nat set) \<Rightarrow> 'b engine \<Rightarrow> nat set" where
  "engine_cpus bits e = (case en_backend e of On_queue q priority \<Rightarrow> set_option q | On_cpus b \<Rightarrow> bits b)"

lemma thread_engines_ok:
  assumes "hwloc_laws hw bits" and "card (bits b) = pe_count lo" and "1 \<le> engines_per_pe lo" and "engines_per_pe lo < 2 ^ 31"
  shows "\<exists>es. thread_engines hw lo b = Inr es
    \<and> map (engine_cpus bits) (es_launchers es) = concat (map (\<lambda>c. replicate (engines_per_pe lo) {c}) (bit_list bits b))"
proof -
  let ?n = "engines_per_pe lo"
  let ?f = "\<lambda>(idx, cpu_id) ls. rbind (bm_only hw (hw_alloc hw) cpu_id) (\<lambda>cpu.
     int_loop (\<lambda>ls. Inr (ls @ [\<lparr>en_backend = On_cpus cpu, en_launched = False\<rparr>])) ?n ls)"
  have fin: "finite (bits b)" by (rule hwloc_lawsD(1) [OF assms(1)])
  have loop: "\<forall>c \<in> set cs. c < 2 ^ 31 \<Longrightarrow> length is = length cs \<Longrightarrow>
      \<exists>ls'. fold_result ?f (zip is cs) ls = Inr ls'
        \<and> map (engine_cpus bits) ls' = map (engine_cpus bits) ls @ concat (map (\<lambda>c. replicate ?n {c}) cs)" for "is" cs ls
  proof (induction cs arbitrary: "is" ls)
    case (Cons c cs)
    obtain i is' where i: "is = i # is'" using Cons.prems(2) by (cases "is") auto
    obtain cpu where cpu: "bm_only hw (hw_alloc hw) c = Inr cpu" "bits cpu = {c}"
      using hwloc_lawsD(6) [OF assms(1), of c "hw_alloc hw"] Cons.prems(1) by (auto simp: bm_only_def hw_check_def)
    let ?ls = "ls @ replicate ?n \<lparr>en_backend = On_cpus cpu, en_launched = False\<rparr>"
    have "?f (i, c) ls = Inr ?ls" using cpu(1) assms(4) by (simp add: int_loop_small loop_append)
    moreover have "map (engine_cpus bits) ?ls = map (engine_cpus bits) ls @ replicate ?n {c}"
      by (simp add: engine_cpus_def cpu(2))
    ultimately show ?case using Cons.IH [of is' ?ls] Cons.prems i by auto
  qed simp
  have "\<forall>c \<in> set (bit_list bits b). c < 2 ^ 31" using hwloc_lawsD(2) [OF assms(1)] fin by simp
  from loop [OF this, of "[0..<card (bits b)]" "[]"] obtain ls where
    "fold_result ?f (zip [0..<card (bits b)] (bit_list bits b)) [] = Inr ls"
    "map (engine_cpus bits) ls = concat (map (\<lambda>c. replicate ?n {c}) (bit_list bits b))" by auto
  then show ?thesis
    using assms(2,3) hwloc_lawsD(9) [OF assms(1), of b]
    by (simp add: thread_engines_def bm_weight_def for_each_bit_eq [OF assms(1)])
qed

lemma thread_engines_mismatch:
  "hwloc_laws hw bits \<Longrightarrow> card (bits b) \<noteq> pe_count lo \<Longrightarrow> thread_engines hw lo b
     = Inl (Check_failed ''mismatch in the number of cores in the cpu set with respect to the requested pe_count'')"
  using hwloc_lawsD(9) [of hw bits b] by (simp add: thread_engines_def bm_weight_def)

lemma window_cards:
  assumes "L = sorted_list_of_set S" and "finite S" and "S \<noteq> {}"
  shows "card ((\<lambda>t. L ! ((j + t) mod card S)) ` {..<n}) \<le> card S"
    and "n \<le> card S \<Longrightarrow> card ((\<lambda>t. L ! ((j + t) mod card S)) ` {..<n}) = n"
proof -
  let ?I = "(\<lambda>t. (j + t) mod card S) ` {..<n}"
  have w: "0 < card S" using assms(2,3) by (simp add: card_gt_0_iff)
  have eq: "(\<lambda>t. L ! ((j + t) mod card S)) ` {..<n} = (!) L ` ?I" by (simp add: image_image)
  have I: "?I \<subseteq> {..<length L}" using w assms(1) by auto
  have inj: "inj_on ((!) L) {..<length L}" using assms(1) by (auto simp: inj_on_def nth_eq_iff_index_eq)
  have "(!) L ` ?I \<subseteq> set L" using I by auto
  then show "card ((\<lambda>t. L ! ((j + t) mod card S)) ` {..<n}) \<le> card S"
    unfolding eq using card_mono [of S "(!) L ` ?I"] assms(1,2) by simp
  show "card ((\<lambda>t. L ! ((j + t) mod card S)) ` {..<n}) = n" if "n \<le> card S"
    unfolding eq using card_image [OF inj_on_subset [OF inj I]] mod_window_card [OF that] by simp
qed

text \<open>A reusable thread factory deals its CPUs out in rotation. A request for \<open>n\<close> processing elements, made
  when \<open>j\<close> CPUs of the current round have been dealt, gets the next \<open>n\<close> CPUs cyclically, one group of
  engines per CPU, and the following request starts where this one ended. A request for more CPUs
  than the factory has aborts.\<close>

lemma reusable_thread_rotates:
  assumes "hwloc_laws hw bits" and "bits b \<noteq> {}" and "j \<le> card (bits b)" and "L = bit_list bits b"
    and "pe_count lo < 2 ^ 31" and "1 \<le> engines_per_pe lo" and "engines_per_pe lo < 2 ^ 31"
  shows "if pe_count lo \<le> card (bits b)
    then \<exists>es j'. build_engines hw lo (ReusableThread (tf_at b L j)) = (Inr es, ReusableThread (tf_at b L j'))
       \<and> j' \<le> card (bits b) \<and> j' mod card (bits b) = (j + pe_count lo) mod card (bits b)
       \<and> map (engine_cpus bits) (es_launchers es) = concat (map (\<lambda>c. replicate (engines_per_pe lo) {c})
            (sorted_list_of_set ((\<lambda>t. L ! ((j + t) mod card (bits b))) ` {..<pe_count lo})))
    else fst (build_engines hw lo (ReusableThread (tf_at b L j)))
       = Inl (Check_failed ''mismatch in the number of cores in the cpu set with respect to the requested pe_count'')"
proof -
  let ?W = "(\<lambda>t. L ! ((j + t) mod card (bits b))) ` {..<pe_count lo}"
  obtain j' v where v: "reusable_cpus hw (pe_count lo) (tf_at b L j) = Inr (v, tf_at b L j')" "j' \<le> card (bits b)"
    "j' mod card (bits b) = (j + pe_count lo) mod card (bits b)" "bits v = ?W"
    using reusable_cpus_at [OF assms(1,4,2,3,5)] by blast
  note cards = window_cards [OF assms(4) hwloc_lawsD(1) [OF assms(1)] assms(2), where j = j and n = "pe_count lo"]
  show ?thesis
  proof (cases "pe_count lo \<le> card (bits b)")
    case True
    then obtain es where es: "thread_engines hw lo v = Inr es"
      and cpus: "map (engine_cpus bits) (es_launchers es) = concat (map (\<lambda>c. replicate (engines_per_pe lo) {c}) (bit_list bits v))"
      using thread_engines_ok [OF assms(1) _ assms(6,7), of v] cards(2) v(4) by auto
    have "build_engines hw lo (ReusableThread (tf_at b L j)) = (Inr es, ReusableThread (tf_at b L j'))"
      using v(1) es by (simp only: build_engines.simps sum.case prod.case)
    then show ?thesis using v(2,3) cpus unfolding if_P [OF True] v(4) by blast
  next
    case False
    then have "card (bits v) \<noteq> pe_count lo" using cards(1) v(4) by simp
    then show ?thesis using False v(1) thread_engines_mismatch [OF assms(1)] by simp
  qed
qed

text \<open>A single-use thread factory never deals a CPU twice between two exhaustions. While CPUs remain, a request
  gets the next ones in ascending order. A request that finds too few throws, and leaves the factory as
  it was when it was created, so that the next request gets the first CPUs again.\<close>

lemma single_use_thread_deals:
  assumes "hwloc_laws hw bits" and "j \<le> card (bits b)" and "L = bit_list bits b"
    and "1 \<le> engines_per_pe lo" and "engines_per_pe lo < 2 ^ 31"
  shows "if j + pe_count lo \<le> card (bits b)
    then \<exists>es. build_engines hw lo (SingleUseThread (tf_at b L j)) = (Inr es, SingleUseThread (tf_at b L (j + pe_count lo)))
       \<and> map (engine_cpus bits) (es_launchers es)
           = concat (map (\<lambda>c. replicate (engines_per_pe lo) {c}) (take (pe_count lo) (drop j L)))
    else build_engines hw lo (SingleUseThread (tf_at b L j))
       = (Inl (Srf_runtime_error ''SingleUse logical cpu ids exhausted''), SingleUseThread (tf_at b L 0))"
proof (cases "j + pe_count lo \<le> card (bits b)")
  case True
  obtain v where v: "single_use_cpus hw (pe_count lo) (hw_alloc hw) (tf_at b L j) = (Inr v, tf_at b L (j + pe_count lo))"
    "bits v = set (take (pe_count lo) (drop j L))"
    using single_use_cpus_at [OF assms(1,3,2), of "pe_count lo" "hw_alloc hw"] True hwloc_lawsD(3) [OF assms(1)] by auto
  have seg: "bit_list bits v = take (pe_count lo) (drop j L)"
    unfolding v(2) assms(3) by (intro sorted_list_of_set.idem_if_sorted_distinct) (simp_all add: sorted_wrt_take sorted_wrt_drop)
  have "card (bits v) = pe_count lo" using arg_cong [OF seg, of length] True assms(3) by simp
  from thread_engines_ok [OF assms(1) this assms(4,5)] show ?thesis using True v(1) seg by auto
next
  case False
  then show ?thesis using single_use_cpus_at [OF assms(1,3,2), of "pe_count lo" "hw_alloc hw"] by simp
qed

text \<open>C36. What any factory builds is usable as it is: \<open>pe_count * engines_per_pe\<close> engines of the factory's own
  backend, none of which has been launched; launching all of them succeeds, and launching them a second
  time is fatal. The backend of the factory does not change.\<close>

theorem engines_built:
  assumes "build_engines hw lo f = (Inr es, g)"
  shows "factory_backend g = factory_backend f \<and> es_size es = pe_count lo * engines_per_pe lo
     \<and> (\<forall>e \<in> set (es_launchers es). backend_type (en_backend e) = factory_backend f \<and> \<not> en_launched e)
     \<and> (\<exists>ls. launch_all (es_launchers es) = Inr ls \<and> length ls = es_size es \<and> (ls = [] \<or>
          launch_all ls = Inl (Fatal ''detected attempted reuse of a runnable::Engine; this is a fatal error'')))"
proof -
  have b: "fst (build_engines hw lo f) = Inr es" using assms by simp
  have "factory_backend g = factory_backend f" using ef.build_backend [of hw lo f] assms by simp
  moreover note size = ef.build_size [OF b]
  moreover have "\<forall>e \<in> set (es_launchers es). backend_type (en_backend e) = factory_backend f \<and> \<not> en_launched e"
    using ef.build_ready [OF b] by (auto simp: engine_ready_def)
  moreover note launch = ef.build_launch [OF b]
  moreover have "es_launchers es = [] \<or> launch_all (map (\<lambda>e. e\<lparr>en_launched := True\<rparr>) (es_launchers es))
      = Inl (Fatal ''detected attempted reuse of a runnable::Engine; this is a fatal error'')"
    using ef.build_no_relaunch [OF b] size by (metis length_greater_0_conv)
  ultimately show ?thesis
    by (intro conjI exI [of _ "map (\<lambda>e. e\<lparr>en_launched := True\<rparr>) (es_launchers es)"]) auto
qed

lemma enqueue_fresh:
  assumes "0 < n"
  shows "\<exists>r. runner_enqueue n (make_contexts n) (runner_new\<lparr>has_callback := cb\<rparr>) = Inr r \<and> length (instances r) = n
     \<and> (\<forall>x \<in> set (instances r). inst_state x = Rn_Queued) \<and> runnable r = Rb_Run \<and> has_callback r = cb"
proof -
  have len: "length (make_contexts n) = n" by (simp add: make_contexts_def)
  show ?thesis
    using enqueue_instances [of n n "runner_new\<lparr>has_callback := cb\<rparr>"] len
    by (simp add: runner_enqueue_def runner_new_def runnable_update_state_def rb_order Let_def)
qed

text \<open>C37. A prepared launcher starts its runner once. When the named group can build engines for the options and the
  runnable may run on its backend, preparing a launcher succeeds, and igniting it queues one instance per
  engine, each on an engine of its own that is launched with it. Igniting the launcher again aborts.\<close>

theorem launch_control_ignites:
  assumes "get_engine_factory lc (engine_factory_name lo) = Inr f" and "build_engines hw lo f = (Inr es, g)"
    and "k = Fiber_runnable \<longrightarrow> factory_backend f = Fiber" and "0 < pe_count lo * engines_per_pe lo"
    and "\<forall>n > 0. fiber_barrier n = Inr ()"
  shows "\<exists>la lc' r la'. prepare_launcher hw fiber_barrier k lo True lc = (Inr la, lc')
     \<and> get_engine_factory lc' (engine_factory_name lo) = Inr g
     \<and> la_context_type la = factory_backend f \<and> ignition la = Inr (r, la')
     \<and> length (instances r) = pe_count lo * engines_per_pe lo
     \<and> (\<forall>x \<in> set (instances r). inst_state x = Rn_Queued) \<and> runnable r = Rb_Run
     \<and> (\<exists>es'. la_engines la' = Some es' \<and> es_size es' = length (instances r) \<and> (\<forall>e \<in> set (es_launchers es'). en_launched e))
     \<and> ignition la' = Inl (Check_failed ''m_runner'')"
proof -
  have b: "fst (build_engines hw lo f) = Inr es" using assms(2) by simp
  have size: "es_size es = pe_count lo * engines_per_pe lo" by (rule ef.build_size [OF b])
  have g: "factory_backend g = factory_backend f" using ef.build_backend [of hw lo f] assms(2) by simp
  obtain r where r: "runner_enqueue (es_size es) (make_contexts (es_size es)) runner_new = Inr r"
    "length (instances r) = es_size es" "\<forall>x \<in> set (instances r). inst_state x = Rn_Queued" "runnable r = Rb_Run"
    using enqueue_fresh [of "es_size es" False] assms(4) size by (auto simp: runner_new_def)
  define lc' where "lc' = lc\<lparr>lc_resource_groups := smap_put (engine_factory_name lo) g (lc_resource_groups lc)\<rparr>"
  have lc': "lc_build_engines hw lo lc = (Inr es, lc')" "get_engine_factory lc' (engine_factory_name lo) = Inr g"
    using assms(1,2) by (simp_all add: lc_build_engines_def lc'_def get_engine_factory_def)
  have t: "context_type k (factory_backend g) = Inr (factory_backend f)"
    using assms(3) g by (cases k; cases f) (auto simp: context_type_def)
  have res: "context_resources fiber_barrier (factory_backend f) (es_size es) = Inr ()"
    using assms(4,5) size by (simp add: context_resources_def)
  define la where "la = \<lparr>la_runner = Some runner_new, la_context_type = factory_backend f,
      la_contexts = make_contexts (es_size es), la_engines = Some es\<rparr>"
  let ?la = "la\<lparr>la_runner := None, la_engines := Some (es\<lparr>es_launchers := map (\<lambda>e. e\<lparr>en_launched := True\<rparr>) (es_launchers es)\<rparr>)\<rparr>"
  have p: "prepare_launcher hw fiber_barrier k lo True lc = (Inr la, lc')"
    using lc' t res by (simp add: prepare_launcher_def la_def)
  have "make_contexts (es_size es) \<noteq> []" using size assms(4) by (simp add: make_contexts_def)
  then have i: "ignition la = Inr (r, ?la)"
    using r(1) ef.build_launch [OF b] by (simp add: ignition_def la_def)
  show ?thesis
    using p lc'(2) i r size by (intro exI [of _ la] exI [of _ lc'] exI [of _ r] exI [of _ ?la]) (simp add: ignition_def la_def)
qed

subsection \<open>Concrete runs\<close>

definition sample_lo :: launch_options where
  "sample_lo = \<lparr>pe_count = 2, engines_per_pe = 1, engine_factory_name = ''default''\<rparr>"

lemma two_bits: "list_bits [4, 2, 7] = {2, 4, 7}" "bit_list list_bits [4, 2, 7] = [2, 4, 7]" "card (list_bits [4, 2, 7]) = 3"
proof -
  show b: "list_bits [4, 2, 7] = {2, 4, 7}" by (auto simp: list_bits_def)
  show "bit_list list_bits [4, 2, 7] = [2, 4, 7]" "card (list_bits [4, 2, 7]) = 3" unfolding b by simp_all
qed

lemma reusable_thread_rotates_witness:
  "\<exists>es j'. build_engines list_hwloc sample_lo (ReusableThread (tf_at [4, 2, 7] [2, 4, 7] 2))
       = (Inr es, ReusableThread (tf_at [4, 2, 7] [2, 4, 7] j'))
     \<and> map (engine_cpus list_bits) (es_launchers es) = [{2}, {7}]"
proof -
  have "{..<2 :: nat} = {0, 1}" by auto
  then have w: "(\<lambda>t. [2, 4, 7 :: nat] ! ((2 + t) mod 3)) ` {..<2} = {7, 2}" by simp
  have lo: "pe_count sample_lo = 2" "engines_per_pe sample_lo = 1" by (simp_all add: sample_lo_def)
  have s: "concat (map (\<lambda>c. replicate 1 {c}) (sorted_list_of_set {7, 2 :: nat})) = [{2}, {7}]" by simp
  have "list_bits [4, 2, 7] \<noteq> {}" "2 \<le> card (list_bits [4, 2, 7])" "[2, 4, 7] = bit_list list_bits [4, 2, 7]"
    unfolding two_bits by simp_all
  note rot = reusable_thread_rotates [OF list_hwloc_laws this, of sample_lo]
  have "if (2 :: nat) \<le> 3
    then \<exists>es j'. build_engines list_hwloc sample_lo (ReusableThread (tf_at [4, 2, 7] [2, 4, 7] 2))
        = (Inr es, ReusableThread (tf_at [4, 2, 7] [2, 4, 7] j')) \<and> j' \<le> 3 \<and> j' mod 3 = (2 + 2) mod 3
       \<and> map (engine_cpus list_bits) (es_launchers es) = [{2}, {7}]
    else fst (build_engines list_hwloc sample_lo (ReusableThread (tf_at [4, 2, 7] [2, 4, 7] 2)))
       = Inl (Check_failed ''mismatch in the number of cores in the cpu set with respect to the requested pe_count'')"
    using rot unfolding lo two_bits(3) w s by (simp only: less_numeral_simps one_le_numeral order_refl) simp
  moreover have "(2 :: nat) \<le> 3" by simp
  ultimately show ?thesis by (simp only: if_True) (elim exE conjE, intro exI conjI, assumption+)
qed

lemma single_use_thread_deals_witness:
  "(\<exists>es. build_engines list_hwloc sample_lo (SingleUseThread (tf_at [4, 2, 7] [2, 4, 7] 0))
       = (Inr es, SingleUseThread (tf_at [4, 2, 7] [2, 4, 7] 2))
     \<and> map (engine_cpus list_bits) (es_launchers es) = [{2}, {4}])
   \<and> build_engines list_hwloc sample_lo (SingleUseThread (tf_at [4, 2, 7] [2, 4, 7] 2))
       = (Inl (Srf_runtime_error ''SingleUse logical cpu ids exhausted''), SingleUseThread (tf_at [4, 2, 7] [2, 4, 7] 0))"
  using single_use_thread_deals [OF list_hwloc_laws, of 0 "[4, 2, 7]" "[2, 4, 7]" sample_lo]
    single_use_thread_deals [OF list_hwloc_laws, of 2 "[4, 2, 7]" "[2, 4, 7]" sample_lo]
  unfolding two_bits by (simp add: sample_lo_def)

definition sample_factory :: "nat list factory" where
  "sample_factory = ReusableFiber \<lparr>ff_pool = \<lparr>fp_cpu_set = [0, 1], fp_queues = [Some 0, Some 1]\<rparr>, ff_offset = 1\<rparr>"

lemma sample_build:
  "build_engines list_hwloc sample_lo sample_factory =
     (Inr \<lparr>es_launch_options = sample_lo, es_launchers =
        [\<lparr>en_backend = On_queue (Some 1) 0, en_launched = False\<rparr>, \<lparr>en_backend = On_queue (Some 0) 0, en_launched = False\<rparr>]\<rparr>,
      sample_factory)"
  by code_simp

theorem engines_built_witness:
  "\<exists>es g. build_engines list_hwloc sample_lo sample_factory = (Inr es, g) \<and> es_size es = 2 \<and> factory_backend g = Fiber"
  using engines_built [OF sample_build] sample_build by (simp add: sample_factory_def sample_lo_def)

theorem launch_control_ignites_witness:
  "\<exists>la lc' r la'. prepare_launcher list_hwloc (\<lambda>n. if n = 0 then Inl (Invalid_argument ''barrier'') else Inr ()) Fiber_runnable
       sample_lo True \<lparr>lc_resource_groups = [(''default'', sample_factory)]\<rparr> = (Inr la, lc')
     \<and> ignition la = Inr (r, la') \<and> length (instances r) = 2 \<and> ignition la' = Inl (Check_failed ''m_runner'')"
proof -
  have "get_engine_factory \<lparr>lc_resource_groups = [(''default'', sample_factory)]\<rparr> (engine_factory_name sample_lo) = Inr sample_factory"
    by (simp add: get_engine_factory_def sample_lo_def)
  from launch_control_ignites [OF this sample_build, of Fiber_runnable "\<lambda>n. if n = 0 then Inl (Invalid_argument ''barrier'') else Inr ()"]
  show ?thesis by (auto simp: sample_factory_def sample_lo_def)
qed

end
