(* ===== verification/Manifolds.thy ===== *)
theory Manifolds
  imports Engines Addresses
begin

section \<open>Resource partitions and manifolds\<close>

text \<open>
  \<^verbatim>\<open>include/srf/manifold\<close>: a manifold joins the egress ports of the upstream segments to the
  ingress ports of the downstream segments that have the same name. The only kind the factory makes is
  the load balancer: a muxer in front of a round robin over the outputs. The type parameter of the
  C++ templates is a number, compared where the code does a \<^verbatim>\<open>dynamic_cast\<close>.
\<close>

subsection \<open>Resource partitions\<close>

text \<open>Every partition has a host; partitions for the devices of one host share its launch control.\<close>

record 'b resource_partitions =
  rp_hosts :: "'b launch_control list"
  rp_partition_host :: "nat list"

definition partition_host :: "'b resource_partitions \<Rightarrow> nat \<Rightarrow> nat result" where
  "partition_host rp partition_id =
     (if partition_id < length (rp_partition_host rp) then Inr (rp_partition_host rp ! partition_id)
      else Inl (Out_of_range ''vector::_M_range_check''))"

text \<open>A call on the launch control of a host.\<close>

definition on_launch_control ::
    "nat \<Rightarrow> ('b launch_control \<Rightarrow> 'a result \<times> 'b launch_control) \<Rightarrow> 'b resource_partitions \<Rightarrow> 'a result \<times> 'b resource_partitions" where
  "on_launch_control i f rp =
     (if i < length (rp_hosts rp)
      then case f (rp_hosts rp ! i) of (r, lc) \<Rightarrow> (r, rp\<lparr>rp_hosts := (rp_hosts rp)[i := lc]\<rparr>)
      else (Inl (Undefined_behaviour ''host''), rp))"

subsection \<open>Round robin over the outputs\<close>

text \<open>An output channel is the list of the data written to it. \<^verbatim>\<open>std::random_shuffle\<close> is the parameter
  \<open>shuffle\<close>, and \<open>ok\<close> says of which outputs the channel accepts a write.\<close>

record 'm egress =
  eg_outputs :: "(segment_address, 'm list) smap"
  eg_pick_list :: "segment_address list"
  eg_next :: nat

definition egress_new :: "'m egress" where
  "egress_new = \<lparr>eg_outputs = [], eg_pick_list = [], eg_next = 0\<rparr>"

definition update_pick_list :: "(segment_address list \<Rightarrow> segment_address list) \<Rightarrow> 'm egress \<Rightarrow> 'm egress" where
  "update_pick_list shuffle e = e\<lparr>eg_pick_list := shuffle (map fst (eg_outputs e)), eg_next := 0\<rparr>"

definition mapped_add_output :: "segment_address \<Rightarrow> 'm egress \<Rightarrow> 'm egress result" where
  "mapped_add_output address e =
     (if smap_find (eg_outputs e) address \<noteq> None then Inl (Check_failed ''search == m_outputs.end()'')
      else Inr (e\<lparr>eg_outputs := smap_put address [] (eg_outputs e)\<rparr>))"

definition egress_add_output ::
    "(segment_address list \<Rightarrow> segment_address list) \<Rightarrow> segment_address \<Rightarrow> 'm egress \<Rightarrow> 'm egress result" where
  "egress_add_output shuffle address e = rbind (mapped_add_output address e) (\<lambda>e. Inr (update_pick_list shuffle e))"

definition egress_await_write :: "(segment_address \<Rightarrow> bool) \<Rightarrow> 'm \<Rightarrow> 'm egress \<Rightarrow> 'm egress result" where
  "egress_await_write ok data e =
     (if \<not> eg_next e < length (eg_pick_list e) then Inl (Check_failed ''m_next < m_pick_list.size()'')
      else
        (let a = eg_pick_list e ! eg_next e; n = eg_next e + 1;
             e = e\<lparr>eg_next := (if n = length (eg_pick_list e) then 0 else n)\<rparr>
         in case smap_find (eg_outputs e) a of
              None \<Rightarrow> Inl (Undefined_behaviour ''dangling channel'')
            | Some ds \<Rightarrow>
                if ok a then Inr (e\<lparr>eg_outputs := smap_put a (ds @ [data]) (eg_outputs e)\<rparr>)
                else Inl (Check_failed ''await_write == channel::Status::success'')))"

definition egress_clear :: "'m egress \<Rightarrow> 'm egress" where
  "egress_clear e = e\<lparr>eg_outputs := []\<rparr>"

subsection \<open>Load balancers\<close>

record 'm manifold =
  mf_port_name :: string
  mf_type :: nat
  mf_host :: nat
  mf_input_updates :: "(segment_address \<times> nat) list"
  mf_output_updates :: "(segment_address \<times> nat) list"
  mf_inputs :: "segment_address list"
  mf_egress :: "'m egress"
  mf_balancer :: bool
  mf_runner :: "runner option"

definition make_manifold :: "string \<Rightarrow> nat \<Rightarrow> nat \<Rightarrow> 'm manifold" where
  "make_manifold port_name t host =
     \<lparr>mf_port_name = port_name, mf_type = t, mf_host = host, mf_input_updates = [], mf_output_updates = [],
      mf_inputs = [], mf_egress = egress_new, mf_balancer = True, mf_runner = None\<rparr>"

definition load_balancer_options :: launch_options where
  "load_balancer_options = \<lparr>pe_count = 1, engines_per_pe = 8, engine_factory_name = ''main''\<rparr>"

text \<open>Ports are attached later, when the updates are issued.\<close>

definition add_input :: "segment_address \<Rightarrow> nat \<Rightarrow> 'm manifold \<Rightarrow> 'm manifold" where
  "add_input address t m = m\<lparr>mf_input_updates := mf_input_updates m @ [(address, t)]\<rparr>"

definition add_output :: "segment_address \<Rightarrow> nat \<Rightarrow> 'm manifold \<Rightarrow> 'm manifold" where
  "add_output address t m = m\<lparr>mf_output_updates := mf_output_updates m @ [(address, t)]\<rparr>"

definition update_inputs :: "'m manifold \<Rightarrow> 'm manifold result" where
  "update_inputs m =
     rbind (fold_result (\<lambda>(address, t) m.
              if t = mf_type m then Inr (m\<lparr>mf_inputs := mf_inputs m @ [address]\<rparr>) else Inl (Check_failed ''source''))
            (mf_input_updates m) m) (\<lambda>m. Inr (m\<lparr>mf_input_updates := []\<rparr>))"

definition update_outputs :: "(segment_address list \<Rightarrow> segment_address list) \<Rightarrow> 'm manifold \<Rightarrow> 'm manifold result" where
  "update_outputs shuffle m =
     rbind (fold_result (\<lambda>(address, t) m.
              if t = mf_type m
              then rbind (egress_add_output shuffle address (mf_egress m)) (\<lambda>e. Inr (m\<lparr>mf_egress := e\<rparr>))
              else Inl (Check_failed ''sink''))
            (mf_output_updates m) m) (\<lambda>m. Inr (m\<lparr>mf_output_updates := []\<rparr>))"

definition manifold_start ::
    "'b hwloc \<Rightarrow> (nat \<Rightarrow> unit result) \<Rightarrow> 'm manifold \<times> 'b resource_partitions
     \<Rightarrow> unit result \<times> 'm manifold \<times> 'b resource_partitions" where
  "manifold_start hw fiber_barrier = (\<lambda>(m, rp).
     if mf_runner m \<noteq> None then (Inr (), m, rp)
     else if \<not> mf_balancer m then (Inl (Check_failed ''m_balancer''), m, rp)
     else case on_launch_control (mf_host m)
                 (prepare_launcher hw fiber_barrier Any_runnable load_balancer_options True) rp of
            (r, rp) \<Rightarrow>
              (case rbind r ignition of
                 Inl e \<Rightarrow> (Inl e, m\<lparr>mf_balancer := False\<rparr>, rp)
               | Inr (runner, la) \<Rightarrow> (Inr (), m\<lparr>mf_balancer := False, mf_runner := Some runner\<rparr>, rp)))"

subsection \<open>The round robin is fair\<close>

definition egress_ok :: "'m egress \<Rightarrow> bool" where
  "egress_ok e \<longleftrightarrow> smap_ok (eg_outputs e) \<and> distinct (eg_pick_list e)
     \<and> set (eg_pick_list e) = fst ` set (eg_outputs e) \<and> (eg_pick_list e \<noteq> [] \<longrightarrow> eg_next e < length (eg_pick_list e))"

lemma update_pick_list_ok:
  assumes "\<And>xs. mset (shuffle xs) = mset xs" and "smap_ok (eg_outputs e)"
  shows "egress_ok (update_pick_list shuffle e)"
proof -
  have m: "mset (shuffle (map fst (eg_outputs e))) = mset (map fst (eg_outputs e))" by (rule assms(1))
  have "set (shuffle (map fst (eg_outputs e))) = fst ` set (eg_outputs e)" using mset_eq_setD [OF m] by simp
  moreover have "distinct (shuffle (map fst (eg_outputs e)))"
    using mset_eq_imp_distinct_iff [OF m] smap_ok_distinct [OF assms(2)] by simp
  ultimately show ?thesis using assms(2) by (simp add: egress_ok_def update_pick_list_def)
qed

lemma egress_add_output_ok:
  assumes "\<And>xs. mset (shuffle xs) = mset xs" and "egress_ok e" and "egress_add_output shuffle a e = Inr e'"
  shows "egress_ok e'" "eg_outputs e' = smap_put a [] (eg_outputs e)" "eg_next e' = 0"
proof -
  have e': "e' = update_pick_list shuffle (e\<lparr>eg_outputs := smap_put a [] (eg_outputs e)\<rparr>)"
    using assms(3) by (simp add: egress_add_output_def mapped_add_output_def split: if_splits)
  show "egress_ok e'" unfolding e' using assms(2) by (intro update_pick_list_ok [OF assms(1)]) (simp add: egress_ok_def)
  show "eg_outputs e' = smap_put a [] (eg_outputs e)" "eg_next e' = 0" by (simp_all add: e' update_pick_list_def)
qed

lemma egress_await_write_ok:
  assumes "egress_ok e" and "eg_pick_list e \<noteq> []" and "ok (eg_pick_list e ! eg_next e)"
  shows "\<exists>ds e'. egress_await_write ok data e = Inr e' \<and> egress_ok e'
     \<and> smap_find (eg_outputs e) (eg_pick_list e ! eg_next e) = Some ds
     \<and> smap_find (eg_outputs e') = (smap_find (eg_outputs e))(eg_pick_list e ! eg_next e \<mapsto> ds @ [data])
     \<and> eg_pick_list e' = eg_pick_list e \<and> eg_next e' = Suc (eg_next e) mod length (eg_pick_list e)"
proof -
  let ?a = "eg_pick_list e ! eg_next e"
  have lt: "eg_next e < length (eg_pick_list e)" using assms(1,2) by (simp add: egress_ok_def)
  then have "?a \<in> fst ` set (eg_outputs e)" using assms(1) nth_mem by (auto simp: egress_ok_def)
  then obtain ds where ds: "smap_find (eg_outputs e) ?a = Some ds" by (metis dom_smap_find domD)
  have next': "(if Suc (eg_next e) = length (eg_pick_list e) then 0 else Suc (eg_next e))
      = Suc (eg_next e) mod length (eg_pick_list e)"
    using lt by simp
  have keys: "fst ` set (smap_put ?a (ds @ [data]) (eg_outputs e)) = fst ` set (eg_outputs e)"
    using \<open>?a \<in> _\<close> by (auto simp: keys_smap_put)
  show ?thesis
    using lt ds assms keys by (auto simp: egress_await_write_def egress_ok_def Let_def next')
qed

fun egress_writes :: "(segment_address \<Rightarrow> bool) \<Rightarrow> 'm list \<Rightarrow> 'm egress \<Rightarrow> 'm egress result" where
  "egress_writes ok [] e = Inr e"
| "egress_writes ok (d # ds) e = rbind (egress_await_write ok d e) (egress_writes ok ds)"

lemma egress_writes_append: "egress_writes ok (xs @ ys) e = rbind (egress_writes ok xs e) (egress_writes ok ys)"
  by (induction xs arbitrary: e) (auto simp: rbind_def split: sum.splits)

lemma egress_writes_ok:
  assumes "egress_ok e" and "eg_pick_list e \<noteq> []" and "eg_next e = 0" and "\<forall>a \<in> set (eg_pick_list e). ok a"
    and "\<forall>a \<in> set (eg_pick_list e). smap_find (eg_outputs e) a = Some []"
  shows "\<exists>e'. egress_writes ok xs e = Inr e' \<and> egress_ok e' \<and> eg_pick_list e' = eg_pick_list e
     \<and> eg_next e' = length xs mod length (eg_pick_list e)
     \<and> (\<forall>i < length (eg_pick_list e). smap_find (eg_outputs e') (eg_pick_list e ! i)
          = Some (map ((!) xs) (filter (\<lambda>k. k mod length (eg_pick_list e) = i) [0..<length xs])))"
proof (induction xs rule: rev_induct)
  case Nil
  then show ?case using assms by simp
next
  case (snoc x xs)
  let ?P = "eg_pick_list e" and ?n = "length xs" and ?w = "length (eg_pick_list e)"
  obtain e1 where e1: "egress_writes ok xs e = Inr e1" "egress_ok e1" "eg_pick_list e1 = ?P" "eg_next e1 = ?n mod ?w"
    and out: "\<forall>i < ?w. smap_find (eg_outputs e1) (?P ! i) = Some (map ((!) xs) (filter (\<lambda>k. k mod ?w = i) [0..<?n]))"
    using snoc by blast
  have lt: "?n mod ?w < ?w" using assms(2) by simp
  obtain ds e2 where e2: "egress_await_write ok x e1 = Inr e2" "egress_ok e2" "eg_pick_list e2 = ?P"
    "eg_next e2 = Suc ?n mod ?w" and ds: "smap_find (eg_outputs e1) (?P ! (?n mod ?w)) = Some ds"
    "smap_find (eg_outputs e2) = (smap_find (eg_outputs e1))(?P ! (?n mod ?w) \<mapsto> ds @ [x])"
    using egress_await_write_ok [OF e1(2), of ok x] e1(3,4) assms(2,4) lt by (auto simp: mod_Suc_eq)
  have inj: "?P ! i = ?P ! j \<longleftrightarrow> i = j" if "i < ?w" "j < ?w" for i j
    using assms(1) that by (simp add: egress_ok_def nth_eq_iff_index_eq)
  have step: "map ((!) (xs @ [x])) (filter (\<lambda>k. k mod ?w = i) [0..<length (xs @ [x])])
      = map ((!) xs) (filter (\<lambda>k. k mod ?w = i) [0..<?n]) @ (if ?n mod ?w = i then [x] else [])" for i
    by (auto simp: nth_append intro!: map_cong)
  have "smap_find (eg_outputs e2) (?P ! i)
      = Some (map ((!) (xs @ [x])) (filter (\<lambda>k. k mod ?w = i) [0..<length (xs @ [x])]))" if i: "i < ?w" for i
    unfolding step using out ds inj [OF i lt] i lt by auto
  then show ?case using e1(1) e2 by (intro exI [of _ e2]) (simp add: egress_writes_append)
qed

text \<open>C25. The load balancer is fair. On outputs that accept every write, a sequence of messages is distributed in
  rotation: output number \<open>i\<close> of the pick list receives exactly the messages whose position is \<open>i\<close>
  modulo the number of outputs, in order.\<close>

theorem load_balancer_fair:
  assumes "\<And>xs. mset (shuffle xs) = mset xs" and "smap_ok (eg_outputs e0)" and "eg_outputs e0 \<noteq> []"
    and "e = update_pick_list shuffle e0" and "\<forall>a. ok a" and "\<forall>(a, ds) \<in> set (eg_outputs e0). ds = []"
  shows "\<exists>e'. egress_writes ok xs e = Inr e' \<and> (\<forall>i < length (eg_outputs e0).
       smap_find (eg_outputs e') (eg_pick_list e ! i)
         = Some (map ((!) xs) (filter (\<lambda>k. k mod length (eg_outputs e0) = i) [0..<length xs])))"
proof -
  have ok: "egress_ok e" using update_pick_list_ok [of shuffle e0] assms(1,2,4) by simp
  have outs: "eg_outputs e = eg_outputs e0" "eg_next e = 0" by (simp_all add: assms(4) update_pick_list_def)
  have len: "length (eg_pick_list e) = length (eg_outputs e0)"
    using mset_eq_length [OF assms(1), of "map fst (eg_outputs e0)"] by (simp add: assms(4) update_pick_list_def)
  have "smap_find (eg_outputs e) a = Some []" if "a \<in> set (eg_pick_list e)" for a
  proof -
    have "a \<in> dom (smap_find (eg_outputs e))" using ok that by (simp add: egress_ok_def dom_smap_find)
    then obtain ds where "smap_find (eg_outputs e) a = Some ds" by blast
    then show ?thesis using assms(6) map_of_SomeD outs(1) by fastforce
  qed
  moreover have "eg_pick_list e \<noteq> []" using len assms(3) by auto
  ultimately show ?thesis
    using egress_writes_ok [OF ok _ outs(2), of ok xs] assms(5) unfolding len by auto
qed

theorem load_balancer_fair_witness:
  "\<exists>e'. egress_writes (\<lambda>a. True) [''x'', ''y'', ''z''] (update_pick_list rev
       \<lparr>eg_outputs = [(1, []), (2, [])], eg_pick_list = [], eg_next = 0\<rparr>) = Inr e'
     \<and> smap_find (eg_outputs e') 2 = Some [''x'', ''z'']"
proof -
  let ?e = "\<lparr>eg_outputs = [(1, []), (2, [])], eg_pick_list = [], eg_next = 0\<rparr> :: string egress"
  obtain e' where e': "egress_writes (\<lambda>a. True) [''x'', ''y'', ''z''] (update_pick_list rev ?e) = Inr e'"
    "\<forall>i < 2. smap_find (eg_outputs e') (eg_pick_list (update_pick_list rev ?e) ! i)
      = Some (map ((!) [''x'', ''y'', ''z'']) (filter (\<lambda>k. k mod 2 = i) [0..<3]))"
    using load_balancer_fair [of rev ?e "update_pick_list rev ?e" "\<lambda>a. True" "[''x'', ''y'', ''z'']"]
    by (auto simp: numeral_2_eq_2 numeral_3_eq_3)
  have "[0..<3] = [0, 1, 2 :: nat]" by (simp add: upt_rec)
  then show ?thesis using e' e'(2) [rule_format, of 0] by (simp add: update_pick_list_def)
qed

end
