(* ===== verification/Segments.thy ===== *)
theory Segments
  imports Manifolds Names Service
begin

section \<open>Segments\<close>

text \<open>
  \<^verbatim>\<open>src/internal/segment\<close> with the ports of \<^verbatim>\<open>include/srf/segment\<close>: the builder collects the ports
  and nodes of a segment, and a segment instance is the service that launches, stops, kills and joins
  their runners. The user's initializer is the \<open>sd_backend_initializer\<close> of the definition. While a
  hook waits for a runner, the runner's tasks go on: the parameter \<open>settle\<close> gives the runner as it is when
  the wait ends.
\<close>

subsection \<open>Ports, nodes and the builder\<close>

record port =
  pt_type :: nat
  pt_node :: bool
  pt_connected :: bool

record node =
  nd_kind :: runnable_kind
  nd_launch_options :: launch_options
  nd_node :: bool

datatype seg_object = Ingress_object | Egress_object | Node_object

record builder =
  bd_name :: string
  bd_ingress_ports :: "(string, port) smap"
  bd_egress_ports :: "(string, port) smap"
  bd_objects :: "(string, seg_object) smap"
  bd_nodes :: "(string, node) smap"

type_synonym seg_def = "(nat, nat, builder \<Rightarrow> builder result) segment_definition"

definition port_new :: "nat \<Rightarrow> port" where
  "port_new t = \<lparr>pt_type = t, pt_node = True, pt_connected = False\<rparr>"

definition has_object :: "builder \<Rightarrow> string \<Rightarrow> bool" where
  "has_object b name \<longleftrightarrow> smap_find (bd_objects b) name \<noteq> None"

definition find_object :: "builder \<Rightarrow> string \<Rightarrow> seg_object result" where
  "find_object b name =
     (case smap_find (bd_objects b) name of
        None \<Rightarrow> Inl (Srf_runtime_error (''unable to find segment object with name '' @ name)) | Some x \<Rightarrow> Inr x)"

definition get_ingress_base :: "builder \<Rightarrow> string \<Rightarrow> port option" where
  "get_ingress_base b name = smap_find (bd_ingress_ports b) name"

definition get_egress_base :: "builder \<Rightarrow> string \<Rightarrow> port option" where
  "get_egress_base b name = smap_find (bd_egress_ports b) name"

definition duplicate_name :: srf_error where
  "duplicate_name = Srf_runtime_error ''duplicate name detected - name owned by a node''"

definition add_object :: "string \<Rightarrow> seg_object \<Rightarrow> builder \<Rightarrow> builder result" where
  "add_object name x b =
     (if has_object b name then Inl duplicate_name else Inr (b\<lparr>bd_objects := smap_put name x (bd_objects b)\<rparr>))"

definition add_runnable :: "string \<Rightarrow> node \<Rightarrow> builder \<Rightarrow> builder result" where
  "add_runnable name nd b =
     (if has_object b name then Inl duplicate_name else Inr (b\<lparr>bd_nodes := smap_put name nd (bd_nodes b)\<rparr>))"

text \<open>\<open>make_object\<close> of the public builder.\<close>

definition make_object :: "string \<Rightarrow> node \<Rightarrow> builder \<Rightarrow> builder result" where
  "make_object name nd b =
     (if has_object b name then Inl duplicate_name
      else rbind (add_runnable name nd b) (add_object name Node_object))"

definition builder_new :: "seg_def \<Rightarrow> builder result" where
  "builder_new sd =
     (let b = \<lparr>bd_name = sd_name sd, bd_ingress_ports = [], bd_egress_ports = [], bd_objects = [], bd_nodes = []\<rparr>;
          b = fold (\<lambda>(name, t) b. b\<lparr>bd_ingress_ports := smap_put name (port_new t) (bd_ingress_ports b),
                                     bd_objects := smap_put name Ingress_object (bd_objects b)\<rparr>)
                (sd_ingress_initializers sd) b;
          b = fold (\<lambda>(name, t) b. b\<lparr>bd_egress_ports := smap_put name (port_new t) (bd_egress_ports b),
                                     bd_objects := smap_put name Egress_object (bd_objects b)\<rparr>)
                (sd_egress_initializers sd) b
      in sd_backend_initializer sd b)"

subsection \<open>Segment instances\<close>

record segment =
  sg_name :: string
  sg_id :: segment_id
  sg_rank :: segment_rank
  sg_address :: segment_address
  sg_host :: nat
  sg_builder :: builder
  sg_runners :: "(string, runner) smap"
  sg_egress_runners :: "(string, runner) smap"
  sg_ingress_runners :: "(string, runner) smap"

definition segment_new :: "seg_def \<Rightarrow> segment_rank \<Rightarrow> nat \<Rightarrow> 'b resource_partitions \<Rightarrow> segment result" where
  "segment_new sd rank partition_id rp =
     rbind (partition_host rp partition_id) (\<lambda>host.
     rbind (builder_new sd) (\<lambda>b.
       Inr \<lparr>sg_name = sd_name sd, sg_id = sd_id sd, sg_rank = rank, sg_address = segment_address_encode (sd_id sd) rank,
            sg_host = host, sg_builder = b, sg_runners = [], sg_egress_runners = [], sg_ingress_runners = []\<rparr>))"

text \<open>Preparing a launcher moves the runnable out of its node or port.\<close>

definition node_prepare ::
    "'b hwloc \<Rightarrow> (nat \<Rightarrow> unit result) \<Rightarrow> node \<Rightarrow> 'b launch_control \<Rightarrow> 'b launcher result \<times> 'b launch_control \<times> node" where
  "node_prepare hw fiber_barrier nd lc =
     (case prepare_launcher_with_wrapped_context hw fiber_barrier (nd_kind nd) (nd_launch_options nd) (nd_node nd) lc of
        (r, lc) \<Rightarrow> (r, lc, nd\<lparr>nd_node := False\<rparr>))"

definition egress_prepare ::
    "'b hwloc \<Rightarrow> (nat \<Rightarrow> unit result) \<Rightarrow> port \<Rightarrow> 'b launch_control \<Rightarrow> 'b launcher result \<times> 'b launch_control \<times> port" where
  "egress_prepare hw fiber_barrier p lc =
     (if \<not> pt_node p then (Inl (Check_failed ''m_sink''), lc, p)
      else if \<not> pt_connected p then (Inl (Check_failed ''manifold not set for egress port''), lc, p)
      else case prepare_launcher_default hw fiber_barrier Any_runnable True lc of
             (r, lc) \<Rightarrow> (r, lc, p\<lparr>pt_node := False\<rparr>))"

definition ingress_prepare ::
    "'b hwloc \<Rightarrow> (nat \<Rightarrow> unit result) \<Rightarrow> port \<Rightarrow> 'b launch_control \<Rightarrow> 'b launcher result \<times> 'b launch_control \<times> port" where
  "ingress_prepare hw fiber_barrier p lc =
     (if \<not> pt_node p then (Inl (Check_failed ''m_source''), lc, p)
      else case prepare_launcher_default hw fiber_barrier Any_runnable True lc of
             (r, lc) \<Rightarrow> (r, lc, p\<lparr>pt_node := False\<rparr>))"

text \<open>\<open>launcher->apply(...)\<close> with the completion callback. A runner records the calls it makes of its callback
  (\<open>callback_calls\<close>); what such a call does is \<open>on_completion\<close>: a failed runner kills the segment.\<close>

definition on_completion :: "'s service_hooks \<Rightarrow> bool \<Rightarrow> 's service \<Rightarrow> 's service \<times> unit result" where
  "on_completion h ok s = (if \<not> ok then service_kill h s else (s, Inr ()))"

lemma on_completion_state:
  "svc_state (fst (on_completion h ok s)) = (if ok then svc_state s else max Svc_Killing (svc_state s))"
  by (simp add: on_completion_def service_kill_state)

definition apply_callback :: "'b launcher \<Rightarrow> 'b launcher result" where
  "apply_callback la =
     (case la_runner la of
        None \<Rightarrow> Inl (Check_failed ''m_runner'')
      | Some r \<Rightarrow> rbind (on_completion_callback r) (\<lambda>r. Inr (la\<lparr>la_runner := Some r\<rparr>)))"

fun prepare_all ::
    "('x \<Rightarrow> 'b launch_control \<Rightarrow> 'b launcher result \<times> 'b launch_control \<times> 'x) \<Rightarrow> (string \<times> 'x) list \<Rightarrow> 'b launch_control
     \<Rightarrow> (string \<times> 'b launcher) list result \<times> 'b launch_control \<times> (string \<times> 'x) list" where
  "prepare_all prep [] lc = (Inr [], lc, [])"
| "prepare_all prep ((name, x) # xs) lc =
     (case prep x lc of (r, lc, x) \<Rightarrow>
       (case rbind r apply_callback of
          Inl e \<Rightarrow> (Inl e, lc, (name, x) # xs)
        | Inr la \<Rightarrow> (case prepare_all prep xs lc of (r, lc, xs) \<Rightarrow>
            (rbind r (\<lambda>las. Inr ((name, la) # las)), lc, (name, x) # xs))))"

fun ignite_all :: "(string \<times> 'b launcher) list \<Rightarrow> (string, runner) smap \<Rightarrow> (string, runner) smap \<times> unit result" where
  "ignite_all [] rs = (rs, Inr ())"
| "ignite_all ((name, la) # las) rs =
     (case ignition la of Inl e \<Rightarrow> (rs, Inl e) | Inr (r, la) \<Rightarrow> ignite_all las (smap_put name r rs))"

definition prepare_segment ::
    "'b hwloc \<Rightarrow> (nat \<Rightarrow> unit result) \<Rightarrow> builder \<Rightarrow> 'b launch_control
     \<Rightarrow> ((string \<times> 'b launcher) list \<times> (string \<times> 'b launcher) list \<times> (string \<times> 'b launcher) list) result
        \<times> 'b launch_control \<times> builder" where
  "prepare_segment hw fiber_barrier b lc =
     (case prepare_all (node_prepare hw fiber_barrier) (bd_nodes b) lc of (nodes, lc, xs) \<Rightarrow>
      let b = b\<lparr>bd_nodes := xs\<rparr> in
      (case nodes of Inl e \<Rightarrow> (Inl e, lc, b) | Inr nodes \<Rightarrow>
      (case prepare_all (egress_prepare hw fiber_barrier) (bd_egress_ports b) lc of (egress, lc, xs) \<Rightarrow>
      let b = b\<lparr>bd_egress_ports := xs\<rparr> in
      (case egress of Inl e \<Rightarrow> (Inl e, lc, b) | Inr egress \<Rightarrow>
      (case prepare_all (ingress_prepare hw fiber_barrier) (bd_ingress_ports b) lc of (ingress, lc, xs) \<Rightarrow>
       (rbind ingress (\<lambda>ingress. Inr (nodes, egress, ingress)), lc, b\<lparr>bd_ingress_ports := xs\<rparr>))))))"

definition ignite_segment ::
    "(string \<times> 'b launcher) list \<times> (string \<times> 'b launcher) list \<times> (string \<times> 'b launcher) list \<Rightarrow> segment \<Rightarrow> segment \<times> unit result" where
  "ignite_segment = (\<lambda>(nodes, egress, ingress) s.
     case ignite_all egress (sg_egress_runners s) of (rs, r) \<Rightarrow>
     let s = s\<lparr>sg_egress_runners := rs\<rparr> in
     (case r of Inl e \<Rightarrow> (s, Inl e) | Inr _ \<Rightarrow>
     (case ignite_all nodes (sg_runners s) of (rs, r) \<Rightarrow>
      let s = s\<lparr>sg_runners := rs\<rparr> in
      (case r of Inl e \<Rightarrow> (s, Inl e) | Inr _ \<Rightarrow>
      (case ignite_all ingress (sg_ingress_runners s) of (rs, r) \<Rightarrow> (s\<lparr>sg_ingress_runners := rs\<rparr>, r))))))"

definition segment_start ::
    "'b hwloc \<Rightarrow> (nat \<Rightarrow> unit result) \<Rightarrow> segment \<times> 'b resource_partitions \<Rightarrow> (segment \<times> 'b resource_partitions) \<times> unit result" where
  "segment_start hw fiber_barrier = (\<lambda>(s, rp).
     if sg_host s < length (rp_hosts rp)
     then case prepare_segment hw fiber_barrier (sg_builder s) (rp_hosts rp ! sg_host s) of (r, lc, b) \<Rightarrow>
       let s = s\<lparr>sg_builder := b\<rparr>; rp = rp\<lparr>rp_hosts := (rp_hosts rp)[sg_host s := lc]\<rparr> in
       (case r of
          Inl e \<Rightarrow> ((s, rp), Inl e)
        | Inr launchers \<Rightarrow> (case ignite_segment launchers s of (s, r) \<Rightarrow> ((s, rp), r)))
     else ((s, rp), Inl (Undefined_behaviour ''host'')))"

definition smap_apply :: "('v \<Rightarrow> 'v) \<Rightarrow> ('k, 'v) smap \<Rightarrow> ('k, 'v) smap" where
  "smap_apply f m = map (\<lambda>(k, v). (k, f v)) m"

definition segment_stop :: "segment \<times> 'b resource_partitions \<Rightarrow> (segment \<times> 'b resource_partitions) \<times> unit result" where
  "segment_stop = (\<lambda>(s, rp). ((s\<lparr>sg_runners := smap_apply runner_stop (sg_runners s)\<rparr>, rp), Inr ()))"

definition segment_kill :: "segment \<times> 'b resource_partitions \<Rightarrow> (segment \<times> 'b resource_partitions) \<times> unit result" where
  "segment_kill = (\<lambda>(s, rp).
     ((s\<lparr>sg_ingress_runners := smap_apply runner_kill (sg_ingress_runners s),
         sg_runners := smap_apply runner_kill (sg_runners s),
         sg_egress_runners := smap_apply runner_kill (sg_egress_runners s)\<rparr>, rp), Inr ()))"

fun live_all :: "(runner \<Rightarrow> runner) \<Rightarrow> (string, runner) smap \<Rightarrow> (string, runner) smap \<times> unit result" where
  "live_all settle [] = ([], Inr ())"
| "live_all settle ((name, r) # rs) =
     (let r = settle r
      in case await_live r of
           Inl e \<Rightarrow> ((name, r) # rs, Inl e)
         | Inr _ \<Rightarrow> (case live_all settle rs of (rs, x) \<Rightarrow> ((name, r) # rs, x)))"

definition segment_await_live ::
    "(runner \<Rightarrow> runner) \<Rightarrow> segment \<times> 'b resource_partitions \<Rightarrow> (segment \<times> 'b resource_partitions) \<times> unit result" where
  "segment_await_live settle = (\<lambda>(s, rp).
     case live_all settle (sg_ingress_runners s) of (rs, r) \<Rightarrow>
     let s = s\<lparr>sg_ingress_runners := rs\<rparr> in
     (case r of Inl e \<Rightarrow> ((s, rp), Inl e) | Inr _ \<Rightarrow>
     (case live_all settle (sg_runners s) of (rs, r) \<Rightarrow>
      let s = s\<lparr>sg_runners := rs\<rparr> in
      (case r of Inl e \<Rightarrow> ((s, rp), Inl e) | Inr _ \<Rightarrow>
      (case live_all settle (sg_egress_runners s) of (rs, r) \<Rightarrow> ((s\<lparr>sg_egress_runners := rs\<rparr>, rp), r))))))"

text \<open>Joining goes on after an exception; the first one is rethrown at the end.\<close>

fun join_all ::
    "(runner \<Rightarrow> runner) \<Rightarrow> (string, runner) smap \<Rightarrow> srf_error option \<Rightarrow> (string, runner) smap \<times> srf_error option result" where
  "join_all settle [] first_exception = ([], Inr first_exception)"
| "join_all settle ((name, r) # rs) first_exception =
     (case await_join (settle r) of (r, x) \<Rightarrow>
        if blocked x then ((name, r) # rs, Inl (Deadlock name))
        else (case join_all settle rs (remember first_exception x) of (rs, y) \<Rightarrow> ((name, r) # rs, y)))"

definition segment_await_join ::
    "(runner \<Rightarrow> runner) \<Rightarrow> segment \<times> 'b resource_partitions \<Rightarrow> (segment \<times> 'b resource_partitions) \<times> unit result" where
  "segment_await_join settle = (\<lambda>(s, rp).
     case join_all settle (sg_ingress_runners s) None of (rs, x) \<Rightarrow>
     let s = s\<lparr>sg_ingress_runners := rs\<rparr> in
     (case x of Inl e \<Rightarrow> ((s, rp), Inl e) | Inr first_exception \<Rightarrow>
     (case join_all settle (sg_runners s) first_exception of (rs, x) \<Rightarrow>
      let s = s\<lparr>sg_runners := rs\<rparr> in
      (case x of Inl e \<Rightarrow> ((s, rp), Inl e) | Inr first_exception \<Rightarrow>
      (case join_all settle (sg_egress_runners s) first_exception of (rs, x) \<Rightarrow>
       let s = s\<lparr>sg_egress_runners := rs\<rparr> in
       (case x of Inl e \<Rightarrow> ((s, rp), Inl e) | Inr first_exception \<Rightarrow> ((s, rp), rethrow first_exception)))))))"

definition segment_hooks ::
    "'b hwloc \<Rightarrow> (nat \<Rightarrow> unit result) \<Rightarrow> (runner \<Rightarrow> runner) \<Rightarrow> (runner \<Rightarrow> runner) \<Rightarrow> (segment \<times> 'b resource_partitions) service_hooks" where
  "segment_hooks hw fiber_barrier settle_live settle_join =
     \<lparr>do_service_start = segment_start hw fiber_barrier, do_service_await_live = segment_await_live settle_live,
      do_service_stop = segment_stop, do_service_kill = segment_kill,
      do_service_await_join = segment_await_join settle_join\<rparr>"

subsection \<open>Manifolds of a segment\<close>

definition create_manifold :: "segment \<Rightarrow> string \<Rightarrow> 'm manifold result" where
  "create_manifold s name =
     (case smap_find (bd_egress_ports (sg_builder s)) name of
        Some p \<Rightarrow> Inr (make_manifold name (pt_type p) (sg_host s))
      | None \<Rightarrow> (case smap_find (bd_ingress_ports (sg_builder s)) name of
          Some p \<Rightarrow> Inr (make_manifold name (pt_type p) (sg_host s))
        | None \<Rightarrow> Inl (Fatal ''unable to match ingress or egress port name'')))"

definition connect_egress :: "segment_address \<Rightarrow> port \<Rightarrow> 'm manifold \<Rightarrow> (port \<times> 'm manifold) result" where
  "connect_egress address p m =
     (if \<not> pt_node p then Inl (Check_failed ''m_sink'')
      else if pt_connected p then Inl (Check_failed ''!m_manifold_connected'')
      else Inr (p\<lparr>pt_connected := True\<rparr>, add_input address (pt_type p) m))"

definition connect_ingress :: "segment_address \<Rightarrow> port \<Rightarrow> 'm manifold \<Rightarrow> (port \<times> 'm manifold) result" where
  "connect_ingress address p m =
     (if \<not> pt_node p then Inl (Check_failed ''m_source'') else Inr (p, add_output address (pt_type p) m))"

definition attach_manifold :: "'m manifold \<Rightarrow> segment \<Rightarrow> (segment \<times> 'm manifold) result" where
  "attach_manifold m s =
     (let name = mf_port_name m; b = sg_builder s
      in case smap_find (bd_egress_ports b) name of
           Some p \<Rightarrow> rbind (connect_egress (sg_address s) p m) (\<lambda>(p, m).
             Inr (s\<lparr>sg_builder := b\<lparr>bd_egress_ports := smap_put name p (bd_egress_ports b)\<rparr>\<rparr>, m))
         | None \<Rightarrow> (case smap_find (bd_ingress_ports b) name of
             Some p \<Rightarrow> rbind (connect_ingress (sg_address s) p m) (\<lambda>(p, m).
               Inr (s\<lparr>sg_builder := b\<lparr>bd_ingress_ports := smap_put name p (bd_ingress_ports b)\<rparr>\<rparr>, m))
           | None \<Rightarrow> Inl (Srf_runtime_error ''invalid manifold for segment'')))"

subsection \<open>Which runners a segment has\<close>

text \<open>The runners are those of the nodes and ports of the builder.\<close>

definition runners_of :: "(string, 'x) smap \<Rightarrow> (string, runner) smap \<Rightarrow> bool" where
  "runners_of xs rs \<longleftrightarrow> smap_ok rs \<and> fst ` set rs \<subseteq> fst ` set xs"

definition seg_inv :: "segment \<times> 'b resource_partitions \<Rightarrow> bool" where
  "seg_inv = (\<lambda>(s, rp). runners_of (bd_nodes (sg_builder s)) (sg_runners s)
     \<and> runners_of (bd_egress_ports (sg_builder s)) (sg_egress_runners s)
     \<and> runners_of (bd_ingress_ports (sg_builder s)) (sg_ingress_runners s))"

lemma prepare_all_keys:
  "prepare_all prep xs lc = (r, lc', xs') \<Longrightarrow> map fst xs' = map fst xs \<and> (\<forall>las. r = Inr las \<longrightarrow> map fst las = map fst xs)"
proof (induction xs arbitrary: lc r lc' xs')
  case (Cons p xs)
  obtain name x where p: "p = (name, x)" by force
  obtain r1 lc1 x1 where s1: "prep x lc = (r1, lc1, x1)" by (metis prod_cases3)
  obtain r2 lc2 xs2 where s2: "prepare_all prep xs lc1 = (r2, lc2, xs2)" by (metis prod_cases3)
  note IH = Cons.IH [OF s2]
  show ?case
  proof (cases "rbind r1 apply_callback")
    case (Inl e)
    then show ?thesis using Cons.prems by (auto simp: p s1)
  next
    case (Inr la)
    then show ?thesis using Cons.prems IH by (cases r2) (auto simp: p s1 s2)
  qed
qed simp

lemma ignite_all_keys:
  "smap_ok rs \<Longrightarrow> ignite_all las rs = (rs', r) \<Longrightarrow>
   smap_ok rs' \<and> fst ` set rs' \<subseteq> fst ` set rs \<union> fst ` set las"
proof (induction las arbitrary: rs)
  case (Cons p las)
  obtain name la where p: "p = (name, la)" by force
  show ?case
  proof (cases "ignition la")
    case (Inl e)
    then show ?thesis using Cons.prems by (auto simp: p)
  next
    case (Inr x)
    obtain ru la' where x: "x = (ru, la')" by force
    have "ignite_all las (smap_put name ru rs) = (rs', r)" using Cons.prems(2) Inr x by (simp add: p)
    from Cons.IH [OF smap_ok_put [OF Cons.prems(1)] this] show ?thesis by (auto simp: p keys_smap_put)
  qed
qed simp

lemma runners_of_keys: "fst ` set xs = fst ` set ys \<Longrightarrow> runners_of xs rs = runners_of ys rs"
  by (simp add: runners_of_def)

lemma runners_of_ignite:
  assumes "runners_of xs rs" and "ignite_all las rs = (rs', r)" and "fst ` set las \<subseteq> fst ` set xs"
  shows "runners_of xs rs'"
proof -
  have rs: "smap_ok rs" "fst ` set rs \<subseteq> fst ` set xs" using assms(1) by (simp_all add: runners_of_def)
  note k = ignite_all_keys [OF rs(1) assms(2)]
  have "fst ` set rs' \<subseteq> fst ` set rs \<union> fst ` set las" using k by simp
  also have "\<dots> \<subseteq> fst ` set xs" by (rule Un_least [OF rs(2) assms(3)])
  finally show ?thesis using k by (simp add: runners_of_def)
qed

lemma map_fst_set: "map fst xs = map fst ys \<Longrightarrow> fst ` set xs = fst ` set ys"
  by (metis list.set_map)

lemma prepare_segment_keys:
  assumes "prepare_segment hw fb b lc = (r, lc', b')"
  shows "map fst (bd_nodes b') = map fst (bd_nodes b) \<and> map fst (bd_egress_ports b') = map fst (bd_egress_ports b)
     \<and> map fst (bd_ingress_ports b') = map fst (bd_ingress_ports b)
     \<and> (\<forall>n e i. r = Inr (n, e, i) \<longrightarrow> map fst n = map fst (bd_nodes b) \<and> map fst e = map fst (bd_egress_ports b)
          \<and> map fst i = map fst (bd_ingress_ports b))"
proof -
  obtain r1 lc1 xs1 where 1: "prepare_all (node_prepare hw fb) (bd_nodes b) lc = (r1, lc1, xs1)" by (metis prod_cases3)
  obtain r2 lc2 xs2 where 2: "prepare_all (egress_prepare hw fb) (bd_egress_ports b) lc1 = (r2, lc2, xs2)" by (metis prod_cases3)
  obtain r3 lc3 xs3 where 3: "prepare_all (ingress_prepare hw fb) (bd_ingress_ports b) lc2 = (r3, lc3, xs3)" by (metis prod_cases3)
  note k = prepare_all_keys [OF 1] prepare_all_keys [OF 2] prepare_all_keys [OF 3]
  show ?thesis
    using assms k by (cases r1; cases r2; cases r3) (auto simp: prepare_segment_def 1 2 3 Let_def)
qed

lemma ignite_segment_keys:
  assumes "ignite_segment (n, e, i) s = (s', r)" and "seg_inv (s, rp)"
    and "fst ` set n \<subseteq> fst ` set (bd_nodes (sg_builder s))" and "fst ` set e \<subseteq> fst ` set (bd_egress_ports (sg_builder s))"
    and "fst ` set i \<subseteq> fst ` set (bd_ingress_ports (sg_builder s))"
  shows "seg_inv (s', rp) \<and> sg_builder s' = sg_builder s"
proof -
  obtain rs1 r1 where 1: "ignite_all e (sg_egress_runners s) = (rs1, r1)" by force
  obtain rs2 r2 where 2: "ignite_all n (sg_runners s) = (rs2, r2)" by force
  obtain rs3 r3 where 3: "ignite_all i (sg_ingress_runners s) = (rs3, r3)" by force
  have "runners_of (bd_egress_ports (sg_builder s)) rs1" "runners_of (bd_nodes (sg_builder s)) rs2"
    "runners_of (bd_ingress_ports (sg_builder s)) rs3"
    using assms(2) runners_of_ignite [OF _ 1 assms(4)] runners_of_ignite [OF _ 2 assms(3)] runners_of_ignite [OF _ 3 assms(5)]
    by (auto simp: seg_inv_def)
  then show ?thesis
    using assms(1,2) by (cases r1; cases r2; cases r3) (auto simp: ignite_segment_def 1 2 3 Let_def seg_inv_def)
qed

lemma segment_start_inv: "seg_inv x \<Longrightarrow> seg_inv (fst (segment_start hw fb x))"
proof -
  assume inv: "seg_inv x"
  obtain s rp where x: "x = (s, rp)" by force
  obtain r lc b where p: "prepare_segment hw fb (sg_builder s) (rp_hosts rp ! sg_host s) = (r, lc, b)" by (metis prod_cases3)
  note k = prepare_segment_keys [OF p]
  let ?s = "s\<lparr>sg_builder := b\<rparr>"
  have keys: "fst ` set (bd_nodes b) = fst ` set (bd_nodes (sg_builder s))"
    "fst ` set (bd_egress_ports b) = fst ` set (bd_egress_ports (sg_builder s))"
    "fst ` set (bd_ingress_ports b) = fst ` set (bd_ingress_ports (sg_builder s))"
    using k map_fst_set by blast+
  have inv': "seg_inv (?s, rp')" for rp' :: "'a resource_partitions"
    using inv unfolding x seg_inv_def by (simp add: runners_of_def keys)
  show ?thesis
  proof (cases r)
    case (Inl e)
    then show ?thesis using inv inv' by (simp add: segment_start_def x p Let_def)
  next
    case (Inr l)
    obtain n e i where l: "l = (n, e, i)" by (metis prod_cases3)
    obtain s' r' where ig: "ignite_segment (n, e, i) ?s = (s', r')" by force
    have "map fst n = map fst (bd_nodes (sg_builder s))" "map fst e = map fst (bd_egress_ports (sg_builder s))"
      "map fst i = map fst (bd_ingress_ports (sg_builder s))" using k Inr l by auto
    note eq = this [THEN map_fst_set]
    have "fst ` set n \<subseteq> fst ` set (bd_nodes (sg_builder ?s))" "fst ` set e \<subseteq> fst ` set (bd_egress_ports (sg_builder ?s))"
      "fst ` set i \<subseteq> fst ` set (bd_ingress_ports (sg_builder ?s))"
      by (simp_all add: keys eq)
    then have "seg_inv (s', rp')" for rp' :: "'a resource_partitions"
      using ignite_segment_keys [OF ig inv'] by simp
    then show ?thesis using inv by (simp add: segment_start_def x p Inr l ig Let_def)
  qed
qed

lemma map_fst_apply [simp]: "map fst (smap_apply f m) = map fst m"
  by (simp add: smap_apply_def comp_def split_beta)

lemma map_fst_live: "map fst (fst (live_all settle rs)) = map fst rs"
  by (induction settle rs rule: live_all.induct) (auto simp: Let_def split_beta split: sum.splits)

lemma map_fst_join: "map fst (fst (join_all settle rs first)) = map fst rs"
proof (induction rs arbitrary: first)
  case (Cons p rs)
  then show ?case by (cases p) (simp add: split_beta)
qed simp

lemma runners_of_map_fst: "map fst rs' = map fst rs \<Longrightarrow> runners_of xs rs' = runners_of xs rs"
  unfolding runners_of_def smap_ok_def by (metis list.set_map)

lemmas runners_of_maps = runners_of_map_fst [OF map_fst_apply] runners_of_map_fst [OF map_fst_live]
  runners_of_map_fst [OF map_fst_join]

lemma segment_live_inv: "seg_inv x \<Longrightarrow> seg_inv (fst (segment_await_live settle x))"
  by (cases x) (auto simp: segment_await_live_def seg_inv_def Let_def split_beta runners_of_maps split: sum.splits)

lemma segment_join_inv: "seg_inv x \<Longrightarrow> seg_inv (fst (segment_await_join settle x))"
  by (cases x) (auto simp: segment_await_join_def seg_inv_def Let_def split_beta runners_of_maps split: sum.splits)

lemma segment_stop_inv: "seg_inv x \<Longrightarrow> seg_inv (fst (segment_stop x)) \<and> seg_inv (fst (segment_kill x))"
  by (cases x) (simp add: segment_stop_def segment_kill_def seg_inv_def runners_of_maps)

interpretation sg: service_impl "segment_hooks hw fb settle_live settle_join" seg_inv for hw fb settle_live settle_join
  by unfold_locales
    (simp_all add: segment_hooks_def segment_start_inv segment_live_inv segment_join_inv segment_stop_inv)

subsection \<open>Starting a segment\<close>

text \<open>Launch options that a launch control can serve any number of times: their group is a reusable fiber
  group with live task queues, and they ask for at least one engine.\<close>

definition fiber_group_ready :: "'b factory \<Rightarrow> bool" where
  "fiber_group_ready f \<longleftrightarrow> (case f of
     ReusableFiber x \<Rightarrow> None \<notin> set (fp_queues (ff_pool x)) \<and> ff_offset x < thread_count (ff_pool x) | _ \<Rightarrow> False)"

definition options_ready :: "'b launch_control \<Rightarrow> launch_options \<Rightarrow> bool" where
  "options_ready lc lo \<longleftrightarrow> (\<exists>f. smap_find (lc_resource_groups lc) (engine_factory_name lo) = Some f \<and> fiber_group_ready f)
     \<and> pe_count lo < 2 ^ 31 \<and> engines_per_pe lo < 2 ^ 31 \<and> 0 < pe_count lo * engines_per_pe lo"

definition runner_started :: "runner \<Rightarrow> bool" where
  "runner_started r \<longleftrightarrow> instances r \<noteq> [] \<and> (\<forall>x \<in> set (instances r). inst_state x = Rn_Queued)
     \<and> runnable r = Rb_Run \<and> has_callback r"

lemma fold_engines_ok:
  "n < 2 ^ 31 \<Longrightarrow> fold_result (\<lambda>x. int_loop (\<lambda>ls. Inr (ls @ [g x])) n) xs ls
     = Inr (ls @ concat (map (\<lambda>x. replicate n (g x)) xs))"
  by (induction xs arbitrary: ls) (simp_all add: int_loop_small loop_append)

lemma build_fiber_ready:
  assumes "fiber_group_ready f" and "pe_count lo < 2 ^ 31" and "engines_per_pe lo < 2 ^ 31"
  obtains es g where "build_engines hw lo f = (Inr es, g)" "fiber_group_ready g"
proof (cases f)
  case (ReusableFiber x)
  have x: "None \<notin> set (fp_queues (ff_pool x))" "ff_offset x < thread_count (ff_pool x)"
    using assms(1) by (simp_all add: fiber_group_ready_def ReusableFiber)
  let ?x = "x\<lparr>ff_offset := (ff_offset x + pe_count lo) mod thread_count (ff_pool x)\<rparr>"
  have "0 < thread_count (ff_pool x)" using x(2) by (rule le_less_trans [OF le0])
  then have "fiber_group_ready (ReusableFiber ?x)" using x(1) by (simp add: fiber_group_ready_def)
  moreover have "\<exists>es. build_engines hw lo f = (Inr es, ReusableFiber ?x)"
    using assms(3) by (simp add: ReusableFiber reusable_queues_rotate [OF x assms(2)] fiber_engines_def fold_engines_ok)
  ultimately show thesis using that by blast
qed (use assms(1) in \<open>simp_all add: fiber_group_ready_def\<close>)

lemma launch_ready:
  assumes "options_ready lc lo" and "\<forall>n > 0. fb n = Inr ()"
  shows "\<exists>la lc' la1 r la2. prepare_launcher hw fb k lo True lc = (Inr la, lc') \<and> apply_callback la = Inr la1
     \<and> ignition la1 = Inr (r, la2) \<and> runner_started r \<and> (\<forall>lo'. options_ready lc lo' \<longrightarrow> options_ready lc' lo')"
proof -
  obtain f where f: "smap_find (lc_resource_groups lc) (engine_factory_name lo) = Some f" "fiber_group_ready f"
    and b: "pe_count lo < 2 ^ 31" "engines_per_pe lo < 2 ^ 31" "0 < pe_count lo * engines_per_pe lo"
    using assms(1) by (auto simp: options_ready_def)
  obtain es g where eg: "build_engines hw lo f = (Inr es, g)" "fiber_group_ready g" by (rule build_fiber_ready [OF f(2) b(1,2)])
  have fst_eg: "fst (build_engines hw lo f) = Inr es" using eg by simp
  let ?n = "es_size es"
  have n: "0 < ?n" using ef.build_size [OF fst_eg] b(3) by simp
  define lc' where "lc' = lc\<lparr>lc_resource_groups := smap_put (engine_factory_name lo) g (lc_resource_groups lc)\<rparr>"
  define la where "la = \<lparr>la_runner = Some runner_new, la_context_type = Fiber, la_contexts = make_contexts ?n, la_engines = Some es\<rparr>"
  have t: "context_type k (factory_backend g) = Inr Fiber"
    using eg(2) by (cases k; cases g) (auto simp: context_type_def fiber_group_ready_def)
  have p: "prepare_launcher hw fb k lo True lc = (Inr la, lc')"
    using f(1) eg(1) t n assms(2)
    by (simp add: prepare_launcher_def lc_build_engines_def get_engine_factory_def lc'_def context_resources_def la_def)
  let ?la = "la\<lparr>la_runner := Some (runner_new\<lparr>has_callback := True\<rparr>)\<rparr>"
  have c: "apply_callback la = Inr ?la" by (simp add: apply_callback_def la_def on_completion_callback_def runner_new_def)
  obtain r where r: "runner_enqueue ?n (make_contexts ?n) (runner_new\<lparr>has_callback := True\<rparr>) = Inr r" "runner_started r"
    using enqueue_fresh [OF n, of True] n unfolding runner_started_def by (metis length_greater_0_conv)
  have "make_contexts ?n \<noteq> []" using n by (simp add: make_contexts_def)
  then have "\<exists>la2. ignition ?la = Inr (r, la2)"
    by (simp add: ignition_def la_def r(1) ef.build_launch [OF fst_eg])
  moreover have "options_ready lc lo' \<Longrightarrow> options_ready lc' lo'" for lo'
    using eg(2) by (auto simp: options_ready_def lc'_def)
  ultimately show ?thesis using p c r(2) by blast
qed

definition launcher_ready :: "'b launcher \<Rightarrow> bool" where
  "launcher_ready la \<longleftrightarrow> (case ignition la of Inl _ \<Rightarrow> False | Inr (r, _) \<Rightarrow> runner_started r)"

lemma prepare_all_ok:
  assumes "\<And>x lc. x \<in> snd ` set xs \<Longrightarrow> R lc \<Longrightarrow>
    \<exists>la lc' x' la1. prep x lc = (Inr la, lc', x') \<and> R lc' \<and> apply_callback la = Inr la1 \<and> launcher_ready la1"
  shows "R lc \<Longrightarrow> \<exists>las lc' xs'. prepare_all prep xs lc = (Inr las, lc', xs') \<and> R lc' \<and> map fst las = map fst xs
     \<and> (\<forall>p \<in> set las. launcher_ready (snd p))"
  using assms
proof (induction xs arbitrary: lc)
  case (Cons p xs)
  obtain name x where p: "p = (name, x)" by force
  obtain la lc1 x' la1 where s: "prep x lc = (Inr la, lc1, x')" "R lc1" "apply_callback la = Inr la1" "launcher_ready la1"
    using Cons.prems(2) [of x, OF _ Cons.prems(1)] p by auto
  obtain las lc2 xs' where "prepare_all prep xs lc1 = (Inr las, lc2, xs')" "R lc2" "map fst las = map fst xs"
    "\<forall>p \<in> set las. launcher_ready (snd p)"
    using Cons.IH [OF s(2)] Cons.prems(2) by auto
  then show ?case using s by (simp add: p)
qed simp

lemma ignite_all_ok:
  assumes "\<forall>p \<in> set las. launcher_ready (snd p)" and "\<forall>p \<in> set rs. runner_started (snd p)"
  shows "\<exists>rs'. ignite_all las rs = (rs', Inr ()) \<and> fst ` set rs' = fst ` set rs \<union> fst ` set las
     \<and> (\<forall>p \<in> set rs'. runner_started (snd p))"
  using assms
proof (induction las arbitrary: rs)
  case (Cons p las)
  obtain name la where p: "p = (name, la)" by force
  obtain r la' where r: "ignition la = Inr (r, la')" "runner_started r"
    using Cons.prems(1) by (auto simp: p launcher_ready_def split: sum.splits)
  have "\<forall>p \<in> set (smap_put name r rs). runner_started (snd p)"
    using set_smap_put [of name r rs] Cons.prems(2) r(2) by auto
  with Cons.IH [of "smap_put name r rs"] Cons.prems(1) obtain rs' where
    "ignite_all las (smap_put name r rs) = (rs', Inr ())" "\<forall>p \<in> set rs'. runner_started (snd p)"
    "fst ` set rs' = fst ` set (smap_put name r rs) \<union> fst ` set las" by auto
  then show ?case using r(1) by (simp add: p keys_smap_put)
qed simp

definition builder_ready :: "builder \<Rightarrow> bool" where
  "builder_ready b \<longleftrightarrow> (\<forall>nd \<in> snd ` set (bd_nodes b). nd_node nd)
     \<and> (\<forall>p \<in> snd ` set (bd_egress_ports b). pt_node p \<and> pt_connected p) \<and> (\<forall>p \<in> snd ` set (bd_ingress_ports b). pt_node p)"

lemma prepare_segment_ok:
  assumes "\<forall>lo \<in> insert launch_options_default (nd_launch_options ` snd ` set (bd_nodes b)). options_ready lc lo"
    and "builder_ready b" and "\<forall>n > 0. fb n = Inr ()"
  shows "\<exists>n e i lc' b'. prepare_segment hw fb b lc = (Inr (n, e, i), lc', b')
     \<and> (\<forall>p \<in> set n \<union> set e \<union> set i. launcher_ready (snd p))"
proof -
  let ?S = "insert launch_options_default (nd_launch_options ` snd ` set (bd_nodes b))"
  let ?R = "\<lambda>lc. \<forall>lo \<in> ?S. options_ready lc lo"
  have step: "\<exists>la lc' la1. prepare_launcher hw fb k lo True lc = (Inr la, lc') \<and> ?R lc' \<and> apply_callback la = Inr la1 \<and> launcher_ready la1"
    if "?R lc" "lo \<in> ?S" for lc k lo
    using launch_ready [OF _ assms(3), of lc lo hw k] that by (fastforce simp: launcher_ready_def)
  obtain n lc1 xs1 where 1: "prepare_all (node_prepare hw fb) (bd_nodes b) lc = (Inr n, lc1, xs1)" "?R lc1"
    "\<forall>p \<in> set n. launcher_ready (snd p)"
  proof -
    have "\<exists>la lc' x' la1. node_prepare hw fb x lc = (Inr la, lc', x') \<and> ?R lc' \<and> apply_callback la = Inr la1 \<and> launcher_ready la1"
      if x: "x \<in> snd ` set (bd_nodes b)" and "?R lc" for x lc
    proof -
      have "nd_node x = True" "nd_launch_options x \<in> ?S" using x assms(2) by (auto simp: builder_ready_def)
      then show ?thesis using step [OF that(2), of "nd_launch_options x" "nd_kind x"]
        by (auto simp: node_prepare_def prepare_launcher_with_wrapped_context_def)
    qed
    from prepare_all_ok [where xs = "bd_nodes b" and R = ?R and prep = "node_prepare hw fb" and lc = lc, OF this assms(1)] show thesis using that by blast
  qed
  obtain e lc2 xs2 where 2: "prepare_all (egress_prepare hw fb) (bd_egress_ports b) lc1 = (Inr e, lc2, xs2)" "?R lc2"
    "\<forall>p \<in> set e. launcher_ready (snd p)"
  proof -
    have "\<exists>la lc' x' la1. egress_prepare hw fb x lc = (Inr la, lc', x') \<and> ?R lc' \<and> apply_callback la = Inr la1 \<and> launcher_ready la1"
      if "x \<in> snd ` set (bd_egress_ports b)" "?R lc" for x lc
      using step [OF that(2), of launch_options_default Any_runnable] that(1) assms(2)
      by (auto simp: egress_prepare_def prepare_launcher_default_def builder_ready_def)
    from prepare_all_ok [where xs = "bd_egress_ports b" and R = ?R and prep = "egress_prepare hw fb" and lc = lc1, OF this 1(2)] show thesis using that by blast
  qed
  obtain i lc3 xs3 where 3: "prepare_all (ingress_prepare hw fb) (bd_ingress_ports b) lc2 = (Inr i, lc3, xs3)"
    "\<forall>p \<in> set i. launcher_ready (snd p)"
  proof -
    have "\<exists>la lc' x' la1. ingress_prepare hw fb x lc = (Inr la, lc', x') \<and> ?R lc' \<and> apply_callback la = Inr la1 \<and> launcher_ready la1"
      if "x \<in> snd ` set (bd_ingress_ports b)" "?R lc" for x lc
      using step [OF that(2), of launch_options_default Any_runnable] that(1) assms(2)
      by (auto simp: ingress_prepare_def prepare_launcher_default_def builder_ready_def)
    from prepare_all_ok [where xs = "bd_ingress_ports b" and R = ?R and prep = "ingress_prepare hw fb" and lc = lc2, OF this 2(2)] show thesis using that by blast
  qed
  show ?thesis using 1(1,3) 2(1,3) 3 by (auto simp: prepare_segment_def Let_def)
qed

text \<open>C4. Starting a segment launches all of it. When the groups named by the launch options are reusable fiber groups
  and every port is connected, the start hook returns, and every node and every port of the builder, and
  nothing else, has a runner, whose instances are all queued and which reports its completion to the
  segment.\<close>

theorem segment_starts:
  assumes "sg_host s < length (rp_hosts rp)" and "builder_ready (sg_builder s)" and "\<forall>n > 0. fiber_barrier n = Inr ()"
    and "\<forall>lo \<in> insert launch_options_default (nd_launch_options ` snd ` set (bd_nodes (sg_builder s))).
           options_ready (rp_hosts rp ! sg_host s) lo"
    and "sg_runners s = []" and "sg_egress_runners s = []" and "sg_ingress_runners s = []"
  shows "\<exists>s' rp'. segment_start hw fiber_barrier (s, rp) = ((s', rp'), Inr ())
     \<and> fst ` set (sg_runners s') = fst ` set (bd_nodes (sg_builder s))
     \<and> fst ` set (sg_egress_runners s') = fst ` set (bd_egress_ports (sg_builder s))
     \<and> fst ` set (sg_ingress_runners s') = fst ` set (bd_ingress_ports (sg_builder s))
     \<and> (\<forall>p \<in> set (sg_runners s') \<union> set (sg_egress_runners s') \<union> set (sg_ingress_runners s'). runner_started (snd p))"
proof -
  obtain n e i lc' b' where p: "prepare_segment hw fiber_barrier (sg_builder s) (rp_hosts rp ! sg_host s) = (Inr (n, e, i), lc', b')"
    and ready: "\<forall>p \<in> set n \<union> set e \<union> set i. launcher_ready (snd p)"
    using prepare_segment_ok [OF assms(4,2,3)] by blast
  have keys: "map fst n = map fst (bd_nodes (sg_builder s))" "map fst e = map fst (bd_egress_ports (sg_builder s))"
    "map fst i = map fst (bd_ingress_ports (sg_builder s))" using prepare_segment_keys [OF p] by auto
  obtain rn where rn: "ignite_all n [] = (rn, Inr ())" "fst ` set rn = fst ` set n" "\<forall>p \<in> set rn. runner_started (snd p)"
    using ignite_all_ok [of n "[]"] ready by auto
  obtain re where re: "ignite_all e [] = (re, Inr ())" "fst ` set re = fst ` set e" "\<forall>p \<in> set re. runner_started (snd p)"
    using ignite_all_ok [of e "[]"] ready by auto
  obtain ri where ri: "ignite_all i [] = (ri, Inr ())" "fst ` set ri = fst ` set i" "\<forall>p \<in> set ri. runner_started (snd p)"
    using ignite_all_ok [of i "[]"] ready by auto
  define s' where "s' = s\<lparr>sg_builder := b', sg_egress_runners := re, sg_runners := rn, sg_ingress_runners := ri\<rparr>"
  have "segment_start hw fiber_barrier (s, rp) = ((s', rp\<lparr>rp_hosts := (rp_hosts rp)[sg_host s := lc']\<rparr>), Inr ())"
    using assms(1,5-7) rn(1) re(1) ri(1) by (simp add: segment_start_def p ignite_segment_def Let_def s'_def)
  moreover have f: "sg_runners s' = rn" "sg_egress_runners s' = re" "sg_ingress_runners s' = ri" by (simp_all add: s'_def)
  moreover note k = keys [THEN map_fst_set]
  ultimately show ?thesis
    using rn(3) re(3) ri(3) unfolding rn(2) [symmetric, unfolded k] k [symmetric]
    by (intro exI [of _ s'] exI conjI) (simp_all only: f rn(2) re(2) ri(2) ball_Un)
qed

text \<open>The tasks of a runner are over: every future has a value, an exception or none.\<close>

definition joinable :: "runner \<Rightarrow> bool" where
  "joinable r \<longleftrightarrow> ended r \<and> (\<forall>v \<in> set (join_values r). \<not> blocked v)"

lemma joinable_await: "joinable r \<Longrightarrow> \<not> blocked (snd (await_join r)) \<and> instances (fst (await_join r)) = []"
proof -
  assume j: "joinable r"
  have "\<not> blocked (first_error (join_values r))"
  proof (cases "first_error (join_values r)")
    case (Inl e)
    then have "Inl e \<in> set (join_values r)" using first_error_InlD by fastforce
    then show ?thesis using j Inl by (auto simp: joinable_def)
  qed (simp add: blocked_def)
  then show ?thesis using j by (simp add: joinable_def await_join_eq)
qed

lemma join_all_eq:
  assumes "\<forall>p \<in> set rs. joinable (settle (snd p))"
  shows "join_all settle rs first = (map (\<lambda>(name, r). (name, fst (await_join (settle r)))) rs,
     Inr (fold (\<lambda>r first. remember first r) (map (\<lambda>p. first_error (join_values (settle (snd p)))) rs) first))"
  using assms
proof (induction settle rs first rule: join_all.induct)
  case (2 settle name r rs first)
  then have j: "joinable (settle r)" by simp
  then have e: "await_join (settle r) = ((settle r)\<lparr>instances := []\<rparr>, first_error (join_values (settle r)))"
    by (simp add: joinable_def await_join_eq)
  have "\<not> blocked (first_error (join_values (settle r)))" using joinable_await [OF j] e by simp
  then show ?case using 2 e by simp
qed simp

lemma first_error_spec:
  fixes vs :: "unit result list"
  shows "(first_error vs = Inr () \<longleftrightarrow> (\<forall>v \<in> set vs. v = Inr ()))
     \<and> (\<forall>e. first_error vs = Inl e \<longrightarrow> (\<exists>us ws. vs = us @ Inl e # ws \<and> (\<forall>u \<in> set us. u = Inr ())))"
proof -
  have ok: "is_ok u \<longleftrightarrow> u = Inr ()" for u :: "unit result" by (cases u) (simp_all add: is_ok_def)
  show ?thesis using first_error_Inr [of vs] first_error_InlD [of vs] by (auto simp: ok)
qed

text \<open>C23. Joining a segment whose runners' tasks end joins every runner, whatever exceptions the others left, and keeps their
  names. It returns normally exactly if no task of any runner ended with an exception; otherwise it rethrows the first
  exception in the order ingress ports, nodes, egress ports, each by name, and within a runner by instance.\<close>

theorem segment_joins_all:
  assumes "\<forall>p \<in> set (sg_ingress_runners s @ sg_runners s @ sg_egress_runners s). joinable (settle (snd p))"
    and "segment_await_join settle (s, rp) = ((s', rp'), r)"
  shows "(\<forall>p \<in> set (sg_ingress_runners s' @ sg_runners s' @ sg_egress_runners s'). instances (snd p) = [])
     \<and> map fst (sg_ingress_runners s' @ sg_runners s' @ sg_egress_runners s') = map fst (sg_ingress_runners s @ sg_runners s @ sg_egress_runners s)
     \<and> (let vs = concat (map (\<lambda>p. join_values (settle (snd p))) (sg_ingress_runners s @ sg_runners s @ sg_egress_runners s)) in
          (r = Inr () \<longleftrightarrow> (\<forall>v \<in> set vs. v = Inr ()))
        \<and> (\<forall>e. r = Inl e \<longrightarrow> (\<exists>us ws. vs = us @ Inl e # ws \<and> (\<forall>u \<in> set us. u = Inr ()))))"
proof -
  let ?i = "sg_ingress_runners s" and ?n = "sg_runners s" and ?e = "sg_egress_runners s"
  let ?j = "map (\<lambda>(name, r). (name, fst (await_join (settle r))))" and ?v = "map (\<lambda>p. first_error (join_values (settle (snd p))))"
  have eq: "join_all settle ?i f = (?j ?i, Inr (fold (\<lambda>r first. remember first r) (?v ?i) f))"
    "join_all settle ?n f = (?j ?n, Inr (fold (\<lambda>r first. remember first r) (?v ?n) f))"
    "join_all settle ?e f = (?j ?e, Inr (fold (\<lambda>r first. remember first r) (?v ?e) f))" for f
    using assms(1) by (intro join_all_eq; auto)+
  have s': "s' = s\<lparr>sg_ingress_runners := ?j ?i, sg_runners := ?j ?n, sg_egress_runners := ?j ?e\<rparr>"
    and r: "r = rethrow (fold (\<lambda>r first. remember first r) (?v (?i @ ?n @ ?e)) None)"
    using assms(2) by (auto simp: segment_await_join_def eq Let_def)
  have "r = first_error (map first_error (map (\<lambda>p. join_values (settle (snd p))) (?i @ ?n @ ?e)))"
    unfolding r rethrow_remember by (simp add: comp_def)
  then have "r = first_error (concat (map (\<lambda>p. join_values (settle (snd p))) (?i @ ?n @ ?e)))" by (simp only: first_error_concat)
  moreover have "\<forall>p \<in> set (?j rs). instances (snd p) = []" if "\<forall>p \<in> set rs. joinable (settle (snd p))" for rs
    using that joinable_await by fastforce
  then have "\<forall>p \<in> set (?j ?i @ ?j ?n @ ?j ?e). instances (snd p) = []" using assms(1) by (metis Un_iff set_append)
  ultimately show ?thesis using first_error_spec unfolding Let_def by (simp add: s' comp_def split_beta)
qed

subsection \<open>Concrete runs\<close>

definition sample_builder :: builder where
  "sample_builder = \<lparr>bd_name = ''seg'', bd_ingress_ports = [], bd_egress_ports = [(''out'', \<lparr>pt_type = 0, pt_node = True, pt_connected = True\<rparr>)],
     bd_objects = [(''out'', Egress_object), (''src'', Node_object)],
     bd_nodes = [(''src'', \<lparr>nd_kind = Any_runnable, nd_launch_options = sample_lo, nd_node = True\<rparr>)]\<rparr>"

definition sample_segment :: segment where
  "sample_segment = \<lparr>sg_name = ''seg'', sg_id = 1, sg_rank = 0, sg_address = segment_address_encode 1 0, sg_host = 0,
     sg_builder = sample_builder, sg_runners = [], sg_egress_runners = [], sg_ingress_runners = []\<rparr>"

definition sample_resources :: "nat list resource_partitions" where
  "sample_resources = \<lparr>rp_hosts = [\<lparr>lc_resource_groups = [(''default'', sample_factory), (''main'', sample_factory)]\<rparr>],
     rp_partition_host = [0]\<rparr>"

theorem segment_starts_witness:
  "\<exists>s' rp'. segment_start list_hwloc (\<lambda>n. if n = 0 then Inl (Invalid_argument ''barrier'') else Inr ())
       (sample_segment, sample_resources) = ((s', rp'), Inr ())
     \<and> fst ` set (sg_runners s') = {''src''} \<and> fst ` set (sg_egress_runners s') = {''out''}"
proof -
  let ?fb = "\<lambda>n :: nat. if n = 0 then Inl (Invalid_argument ''barrier'') else Inr () :: unit result"
  have seg: "sg_builder sample_segment = sample_builder" "sg_host sample_segment = 0" "sg_runners sample_segment = []"
    "sg_egress_runners sample_segment = []" "sg_ingress_runners sample_segment = []" by (simp_all add: sample_segment_def)
  have b: "builder_ready (sg_builder sample_segment)" by (simp add: seg builder_ready_def sample_builder_def)
  have h: "sg_host sample_segment < length (rp_hosts sample_resources)" by (simp add: seg sample_resources_def)
  have o': "\<forall>lo \<in> insert launch_options_default (nd_launch_options ` snd ` set (bd_nodes (sg_builder sample_segment))).
      options_ready (rp_hosts sample_resources ! sg_host sample_segment) lo"
    unfolding seg by (simp add: sample_builder_def sample_resources_def options_ready_def fiber_group_ready_def
        sample_factory_def sample_lo_def launch_options_default_def default_engine_factory_name_def)
  have fb: "\<forall>n > 0. ?fb n = Inr ()" by simp
  have keys: "fst ` set (bd_nodes sample_builder) = {''src''}" "fst ` set (bd_egress_ports sample_builder) = {''out''}"
    by (simp_all add: sample_builder_def)
  from segment_starts [OF h b fb o' seg(3-5), of list_hwloc] show ?thesis
    unfolding seg(1) keys by (elim exE conjE) (intro exI conjI, assumption+)
qed

definition joined_segment :: segment where
  "joined_segment = sample_segment\<lparr>sg_runners := [(''src'', runner_new\<lparr>instances :=
     [(fresh_inst (context_new 0 1))\<lparr>join_value := Some (Inl (User_exception 7))\<rparr>]\<rparr>)]\<rparr>"

theorem segment_joins_all_witness:
  "\<exists>s' rp'. segment_await_join (\<lambda>r. r) (joined_segment, sample_resources) = ((s', rp'), Inl (User_exception 7))
     \<and> (\<forall>p \<in> set (sg_runners s'). instances (snd p) = [])"
proof -
  have "\<exists>s' rp'. segment_await_join (\<lambda>r. r) (joined_segment, sample_resources) = ((s', rp'), Inl (User_exception 7))"
    by (simp add: segment_await_join_def joined_segment_def await_join_def sample_segment_def blocked_def remember_def rethrow_def)
  then obtain s' rp' where j: "segment_await_join (\<lambda>r. r) (joined_segment, sample_resources) = ((s', rp'), Inl (User_exception 7))"
    by blast
  have "\<forall>p \<in> set (sg_ingress_runners joined_segment @ sg_runners joined_segment @ sg_egress_runners joined_segment). joinable (snd p)"
    by (simp add: joined_segment_def sample_segment_def joinable_def ended_def join_values_def blocked_def)
  from segment_joins_all [OF this j] j show ?thesis by auto
qed

end
