(* ===== verification/Pipelines.thy ===== *)
theory Pipelines
  imports Segments
begin

section \<open>Pipeline instances, the controller and the manager\<close>

text \<open>
  \<^verbatim>\<open>src/internal/pipeline\<close>: an instance owns the segments and the manifolds between them; the
  controller turns a requested set of segment addresses into creations and stops; the manager is the
  service at the top, which sends control messages to the controller. Segments, instances and managers
  are services. The parameters of a run (hwloc, the barrier of Boost.Fiber, how far runners get while
  somebody waits for them, \<^verbatim>\<open>std::random_shuffle\<close>) are collected in \<open>run_env\<close>.
\<close>

record 'b run_env =
  re_hwloc :: "'b hwloc"
  re_fiber_barrier :: "nat \<Rightarrow> unit result"
  re_settle_live :: "runner \<Rightarrow> runner"
  re_settle_join :: "runner \<Rightarrow> runner"
  re_shuffle :: "segment_address list \<Rightarrow> segment_address list"

abbreviation seg_hooks :: "'b run_env \<Rightarrow> (segment \<times> 'b resource_partitions) service_hooks" where
  "seg_hooks env \<equiv> segment_hooks (re_hwloc env) (re_fiber_barrier env) (re_settle_live env) (re_settle_join env)"

text \<open>A loop whose body may throw; the state is kept as far as it got.\<close>

fun run_each :: "('a \<Rightarrow> 's \<Rightarrow> 's \<times> unit result) \<Rightarrow> 'a list \<Rightarrow> 's \<Rightarrow> 's \<times> unit result" where
  "run_each f [] s = (s, Inr ())"
| "run_each f (x # xs) s = (case f x s of (s, Inl e) \<Rightarrow> (s, Inl e) | (s, Inr _) \<Rightarrow> run_each f xs s)"

definition and_then :: "'s \<times> unit result \<Rightarrow> ('s \<Rightarrow> 's \<times> unit result) \<Rightarrow> 's \<times> unit result" where
  "and_then x f = (case x of (s, Inl e) \<Rightarrow> (s, Inl e) | (s, Inr _) \<Rightarrow> f s)"

subsection \<open>Set differences\<close>

definition extract_keys :: "('k, 'v) smap \<Rightarrow> 'k list" where
  "extract_keys m = map fst m"

text \<open>\<^verbatim>\<open>std::set_difference\<close> on two sorted ranges.\<close>

fun set_difference :: "'a::linorder list \<Rightarrow> 'a list \<Rightarrow> 'a list" where
  "set_difference [] ys = []"
| "set_difference (x # xs) [] = x # xs"
| "set_difference (x # xs) (y # ys) =
     (if x < y then x # set_difference xs (y # ys)
      else if y < x then set_difference (x # xs) ys
      else set_difference xs ys)"

definition set_compare :: "'a::linorder list \<Rightarrow> 'a list \<Rightarrow> 'a list \<times> 'a list" where
  "set_compare cur_set new_set = (set_difference new_set cur_set, set_difference cur_set new_set)"

lemma set_difference_eq:
  "sorted_wrt (<) xs \<Longrightarrow> sorted_wrt (<) ys \<Longrightarrow> set_difference xs ys = filter (\<lambda>x. x \<notin> set ys) xs"
proof (induction xs ys rule: set_difference.induct)
  case (3 x xs y ys)
  consider "x < y" | "y < x" | "x = y" by (rule linorder_cases)
  then show ?case
  proof cases
    case 1
    then have "x \<notin> set (y # ys)" using "3.prems"(2) by auto
    then show ?thesis using 1 3 by simp
  next
    case 2
    then have "\<forall>z \<in> set (x # xs). z \<noteq> y" using "3.prems"(1) by auto
    then have "filter (\<lambda>z. z \<notin> set (y # ys)) (x # xs) = filter (\<lambda>z. z \<notin> set ys) (x # xs)" by (intro filter_cong) auto
    moreover have "set_difference (x # xs) (y # ys) = set_difference (x # xs) ys" using 2 by (simp add: less_not_sym)
    moreover have "set_difference (x # xs) ys = filter (\<lambda>z. z \<notin> set ys) (x # xs)"
      using "3.IH"(2) 2 "3.prems" by (simp add: less_not_sym del: filter.simps)
    ultimately show ?thesis by simp
  next
    case 3
    then have "filter (\<lambda>z. z \<notin> set (y # ys)) xs = filter (\<lambda>z. z \<notin> set ys) xs"
      using "3.prems"(1) by (intro filter_cong) auto
    then show ?thesis using 3 "3.IH"(3) "3.prems" by simp
  qed
qed auto

subsection \<open>Pipeline instances\<close>

record ('b, 'm) pipeline_instance =
  pi_definition :: "(nat, nat, builder \<Rightarrow> builder result) pipeline"
  pi_resources :: "'b resource_partitions"
  pi_segments :: "(segment_address, segment service) smap"
  pi_manifolds :: "(string, 'm manifold) smap"
  pi_joinable :: bool

definition pipeline_instance_new ::
    "(nat, nat, builder \<Rightarrow> builder result) pipeline \<Rightarrow> 'b resource_partitions \<Rightarrow> ('b, 'm) pipeline_instance" where
  "pipeline_instance_new d rp = \<lparr>pi_definition = d, pi_resources = rp, pi_segments = [], pi_manifolds = [], pi_joinable = False\<rparr>"

definition mark_joinable :: "('b, 'm) pipeline_instance \<Rightarrow> ('b, 'm) pipeline_instance" where
  "mark_joinable p = p\<lparr>pi_joinable := True\<rparr>"

text \<open>A call of the service interface of one segment.\<close>

definition on_segment ::
    "((segment \<times> 'b resource_partitions) service \<Rightarrow> (segment \<times> 'b resource_partitions) service \<times> unit result)
     \<Rightarrow> segment_address \<Rightarrow> ('b, 'm) pipeline_instance \<Rightarrow> ('b, 'm) pipeline_instance \<times> unit result" where
  "on_segment call address p =
     (case smap_find (pi_segments p) address of
        None \<Rightarrow> (p, Inl (Check_failed ''search != m_segments.end()''))
      | Some sv \<Rightarrow>
          (case call \<lparr>svc_state = svc_state sv, svc_obj = (svc_obj sv, pi_resources p)\<rparr> of (sv, r) \<Rightarrow>
             (p\<lparr>pi_segments := smap_put address \<lparr>svc_state = svc_state sv, svc_obj = fst (svc_obj sv)\<rparr> (pi_segments p),
                pi_resources := snd (svc_obj sv)\<rparr>, r)))"

definition get_manifold :: "('b, 'm) pipeline_instance \<Rightarrow> string \<Rightarrow> 'm manifold option" where
  "get_manifold p port_name = smap_find (pi_manifolds p) port_name"

definition update_manifold ::
    "'b run_env \<Rightarrow> string \<Rightarrow> ('b, 'm) pipeline_instance \<Rightarrow> ('b, 'm) pipeline_instance \<times> unit result" where
  "update_manifold env name p =
     (case get_manifold p name of
        None \<Rightarrow> (p, Inl (Check_failed ''manifold''))
      | Some m \<Rightarrow>
          (case rbind (update_inputs m) (update_outputs (re_shuffle env)) of
             Inl e \<Rightarrow> (p, Inl e)
           | Inr m \<Rightarrow>
               (case manifold_start (re_hwloc env) (re_fiber_barrier env) (m, pi_resources p) of (r, m, rp) \<Rightarrow>
                  (p\<lparr>pi_manifolds := smap_put name m (pi_manifolds p), pi_resources := rp\<rparr>, r))))"

definition start_segment ::
    "'b run_env \<Rightarrow> segment_address \<Rightarrow> ('b, 'm) pipeline_instance \<Rightarrow> ('b, 'm) pipeline_instance \<times> unit result" where
  "start_segment env address p =
     and_then (on_segment (service_start (seg_hooks env)) address p)
       (on_segment (service_await_live (seg_hooks env)) address)"

definition pipeline_update :: "'b run_env \<Rightarrow> ('b, 'm) pipeline_instance \<Rightarrow> ('b, 'm) pipeline_instance \<times> unit result" where
  "pipeline_update env p =
     and_then (run_each (update_manifold env) (map fst (pi_manifolds p)) p) (\<lambda>p.
     and_then (run_each (start_segment env) (map fst (pi_segments p)) p) (\<lambda>p. (mark_joinable p, Inr ())))"

definition remove_segment :: "segment_address \<Rightarrow> ('b, 'm) pipeline_instance \<Rightarrow> ('b, 'm) pipeline_instance result" where
  "remove_segment address p =
     (if smap_find (pi_segments p) address = None then Inl (Check_failed ''search != m_segments.end()'')
      else Inr (p\<lparr>pi_segments := smap_erase address (pi_segments p)\<rparr>))"

definition join_segment ::
    "'b run_env \<Rightarrow> segment_address \<Rightarrow> ('b, 'm) pipeline_instance \<Rightarrow> ('b, 'm) pipeline_instance \<times> unit result" where
  "join_segment env address p = on_segment (service_await_join (seg_hooks env)) address p"

definition stop_segment ::
    "'b run_env \<Rightarrow> segment_address \<Rightarrow> ('b, 'm) pipeline_instance \<Rightarrow> ('b, 'm) pipeline_instance \<times> unit result" where
  "stop_segment env address p =
     (if smap_find (pi_segments p) address = None then (p, Inl (Check_failed ''search != m_segments.end()''))
      else case find_segment (pi_definition p) (fst (segment_address_decode address)) of
             Inl e \<Rightarrow> (p, Inl e)
           | Inr segdef \<Rightarrow> on_segment (service_stop (seg_hooks env)) address p)"

text \<open>One port of a new segment: its manifold is made by the first segment that has the port.\<close>

definition attach_port :: "string \<Rightarrow> segment \<times> (string, 'm manifold) smap \<Rightarrow> (segment \<times> (string, 'm manifold) smap) result" where
  "attach_port name = (\<lambda>(s, ms).
     rbind (case smap_find ms name of None \<Rightarrow> create_manifold s name | Some m \<Rightarrow> Inr m) (\<lambda>m.
     rbind (attach_manifold m s) (\<lambda>(s, m). Inr (s, smap_put name m ms))))"

definition create_segment ::
    "segment_address \<Rightarrow> nat \<Rightarrow> ('b, 'm) pipeline_instance \<Rightarrow> ('b, 'm) pipeline_instance result" where
  "create_segment address partition_id p =
     rbind (rcheck (partition_id < length (rp_partition_host (pi_resources p))) ''partition_id < resources().partitions()'') (\<lambda>_.
     rbind (rcheck (smap_find (pi_segments p) address = None) ''search == m_segments.end()'') (\<lambda>_.
     case segment_address_decode address of (id', rank) \<Rightarrow>
     rbind (find_segment (pi_definition p) id') (\<lambda>sd.
     rbind (segment_new sd rank partition_id (pi_resources p)) (\<lambda>s.
     rbind (fold_result attach_port (egress_port_names sd) (s, pi_manifolds p)) (\<lambda>x.
     rbind (fold_result attach_port (ingress_port_names sd) x) (\<lambda>(s, ms).
       Inr (p\<lparr>pi_segments := smap_put address (service_new s) (pi_segments p), pi_manifolds := ms\<rparr>)))))))"

subsection \<open>The hooks of a pipeline instance\<close>

definition pipeline_start :: "('b, 'm) pipeline_instance \<Rightarrow> ('b, 'm) pipeline_instance \<times> unit result" where
  "pipeline_start p = (p, Inr ())"

text \<open>The wait for the joinable promise; \<open>Deadlock\<close> stands for a wait that has not ended.\<close>

definition await_joinable :: "('b, 'm) pipeline_instance \<Rightarrow> ('b, 'm) pipeline_instance \<times> unit result" where
  "await_joinable p = (p, if pi_joinable p then Inr () else Inl (Deadlock ''m_joinable_future''))"

definition pipeline_stop :: "'b run_env \<Rightarrow> ('b, 'm) pipeline_instance \<Rightarrow> ('b, 'm) pipeline_instance \<times> unit result" where
  "pipeline_stop env p = (let p = mark_joinable p in run_each (stop_segment env) (map fst (pi_segments p)) p)"

definition kill_segment ::
    "'b run_env \<Rightarrow> segment_address \<Rightarrow> ('b, 'm) pipeline_instance \<Rightarrow> ('b, 'm) pipeline_instance \<times> unit result" where
  "kill_segment env address p =
     and_then (stop_segment env address p) (on_segment (service_kill (seg_hooks env)) address)"

definition pipeline_kill :: "'b run_env \<Rightarrow> ('b, 'm) pipeline_instance \<Rightarrow> ('b, 'm) pipeline_instance \<times> unit result" where
  "pipeline_kill env p = (let p = mark_joinable p in run_each (kill_segment env) (map fst (pi_segments p)) p)"

fun join_segments ::
    "'b run_env \<Rightarrow> segment_address list \<Rightarrow> srf_error option \<Rightarrow> ('b, 'm) pipeline_instance \<Rightarrow> ('b, 'm) pipeline_instance \<times> unit result" where
  "join_segments env [] first_exception p = (p, rethrow first_exception)"
| "join_segments env (a # as) first_exception p =
     (case join_segment env a p of (p, r) \<Rightarrow>
        if blocked r then (p, r) else join_segments env as (remember first_exception r) p)"

definition pipeline_await_join :: "'b run_env \<Rightarrow> ('b, 'm) pipeline_instance \<Rightarrow> ('b, 'm) pipeline_instance \<times> unit result" where
  "pipeline_await_join env p =
     and_then (await_joinable p) (\<lambda>p. join_segments env (map fst (pi_segments p)) None p)"

definition pipeline_hooks :: "'b run_env \<Rightarrow> ('b, 'm) pipeline_instance service_hooks" where
  "pipeline_hooks env =
     \<lparr>do_service_start = pipeline_start, do_service_await_live = await_joinable, do_service_stop = pipeline_stop env,
      do_service_kill = pipeline_kill env, do_service_await_join = pipeline_await_join env\<rparr>"

subsection \<open>The controller\<close>

datatype control_message = Update "(segment_address, nat) smap" | Stop | Kill

record ('b, 'm) controller =
  ct_pipeline :: "('b, 'm) pipeline_instance service"
  ct_current_segments :: "(segment_address, nat) smap"

definition controller_new ::
    "'b run_env \<Rightarrow> ('b, 'm) pipeline_instance \<Rightarrow> ('b, 'm) controller \<times> unit result" where
  "controller_new env p =
     (case service_start (pipeline_hooks env) (service_new p) of (sv, r) \<Rightarrow>
        (\<lparr>ct_pipeline = sv, ct_current_segments = []\<rparr>, r))"

definition create_requested ::
    "(segment_address, nat) smap \<Rightarrow> segment_address \<Rightarrow> ('b, 'm) pipeline_instance \<Rightarrow> ('b, 'm) pipeline_instance \<times> unit result" where
  "create_requested new_segments_map address p =
     (case smap_find new_segments_map address of
        None \<Rightarrow> (p, Inl (Out_of_range ''map::at''))
      | Some partition_id \<Rightarrow>
          (case create_segment address partition_id p of Inl e \<Rightarrow> (p, Inl e) | Inr p \<Rightarrow> (p, Inr ())))"

definition controller_update ::
    "'b run_env \<Rightarrow> (segment_address, nat) smap \<Rightarrow> ('b, 'm) controller \<Rightarrow> ('b, 'm) controller \<times> unit result" where
  "controller_update env new_segments_map c =
     (let cur_segments = extract_keys (ct_current_segments c);
          new_segments = extract_keys new_segments_map;
          create_segments = set_difference new_segments cur_segments;
          remove_segments = set_difference cur_segments new_segments
      in case and_then (run_each (create_requested new_segments_map) create_segments (svc_obj (ct_pipeline c))) (\<lambda>p.
              and_then (run_each (stop_segment env) remove_segments p) (pipeline_update env)) of
           (p, r) \<Rightarrow>
             (let c = c\<lparr>ct_pipeline := (ct_pipeline c)\<lparr>svc_obj := p\<rparr>\<rparr>
              in case r of Inl e \<Rightarrow> (c, Inl e) | Inr _ \<Rightarrow> (c\<lparr>ct_current_segments := new_segments_map\<rparr>, Inr ())))"

definition on_pipeline ::
    "(('b, 'm) pipeline_instance service \<Rightarrow> ('b, 'm) pipeline_instance service \<times> unit result)
     \<Rightarrow> ('b, 'm) controller \<Rightarrow> ('b, 'm) controller \<times> unit result" where
  "on_pipeline call c = (case call (ct_pipeline c) of (sv, r) \<Rightarrow> (c\<lparr>ct_pipeline := sv\<rparr>, r))"

definition controller_on_data ::
    "'b run_env \<Rightarrow> control_message \<Rightarrow> ('b, 'm) controller \<Rightarrow> ('b, 'm) controller \<times> unit result" where
  "controller_on_data env msg c =
     (case msg of
        Update addresses \<Rightarrow> controller_update env addresses c
      | Stop \<Rightarrow> on_pipeline (service_stop (pipeline_hooks env)) c
      | Kill \<Rightarrow> on_pipeline (service_kill (pipeline_hooks env)) c)"

definition await_on_pipeline :: "'b run_env \<Rightarrow> ('b, 'm) controller \<Rightarrow> ('b, 'm) controller \<times> unit result" where
  "await_on_pipeline env c = on_pipeline (service_await_join (pipeline_hooks env)) c"

subsection \<open>The manager\<close>

record ('b, 'm) manager =
  mg_pipeline :: "(nat, nat, builder \<Rightarrow> builder result) pipeline"
  mg_resources :: "'b resource_partitions"
  mg_update_channel :: "control_message list option"
  mg_controller :: "(('b, 'm) controller \<times> runner) option"

definition main_launch_options :: launch_options where
  "main_launch_options = \<lparr>pe_count = 1, engines_per_pe = 1, engine_factory_name = ''main''\<rparr>"

definition manager_start :: "'b run_env \<Rightarrow> ('b, 'm) manager \<Rightarrow> ('b, 'm) manager \<times> unit result" where
  "manager_start env m =
     (case controller_new env (pipeline_instance_new (mg_pipeline m) (mg_resources m)) of
        (c, Inl e) \<Rightarrow> (m, Inl e)
      | (c, Inr _) \<Rightarrow>
          (let m = m\<lparr>mg_update_channel := Some []\<rparr>; p = svc_obj (ct_pipeline c)
           in case partition_host (pi_resources p) 0 of
                Inl e \<Rightarrow> (m, Inl e)
              | Inr host \<Rightarrow>
                  (case on_launch_control host
                          (prepare_launcher (re_hwloc env) (re_fiber_barrier env) Any_runnable main_launch_options True)
                          (pi_resources p) of (la, rp) \<Rightarrow>
                     (case rbind la (\<lambda>la. rbind (apply_callback la) ignition) of
                        Inl e \<Rightarrow> (m, Inl e)
                      | Inr (runner, la) \<Rightarrow>
                          (m\<lparr>mg_controller := Some (c\<lparr>ct_pipeline := (ct_pipeline c)\<lparr>svc_obj := p\<lparr>pi_resources := rp\<rparr>\<rparr>\<rparr>, runner)\<rparr>,
                           Inr ())))))"

definition send_message :: "control_message \<Rightarrow> ('b, 'm) manager \<Rightarrow> ('b, 'm) manager \<times> unit result" where
  "send_message msg m =
     (case mg_update_channel m of
        None \<Rightarrow> (m, Inl (Undefined_behaviour ''null m_update_channel''))
      | Some ms \<Rightarrow> (m\<lparr>mg_update_channel := Some (ms @ [msg])\<rparr>, Inr ()))"

definition push_updates :: "(segment_address, nat) smap \<Rightarrow> ('b, 'm) manager \<Rightarrow> ('b, 'm) manager \<times> unit result" where
  "push_updates segment_addresses m =
     (if mg_update_channel m = None then (m, Inl (Check_failed ''m_update_channel''))
      else send_message (Update segment_addresses) m)"

definition manager_await_live :: "'b run_env \<Rightarrow> ('b, 'm) manager \<Rightarrow> ('b, 'm) manager \<times> unit result" where
  "manager_await_live env m =
     (case mg_controller m of
        None \<Rightarrow> (m, Inl (Undefined_behaviour ''null m_controller''))
      | Some (c, runner) \<Rightarrow>
          (let runner = re_settle_live env runner in (m\<lparr>mg_controller := Some (c, runner)\<rparr>, await_live runner)))"

definition manager_await_join :: "'b run_env \<Rightarrow> ('b, 'm) manager \<Rightarrow> ('b, 'm) manager \<times> unit result" where
  "manager_await_join env m =
     (case mg_controller m of
        None \<Rightarrow> (m, Inl (Undefined_behaviour ''null m_controller''))
      | Some (c, runner) \<Rightarrow>
          (case await_on_pipeline env c of (c, r) \<Rightarrow>
             (case await_join (re_settle_join env runner) of (runner, joined) \<Rightarrow>
                (m\<lparr>mg_controller := Some (c, runner), mg_update_channel := None\<rparr>,
                 case joined of Inl e \<Rightarrow> Inl e | Inr _ \<Rightarrow> r))))"

definition manager_hooks :: "'b run_env \<Rightarrow> ('b, 'm) manager service_hooks" where
  "manager_hooks env =
     \<lparr>do_service_start = manager_start env, do_service_await_live = manager_await_live env,
      do_service_stop = send_message Stop, do_service_kill = send_message Kill,
      do_service_await_join = manager_await_join env\<rparr>"

definition manager_new ::
    "'b run_env \<Rightarrow> (nat, nat, builder \<Rightarrow> builder result) pipeline \<Rightarrow> 'b resource_partitions
     \<Rightarrow> ('b, 'm) manager service \<times> unit result" where
  "manager_new env d rp =
     (let sv = service_new \<lparr>mg_pipeline = d, mg_resources = rp, mg_update_channel = None, mg_controller = None\<rparr>
      in if rp_hosts rp = [] then (sv, Inl (Check_failed ''m_resources->host_resources().size() >= 1''))
         else service_start (manager_hooks env) sv)"

definition manager_destroy :: "'b run_env \<Rightarrow> ('b, 'm) manager service \<Rightarrow> ('b, 'm) manager service \<times> unit result" where
  "manager_destroy env sv = call_in_destructor (manager_hooks env) sv"

text \<open>The controller takes the next message from the channel.\<close>

definition manager_deliver :: "'b run_env \<Rightarrow> ('b, 'm) manager \<Rightarrow> ('b, 'm) manager \<times> unit result" where
  "manager_deliver env m =
     (case (mg_update_channel m, mg_controller m) of
        (Some (msg # ms), Some (c, runner)) \<Rightarrow>
          (case controller_on_data env msg c of (c, r) \<Rightarrow>
             (m\<lparr>mg_update_channel := Some ms, mg_controller := Some (c, runner)\<rparr>, r))
      | _ \<Rightarrow> (m, Inr ()))"

subsection \<open>Invariants\<close>

definition pipe_inv :: "('b, 'm) pipeline_instance \<Rightarrow> bool" where
  "pipe_inv p \<longleftrightarrow> smap_ok (pi_segments p) \<and> smap_ok (pi_manifolds p)
     \<and> (\<forall>sv \<in> snd ` set (pi_segments p). \<forall>rp :: 'b resource_partitions. seg_inv (svc_obj sv, rp))"

definition manager_inv :: "('b, 'm) manager \<Rightarrow> bool" where
  "manager_inv m \<longleftrightarrow> (case mg_controller m of None \<Rightarrow> True | Some (c, runner) \<Rightarrow> pipe_inv (svc_obj (ct_pipeline c)))"

lemma seg_inv_resources: "seg_inv (s, rp) \<longleftrightarrow> seg_inv (s, rp')"
  by (simp add: seg_inv_def)

lemma run_each_invariant:
  assumes "\<And>x s. I s \<Longrightarrow> I (fst (f x s))"
  shows "I s \<Longrightarrow> I (fst (run_each f xs s))"
proof (induction xs arbitrary: s)
  case (Cons x xs)
  then show ?case using assms [of s x] by (auto split: prod.splits sum.splits)
qed simp

lemma and_then_invariant: "I (fst x) \<Longrightarrow> (\<And>s. I s \<Longrightarrow> I (fst (f s))) \<Longrightarrow> I (fst (and_then x f))"
  by (auto simp: and_then_def split: prod.splits sum.splits)

lemma on_segment_inv:
  assumes "\<And>sv. seg_inv (svc_obj sv) \<Longrightarrow> seg_inv (svc_obj (fst (call sv)))" and "pipe_inv p"
  shows "pipe_inv (fst (on_segment call address p))"
proof (cases "smap_find (pi_segments p) address")
  case None
  then show ?thesis using assms(2) by (simp add: on_segment_def)
next
  case (Some sv)
  let ?sv = "\<lparr>svc_state = svc_state sv, svc_obj = (svc_obj sv, pi_resources p)\<rparr>"
  have "sv \<in> snd ` set (pi_segments p)" using map_of_SomeD [OF Some] by force
  then have "seg_inv (svc_obj ?sv)" using assms(2) unfolding pipe_inv_def service.select_convs by blast
  then have "seg_inv (svc_obj (fst (call ?sv)))" by (rule assms(1))
  then have keep: "seg_inv (fst (svc_obj (fst (call ?sv))), rp)" for rp
    using seg_inv_resources by (metis prod.collapse)
  show ?thesis
    using assms(2) set_smap_put [of address "\<lparr>svc_state = svc_state (fst (call ?sv)), svc_obj = fst (svc_obj (fst (call ?sv)))\<rparr>" "pi_segments p"] keep
    by (force simp: on_segment_def Some pipe_inv_def split_beta)
qed

lemmas seg_keeps = sg.service_start_keeps sg.service_await_live_keeps sg.service_stop_keeps sg.service_kill_keeps
  sg.service_await_join_keeps

lemma stop_segment_inv: "pipe_inv p \<Longrightarrow> pipe_inv (fst (stop_segment env a p))"
  using on_segment_inv [OF sg.service_stop_keeps] by (auto simp: stop_segment_def split: sum.splits)

lemma join_segments_inv: "pipe_inv p \<Longrightarrow> pipe_inv (fst (join_segments env as first p))"
proof (induction as arbitrary: p first)
  case (Cons a as)
  have "pipe_inv (fst (join_segment env a p))"
    unfolding join_segment_def by (rule on_segment_inv [OF sg.service_await_join_keeps Cons.prems])
  then show ?case using Cons.IH by (simp add: split_beta)
qed simp

lemma mark_joinable_inv: "pipe_inv (mark_joinable p) = pipe_inv p"
  by (simp add: pipe_inv_def mark_joinable_def)

lemma kill_segment_inv: "pipe_inv p \<Longrightarrow> pipe_inv (fst (kill_segment env a p))"
  unfolding kill_segment_def
  by (rule and_then_invariant [where I = pipe_inv], erule stop_segment_inv,
      rule on_segment_inv [OF sg.service_kill_keeps])

lemma pipeline_kill_inv: "pipe_inv p \<Longrightarrow> pipe_inv (fst (pipeline_kill env p))"
  unfolding pipeline_kill_def Let_def
  by (rule run_each_invariant [where I = pipe_inv], erule kill_segment_inv) (simp add: mark_joinable_inv)

lemma pipeline_stop_inv: "pipe_inv p \<Longrightarrow> pipe_inv (fst (pipeline_stop env p))"
  unfolding pipeline_stop_def Let_def
  by (rule run_each_invariant [where I = pipe_inv], erule stop_segment_inv) (simp add: mark_joinable_inv)

lemma pipeline_join_inv: "pipe_inv p \<Longrightarrow> pipe_inv (fst (pipeline_await_join env p))"
  using join_segments_inv [of p env _ None] by (simp add: pipeline_await_join_def and_then_def await_joinable_def split_beta)

interpretation pl: service_impl "pipeline_hooks env" pipe_inv for env
  by unfold_locales
    (simp_all add: pipeline_hooks_def pipeline_start_def await_joinable_def pipeline_stop_inv pipeline_kill_inv pipeline_join_inv)

lemma pipe_inv_new: "pipe_inv (pipeline_instance_new d rp)"
  by (simp add: pipe_inv_def pipeline_instance_new_def smap_ok_def)

lemma pipe_inv_resources: "pipe_inv (p\<lparr>pi_resources := rp\<rparr>) = pipe_inv p"
  by (simp add: pipe_inv_def)

lemma controller_new_inv: "pipe_inv p \<Longrightarrow> pipe_inv (svc_obj (ct_pipeline (fst (controller_new env p))))"
  using pl.service_start_keeps [of "service_new p" env] by (simp add: controller_new_def service_new_def split_beta)

lemma manager_start_inv:
  fixes m :: "('b, 'm) manager"
  shows "manager_inv m \<Longrightarrow> manager_inv (fst (manager_start env m))"
proof -
  assume m: "manager_inv m"
  have "pipe_inv (svc_obj (ct_pipeline (fst (controller_new env
      (pipeline_instance_new (mg_pipeline m) (mg_resources m) :: ('b, 'm) pipeline_instance)))))"
    by (rule controller_new_inv [OF pipe_inv_new])
  then show ?thesis
    using m by (auto simp: manager_start_def manager_inv_def Let_def pipe_inv_resources split: sum.splits prod.splits)
qed

lemma manager_join_inv: "manager_inv m \<Longrightarrow> manager_inv (fst (manager_await_join env m))"
  using pl.service_await_join_keeps
  by (auto simp: manager_await_join_def await_on_pipeline_def on_pipeline_def manager_inv_def split_beta split: option.splits)

lemma send_message_inv: "manager_inv m \<Longrightarrow> manager_inv (fst (send_message msg m))"
  by (auto simp: send_message_def manager_inv_def split: option.splits)

lemma manager_live_inv: "manager_inv m \<Longrightarrow> manager_inv (fst (manager_await_live env m))"
  by (auto simp: manager_await_live_def manager_inv_def Let_def split: option.splits)

interpretation mg: service_impl "manager_hooks env" manager_inv for env
  by unfold_locales
    (simp_all add: manager_hooks_def manager_start_inv manager_live_inv send_message_inv manager_join_inv)

subsection \<open>Updates\<close>

definition seg_state :: "('b, 'm) pipeline_instance \<Rightarrow> segment_address \<Rightarrow> service_state option" where
  "seg_state p a = map_option svc_state (smap_find (pi_segments p) a)"

text \<open>What the controller knows of the pipeline between two updates: the segments it has requested are
  those of the instance, and they run.\<close>

definition ctrl_ok :: "('b, 'm) controller \<Rightarrow> bool" where
  "ctrl_ok c \<longleftrightarrow> smap_ok (ct_current_segments c)
     \<and> (\<forall>a. seg_state (svc_obj (ct_pipeline c)) a = (if a \<in> set (map fst (ct_current_segments c)) then Some Svc_Running else None))"

lemma seg_state_on_segment:
  assumes "\<And>s. svc_state (fst (call s)) = f (svc_state s)"
  shows "seg_state (fst (on_segment call a p)) x = (if x = a then map_option f (seg_state p a) else seg_state p x)"
  using assms by (auto simp: on_segment_def seg_state_def split_beta split: option.splits)

lemma run_eachD:
  assumes "run_each f xs s = (s', Inr ())" and "P [] s"
    and step: "\<And>x xs s s'. P xs s \<Longrightarrow> f x s = (s', Inr ()) \<Longrightarrow> P (xs @ [x]) s'"
  shows "P xs s'"
proof -
  have "P (ys @ xs) s'" if "P ys s" "run_each f xs s = (s', Inr ())" for ys xs s
    using that
  proof (induction xs arbitrary: ys s)
    case (Cons x xs)
    obtain s1 where "f x s = (s1, Inr ())" "run_each f xs s1 = (s', Inr ())"
      using Cons.prems(2) by (auto split: prod.splits sum.splits)
    then show ?case using Cons.IH [of "ys @ [x]" s1] step [OF Cons.prems(1)] by simp
  qed simp
  from this [OF assms(2,1)] show ?thesis by simp
qed

lemma and_thenD: "and_then x f = (s', Inr ()) \<Longrightarrow> \<exists>s. x = (s, Inr ()) \<and> f s = (s', Inr ())"
  by (cases x; cases "snd x") (auto simp: and_then_def)

lemma create_requested_state:
  assumes "create_requested m a p = (p', Inr ())"
  shows "seg_state p' = (seg_state p)(a \<mapsto> Svc_Initialized) \<and> seg_state p a = None"
  using assms
  by (auto simp: create_requested_def create_segment_def seg_state_def fun_eq_iff rbind_eq_Inr rcheck_def service_new_def
      split: option.splits sum.splits prod.splits if_splits)

lemma stop_segment_state:
  assumes "stop_segment env a p = (p', Inr ())"
  shows "\<exists>st. seg_state p a = Some st \<and> seg_state p' = (seg_state p)(a \<mapsto> max Svc_Stopping st)"
proof -
  have p': "p' = fst (on_segment (service_stop (seg_hooks env)) a p)" and "seg_state p a \<noteq> None"
    using assms by (auto simp: stop_segment_def seg_state_def split: if_splits sum.splits)
  then show ?thesis
    using seg_state_on_segment [of "service_stop (seg_hooks env)" "max Svc_Stopping" a p, OF service_stop_state]
    by (auto simp: fun_eq_iff)
qed

lemma start_segment_state:
  assumes "start_segment env a p = (p', Inr ())"
  shows "(seg_state p a = Some Svc_Initialized \<or> seg_state p a = Some Svc_Running) \<and> seg_state p' = (seg_state p)(a \<mapsto> Svc_Running)"
proof -
  obtain p1 where p1: "on_segment (service_start (seg_hooks env)) a p = (p1, Inr ())"
    and p': "on_segment (service_await_live (seg_hooks env)) a p1 = (p', Inr ())"
    using and_thenD [OF assms [unfolded start_segment_def]] by blast
  obtain sv where sv: "smap_find (pi_segments p) a = Some sv"
    using p1 by (auto simp: on_segment_def split: option.splits)
  let ?sv = "\<lparr>svc_state = svc_state sv, svc_obj = (svc_obj sv, pi_resources p)\<rparr>"
  have le: "svc_state ?sv \<le> Svc_Running"
    using p1 service_start_again [of ?sv "seg_hooks env"] by (force simp: on_segment_def sv not_le split_beta)
  have "seg_state p1 = (seg_state p)(a \<mapsto> Svc_Running)"
    using p1 service_start_state [OF le, of "seg_hooks env"]
    by (auto simp: on_segment_def sv seg_state_def fun_eq_iff split_beta)
  moreover have "seg_state p' = seg_state p1"
    using seg_state_on_segment [of "service_await_live (seg_hooks env)" "\<lambda>st. st" a p1] p'
    by (simp add: service_await_live_def fun_eq_iff option.map_ident)
  ultimately show ?thesis using le by (cases "svc_state sv") (auto simp: seg_state_def sv svc_order)
qed

lemma update_manifold_segments: "pi_segments (fst (update_manifold env name p)) = pi_segments p"
  by (auto simp: update_manifold_def split: option.splits sum.splits prod.splits)

lemma create_all_state:
  assumes "run_each (create_requested m) as p = (p', Inr ())"
  shows "seg_state p' x = (if x \<in> set as then Some Svc_Initialized else seg_state p x)"
  by (rule run_eachD [OF assms, where P = "\<lambda>xs q. seg_state q x = (if x \<in> set xs then Some Svc_Initialized else seg_state p x)"])
    (auto dest!: create_requested_state)

lemma stop_all_state:
  assumes "run_each (stop_segment env) as p = (p', Inr ())"
  shows "if x \<in> set as then \<exists>st \<ge> Svc_Stopping. seg_state p' x = Some st else seg_state p' x = seg_state p x"
  by (rule run_eachD [OF assms, where P = "\<lambda>xs q. if x \<in> set xs then \<exists>st \<ge> Svc_Stopping. seg_state q x = Some st
        else seg_state q x = seg_state p x"])
    (auto dest!: stop_segment_state split: if_splits)

lemma start_all_state:
  assumes "run_each (start_segment env) as p = (p', Inr ())"
  shows "if x \<in> set as then seg_state p x \<in> {Some Svc_Initialized, Some Svc_Running} \<and> seg_state p' x = Some Svc_Running
     else seg_state p' x = seg_state p x"
  by (rule run_eachD [OF assms, where P = "\<lambda>xs q. if x \<in> set xs
        then seg_state p x \<in> {Some Svc_Initialized, Some Svc_Running} \<and> seg_state q x = Some Svc_Running
        else seg_state q x = seg_state p x"])
    (auto dest!: start_segment_state split: if_splits)

lemma seg_state_None: "seg_state p x = None \<longleftrightarrow> x \<notin> set (map fst (pi_segments p))"
  by (force simp: seg_state_def map_of_eq_None_iff)

lemma pipeline_update_state:
  assumes "pipeline_update env p = (p', Inr ())"
  shows "(seg_state p x = None \<and> seg_state p' x = None)
     \<or> (seg_state p x \<in> {Some Svc_Initialized, Some Svc_Running} \<and> seg_state p' x = Some Svc_Running)"
proof -
  obtain p1 p2 where p1: "run_each (update_manifold env) (map fst (pi_manifolds p)) p = (p1, Inr ())"
    and p2: "run_each (start_segment env) (map fst (pi_segments p1)) p1 = (p2, Inr ())" and p': "p' = mark_joinable p2"
    using assms by (auto simp: pipeline_update_def dest!: and_thenD)
  have "pi_segments p1 = pi_segments p"
    using run_each_invariant [of "\<lambda>q. pi_segments q = pi_segments p" "update_manifold env" p "map fst (pi_manifolds p)"] p1
    by (simp add: update_manifold_segments)
  then have same: "seg_state p1 = seg_state p" by (simp add: seg_state_def fun_eq_iff)
  have "seg_state p' x = seg_state p2 x" by (simp add: p' mark_joinable_def seg_state_def)
  then show ?thesis
    using start_all_state [OF p2, of x] seg_state_None [of p1 x] by (auto simp: same split: if_splits)
qed

lemma controller_update_states:
  assumes "controller_update env new_segments c = (c', Inr ())" and "ctrl_ok c" and "smap_ok new_segments"
  shows "ct_current_segments c' = new_segments
     \<and> (\<forall>x. seg_state (svc_obj (ct_pipeline c')) x = (if x \<in> set (map fst new_segments) then Some Svc_Running else None))
     \<and> (\<forall>x \<in> set (map fst (ct_current_segments c)). x \<in> set (map fst new_segments))"
proof -
  let ?cur = "map fst (ct_current_segments c)" and ?new = "map fst new_segments" and ?p = "svc_obj (ct_pipeline c)"
  obtain p1 p2 p3 where p1: "run_each (create_requested new_segments) (set_difference ?new ?cur) ?p = (p1, Inr ())"
    and p2: "run_each (stop_segment env) (set_difference ?cur ?new) p1 = (p2, Inr ())"
    and p3: "pipeline_update env p2 = (p3, Inr ())"
    and c': "svc_obj (ct_pipeline c') = p3" "ct_current_segments c' = new_segments"
    using assms(1) by (auto simp: controller_update_def extract_keys_def Let_def split: prod.splits sum.splits dest!: and_thenD)
  have sorted: "sorted_wrt (<) ?cur" "sorted_wrt (<) ?new" using assms(2,3) by (auto simp: ctrl_ok_def smap_ok_def)
  have st: "seg_state ?p x = (if x \<in> set ?cur then Some Svc_Running else None)" for x
    using assms(2) by (simp add: ctrl_ok_def)
  have "x \<in> set ?cur \<longrightarrow> x \<in> set ?new" "seg_state p3 x = (if x \<in> set ?new then Some Svc_Running else None)" for x
    using create_all_state [OF p1, of x] stop_all_state [OF p2, of x] pipeline_update_state [OF p3, of x] st [of x]
    by (auto simp: set_difference_eq sorted svc_order split: if_splits)
  then show ?thesis by (simp add: c')
qed

lemma ctrl_ok_new:
  "ctrl_ok (fst (controller_new env (pipeline_instance_new d rp)))"
  by (simp add: ctrl_ok_def controller_new_def service_new_def service_start_def forward_state_def
      svc_order pipeline_hooks_def pipeline_start_def run_hook_def pipeline_instance_new_def seg_state_def)

text \<open>C5. A controller update that returns has made the running segments those that were asked for, and has
  recorded them as the current ones; it can only return when no current segment was dropped from the
  request. A request that drops a segment stops it and then starts it again, which the service refuses.\<close>

theorem controller_update_correct:
  assumes "controller_update env new_segments c = (c', Inr ())" and "ctrl_ok c" and "smap_ok new_segments"
  shows "ctrl_ok c' \<and> ct_current_segments c' = new_segments
     \<and> set (map fst (ct_current_segments c)) \<subseteq> set (map fst new_segments)"
  using controller_update_states [OF assms] assms(3) by (auto simp: ctrl_ok_def)

definition sample_settle :: "runner \<Rightarrow> runner" where
  "sample_settle r = r\<lparr>instances := map (\<lambda>i. i\<lparr>live_set := True, join_value := Some (Inr ())\<rparr>) (instances r)\<rparr>"

definition sample_env :: "nat list run_env" where
  "sample_env = \<lparr>re_hwloc = list_hwloc, re_fiber_barrier = (\<lambda>n. if n = 0 then Inl (Invalid_argument ''barrier'') else Inr ()),
     re_settle_live = sample_settle, re_settle_join = sample_settle, re_shuffle = rev\<rparr>"

definition sample_definition :: "(nat, nat, builder \<Rightarrow> builder result) pipeline" where
  "sample_definition = new_pipeline\<lparr>p_segments := [(1, \<lparr>sd_name = ''seg'', sd_id = 1,
     sd_backend_initializer = make_object ''src'' \<lparr>nd_kind = Any_runnable, nd_launch_options = sample_lo, nd_node = True\<rparr>,
     sd_egress_initializers = [], sd_ingress_initializers = []\<rparr>)]\<rparr>"

definition sample_controller :: "(nat list, nat) controller" where
  "sample_controller = fst (controller_new sample_env (pipeline_instance_new sample_definition sample_resources))"

theorem controller_update_correct_witness:
  "\<exists>c'. controller_update sample_env [(65536, 0)] sample_controller = (c', Inr ()) \<and> ctrl_ok c'
     \<and> ct_current_segments c' = [(65536, 0)]"
proof -
  obtain c' r where c': "controller_update sample_env [(65536, 0)] sample_controller = (c', r)" by force
  have "snd (controller_update sample_env [(65536, 0)] sample_controller) = Inr ()" by code_simp
  then have r: "controller_update sample_env [(65536, 0)] sample_controller = (c', Inr ())" by (simp add: c')
  have ok: "ctrl_ok sample_controller" by (simp add: sample_controller_def ctrl_ok_new)
  show ?thesis using controller_update_correct [OF r ok] r by simp
qed

subsection \<open>Killing a pipeline\<close>

definition all_killed :: "segment \<Rightarrow> bool" where
  "all_killed s \<longleftrightarrow> (\<forall>p \<in> set (sg_runners s) \<union> set (sg_egress_runners s) \<union> set (sg_ingress_runners s). Rb_Kill \<le> runnable (snd p))"

definition killed :: "segment service \<Rightarrow> segment service \<Rightarrow> bool" where
  "killed sv sv' \<longleftrightarrow> svc_state sv' = max Svc_Killing (svc_state sv) \<and> (svc_state sv < Svc_Killing \<longrightarrow> all_killed (svc_obj sv'))"

lemma on_segment_Some:
  assumes "smap_find (pi_segments p) a = Some sv"
    and "call \<lparr>svc_state = svc_state sv, svc_obj = (svc_obj sv, pi_resources p)\<rparr> = (\<lparr>svc_state = st, svc_obj = (s, rp)\<rparr>, r)"
  shows "\<exists>p'. on_segment call a p = (p', r) \<and> smap_find (pi_segments p') = (smap_find (pi_segments p))(a \<mapsto> \<lparr>svc_state = st, svc_obj = s\<rparr>)
     \<and> pi_definition p' = pi_definition p \<and> pi_joinable p' = pi_joinable p"
  using assms by (simp add: on_segment_def)

lemma segment_stop_service:
  "\<exists>s'. service_stop (seg_hooks env) \<lparr>svc_state = st, svc_obj = (s, rp)\<rparr>
     = (\<lparr>svc_state = max Svc_Stopping st, svc_obj = (s', rp)\<rparr>, Inr ())"
  by (auto simp: service_defs Let_def segment_hooks_def segment_stop_def max_def)

lemma segment_kill_service:
  "\<exists>s'. service_kill (seg_hooks env) \<lparr>svc_state = st, svc_obj = (s, rp)\<rparr>
     = (\<lparr>svc_state = max Svc_Killing st, svc_obj = (s', rp)\<rparr>, Inr ()) \<and> (st < Svc_Killing \<longrightarrow> all_killed s')"
  by (auto simp: service_defs Let_def segment_hooks_def segment_kill_def max_def all_killed_def smap_apply_def
      runner_kill_def runnable_update_state_max)

lemma kill_segment_effect:
  assumes "smap_find (pi_segments p) a = Some sv"
    and "find_segment (pi_definition p) (fst (segment_address_decode a)) = Inr sd"
  shows "\<exists>p' sv'. kill_segment env a p = (p', Inr ()) \<and> smap_find (pi_segments p') = (smap_find (pi_segments p))(a \<mapsto> sv')
     \<and> killed sv sv' \<and> pi_definition p' = pi_definition p \<and> pi_joinable p' = pi_joinable p"
proof -
  obtain s1 where s1: "service_stop (seg_hooks env) \<lparr>svc_state = svc_state sv, svc_obj = (svc_obj sv, pi_resources p)\<rparr>
      = (\<lparr>svc_state = max Svc_Stopping (svc_state sv), svc_obj = (s1, pi_resources p)\<rparr>, Inr ())"
    using segment_stop_service by blast
  obtain p1 where p1: "on_segment (service_stop (seg_hooks env)) a p = (p1, Inr ())"
    "smap_find (pi_segments p1) = (smap_find (pi_segments p))(a \<mapsto> \<lparr>svc_state = max Svc_Stopping (svc_state sv), svc_obj = s1\<rparr>)"
    "pi_definition p1 = pi_definition p" "pi_joinable p1 = pi_joinable p"
    using on_segment_Some [where call = "service_stop (seg_hooks env)", OF assms(1) s1] by blast
  let ?sv = "\<lparr>svc_state = max Svc_Stopping (svc_state sv), svc_obj = s1\<rparr>"
  have a1: "smap_find (pi_segments p1) a = Some ?sv" by (simp add: p1(2))
  obtain s2 where s2: "service_kill (seg_hooks env) \<lparr>svc_state = svc_state ?sv, svc_obj = (svc_obj ?sv, pi_resources p1)\<rparr>
      = (\<lparr>svc_state = max Svc_Killing (svc_state ?sv), svc_obj = (s2, pi_resources p1)\<rparr>, Inr ())"
    "svc_state ?sv < Svc_Killing \<longrightarrow> all_killed s2"
    using segment_kill_service by blast
  have "killed sv \<lparr>svc_state = max Svc_Killing (svc_state ?sv), svc_obj = s2\<rparr>"
    using s2(2) by (cases "svc_state sv") (auto simp: killed_def svc_order max_def)
  then show ?thesis
    using on_segment_Some [where call = "service_kill (seg_hooks env)", OF a1 s2(1)] p1 assms by (auto simp: kill_segment_def stop_segment_def and_then_def)
qed

lemma kill_all_effect:
  assumes "distinct as" and "\<forall>a \<in> set as. smap_find (pi_segments p) a \<noteq> None"
    and "\<forall>a \<in> set as. is_ok (find_segment (pi_definition p) (fst (segment_address_decode a)))"
  shows "\<exists>p'. run_each (kill_segment env) as p = (p', Inr ()) \<and> pi_joinable p' = pi_joinable p
     \<and> (\<forall>a. if a \<in> set as then killed (the (smap_find (pi_segments p) a)) (the (smap_find (pi_segments p') a))
              \<and> smap_find (pi_segments p') a \<noteq> None
            else smap_find (pi_segments p') a = smap_find (pi_segments p) a)"
  using assms
proof (induction as arbitrary: p)
  case (Cons a as)
  obtain sv sd where sv: "smap_find (pi_segments p) a = Some sv"
    and sd: "find_segment (pi_definition p) (fst (segment_address_decode a)) = Inr sd"
    using Cons.prems by (auto simp: is_ok_def split: sum.splits)
  obtain p1 sv' where p1: "kill_segment env a p = (p1, Inr ())"
    "smap_find (pi_segments p1) = (smap_find (pi_segments p))(a \<mapsto> sv')" "killed sv sv'"
    "pi_definition p1 = pi_definition p" "pi_joinable p1 = pi_joinable p"
    using kill_segment_effect [OF sv sd] by blast
  have as: "distinct as" "\<forall>x \<in> set as. smap_find (pi_segments p1) x \<noteq> None"
    "\<forall>x \<in> set as. is_ok (find_segment (pi_definition p1) (fst (segment_address_decode x)))" "a \<notin> set as"
    using Cons.prems by (auto simp: p1)
  obtain p' where p': "run_each (kill_segment env) as p1 = (p', Inr ())" "pi_joinable p' = pi_joinable p1"
    "\<forall>x. if x \<in> set as then killed (the (smap_find (pi_segments p1) x)) (the (smap_find (pi_segments p') x))
          \<and> smap_find (pi_segments p') x \<noteq> None
        else smap_find (pi_segments p') x = smap_find (pi_segments p1) x"
    using Cons.IH [OF as(1-3)] by blast
  have "if x \<in> set (a # as) then killed (the (smap_find (pi_segments p) x)) (the (smap_find (pi_segments p') x))
          \<and> smap_find (pi_segments p') x \<noteq> None
        else smap_find (pi_segments p') x = smap_find (pi_segments p) x" for x
    using p'(3) [rule_format, of x] as(4) sv p1(3) by (auto simp: p1(2) split: if_splits)
  then show ?case using p' p1 by simp
qed simp

text \<open>C15. Killing a pipeline: the call returns, the pipeline can be joined, and every one of its segments, in whatever
  state it was, is at least killing afterwards. A segment that was not yet killing has told each of its runners to kill;
  one that was already killing or has completed keeps its state and tells them nothing.\<close>

theorem pipeline_kill_reaches_all:
  assumes "smap_ok (pi_segments p)"
    and "\<forall>a \<in> set (map fst (pi_segments p)). is_ok (find_segment (pi_definition p) (fst (segment_address_decode a)))"
  shows "\<exists>p'. pipeline_kill env p = (p', Inr ()) \<and> pi_joinable p'
     \<and> (\<forall>a sv. smap_find (pi_segments p) a = Some sv \<longrightarrow>
          (\<exists>sv'. smap_find (pi_segments p') a = Some sv' \<and> svc_state sv' = max Svc_Killing (svc_state sv)
             \<and> (svc_state sv < Svc_Killing \<longrightarrow> all_killed (svc_obj sv'))))"
proof -
  let ?p = "mark_joinable p"
  have same: "pi_segments ?p = pi_segments p" "pi_definition ?p = pi_definition p" "pi_joinable ?p"
    by (simp_all add: mark_joinable_def)
  have some: "\<forall>a \<in> set (map fst (pi_segments ?p)). smap_find (pi_segments ?p) a \<noteq> None"
    by (simp add: same map_of_eq_None_iff)
  have ids: "\<forall>a \<in> set (map fst (pi_segments ?p)). is_ok (find_segment (pi_definition ?p) (fst (segment_address_decode a)))"
    using assms(2) by (simp only: same)
  obtain p' where p': "run_each (kill_segment env) (map fst (pi_segments p)) ?p = (p', Inr ())" "pi_joinable p'"
    "\<forall>a. if a \<in> set (map fst (pi_segments p)) then killed (the (smap_find (pi_segments p) a)) (the (smap_find (pi_segments p') a))
          \<and> smap_find (pi_segments p') a \<noteq> None
        else smap_find (pi_segments p') a = smap_find (pi_segments p) a"
    using kill_all_effect [OF _ some ids, of env] smap_ok_distinct [OF assms(1)] by (simp only: same) blast
  have "\<exists>sv'. smap_find (pi_segments p') a = Some sv' \<and> killed sv sv'" if "smap_find (pi_segments p) a = Some sv" for a sv
    using p'(3) [rule_format, of a] map_of_SomeD [OF that] that by (force split: if_splits)
  then show ?thesis using p'(1,2) by (simp add: pipeline_kill_def Let_def same killed_def)
qed

definition sample_pipeline :: "(nat list, nat) pipeline_instance" where
  "sample_pipeline = \<lparr>pi_definition = sample_definition, pi_resources = sample_resources,
     pi_segments = [(65536, \<lparr>svc_state = Svc_Running, svc_obj = sample_segment\<lparr>sg_runners := [(''src'', runner_new)]\<rparr>\<rparr>)],
     pi_manifolds = [], pi_joinable = False\<rparr>"

theorem pipeline_kill_reaches_all_witness:
  "\<exists>p' sv'. pipeline_kill sample_env sample_pipeline = (p', Inr ()) \<and> smap_find (pi_segments p') 65536 = Some sv'
     \<and> svc_state sv' = Svc_Killing \<and> all_killed (svc_obj sv')"
proof -
  have ids: "\<forall>a \<in> set (map fst (pi_segments sample_pipeline)).
      is_ok (find_segment (pi_definition sample_pipeline) (fst (segment_address_decode a)))"
    by code_simp
  have ok: "smap_ok (pi_segments sample_pipeline)" by (simp add: sample_pipeline_def)
  have "smap_find (pi_segments sample_pipeline) 65536
      = Some \<lparr>svc_state = Svc_Running, svc_obj = sample_segment\<lparr>sg_runners := [(''src'', runner_new)]\<rparr>\<rparr>"
    by (simp add: sample_pipeline_def)
  with pipeline_kill_reaches_all [OF ok ids, of sample_env] show ?thesis by (fastforce simp: max_def svc_order)
qed

text \<open>\<open>set_compare\<close>, which walks the two sorted sets in step, computes the plain definition.\<close>

lemma set_compare_equivalent:
  assumes "sorted_wrt (<) cur_set" and "sorted_wrt (<) new_set"
  shows "set_compare cur_set new_set = (filter (\<lambda>x. x \<notin> set cur_set) new_set, filter (\<lambda>x. x \<notin> set new_set) cur_set)"
  using assms by (simp add: set_compare_def set_difference_eq)

end
