(* ===== verification/Executor.thy ===== *)
theory Executor
  imports Pipelines
begin

section \<open>The executor\<close>

text \<open>
  \<^verbatim>\<open>src/internal/executor/executor.cpp\<close> and \<^verbatim>\<open>iexecutor.cpp\<close>: the service a user starts, stops and joins. It owns the
  manager of one pipeline, to which its hooks are passed on.
\<close>

record ('b, 'm) executor =
  ex_resources :: "'b resource_partitions"
  ex_pipeline_manager :: "('b, 'm) manager service option"

definition executor_new :: "'b resource_partitions \<Rightarrow> ('b, 'm) executor" where
  "executor_new rp = \<lparr>ex_resources = rp, ex_pipeline_manager = None\<rparr>"

definition initial_segments :: "(nat, nat, builder \<Rightarrow> builder result) pipeline \<Rightarrow> (segment_address, nat) smap" where
  "initial_segments d = fold (\<lambda>(id', segment) m. smap_put (segment_address_encode id' 0) 0 m) (p_segments d) []"

definition register_pipeline ::
    "'b run_env \<Rightarrow> (nat, nat, builder \<Rightarrow> builder result) pipeline option \<Rightarrow> ('b, 'm) executor \<Rightarrow> ('b, 'm) executor \<times> unit result" where
  "register_pipeline env ipipeline ex =
     (case ipipeline of
        None \<Rightarrow> (ex, Inl (Check_failed ''ipipeline''))
      | Some d \<Rightarrow>
          (case ex_pipeline_manager ex of
             Some _ \<Rightarrow> (ex, Inl (Check_failed ''m_pipeline_manager == nullptr''))
           | None \<Rightarrow>
               (case manager_new env d (ex_resources ex) of
                  (sv, Inl e) \<Rightarrow> (ex, Inl e)
                | (sv, Inr _) \<Rightarrow>
                    (case push_updates (initial_segments d) (svc_obj sv) of (m, r) \<Rightarrow>
                       (ex\<lparr>ex_pipeline_manager := Some (sv\<lparr>svc_obj := m\<rparr>)\<rparr>, r)))))"

definition on_manager ::
    "(('b, 'm) manager service \<Rightarrow> ('b, 'm) manager service \<times> unit result) \<Rightarrow> ('b, 'm) executor \<Rightarrow> ('b, 'm) executor \<times> unit result" where
  "on_manager call ex =
     (case ex_pipeline_manager ex of
        None \<Rightarrow> (ex, Inl (Check_failed ''m_pipeline_manager''))
      | Some sv \<Rightarrow> (case call sv of (sv, r) \<Rightarrow> (ex\<lparr>ex_pipeline_manager := Some sv\<rparr>, r)))"

definition executor_hooks :: "'b run_env \<Rightarrow> ('b, 'm) executor service_hooks" where
  "executor_hooks env =
     \<lparr>do_service_start = on_manager (service_start (manager_hooks env)),
      do_service_await_live = on_manager (service_await_live (manager_hooks env)),
      do_service_stop = on_manager (service_stop (manager_hooks env)),
      do_service_kill = on_manager (service_kill (manager_hooks env)),
      do_service_await_join = on_manager (service_await_join (manager_hooks env))\<rparr>"

definition executor_start :: "'b run_env \<Rightarrow> ('b, 'm) executor service \<Rightarrow> ('b, 'm) executor service \<times> unit result" where
  "executor_start env sv = service_start (executor_hooks env) sv"

definition executor_stop :: "'b run_env \<Rightarrow> ('b, 'm) executor service \<Rightarrow> ('b, 'm) executor service \<times> unit result" where
  "executor_stop env sv = service_stop (executor_hooks env) sv"

definition executor_join :: "'b run_env \<Rightarrow> ('b, 'm) executor service \<Rightarrow> ('b, 'm) executor service \<times> unit result" where
  "executor_join env sv = service_await_join (executor_hooks env) sv"

definition executor_register ::
    "'b run_env \<Rightarrow> (nat, nat, builder \<Rightarrow> builder result) pipeline option \<Rightarrow> ('b, 'm) executor service \<Rightarrow> ('b, 'm) executor service \<times> unit result" where
  "executor_register env d sv = run_hook (register_pipeline env d) sv"

definition executor_destroy :: "'b run_env \<Rightarrow> ('b, 'm) executor service \<Rightarrow> ('b, 'm) executor service \<times> unit result" where
  "executor_destroy env sv = call_in_destructor (executor_hooks env) sv"

definition executor_inv :: "('b, 'm) executor \<Rightarrow> bool" where
  "executor_inv ex \<longleftrightarrow> (case ex_pipeline_manager ex of None \<Rightarrow> True | Some sv \<Rightarrow> manager_inv (svc_obj sv))"

lemma on_manager_inv:
  assumes "\<And>sv. manager_inv (svc_obj sv) \<Longrightarrow> manager_inv (svc_obj (fst (call sv)))" and "executor_inv ex"
  shows "executor_inv (fst (on_manager call ex))"
  using assms(2) assms(1) [of "the (ex_pipeline_manager ex)"]
  by (cases "ex_pipeline_manager ex") (simp_all add: on_manager_def executor_inv_def split_beta)

interpretation xc: service_impl "executor_hooks env" executor_inv for env
  by unfold_locales
    (simp_all add: executor_hooks_def on_manager_inv mg.service_start_keeps mg.service_await_live_keeps
      mg.service_stop_keeps mg.service_kill_keeps mg.service_await_join_keeps)

lemma initial_fold_ok:
  "smap_ok m \<Longrightarrow> smap_ok (fold (\<lambda>(i, s) m. smap_put (segment_address_encode i 0) (0 :: nat) m) xs m)
     \<and> fst ` set (fold (\<lambda>(i, s) m. smap_put (segment_address_encode i 0) 0 m) xs m)
         = fst ` set m \<union> (\<lambda>i. segment_address_encode i 0) ` fst ` set xs"
proof (induction xs arbitrary: m)
  case (Cons x xs)
  have "fst ` set (smap_put (segment_address_encode (fst x) 0) 0 m) = insert (segment_address_encode (fst x) 0) (fst ` set m)"
    by (simp add: keys_smap_put)
  then show ?case using Cons.IH [of "smap_put (segment_address_encode (fst x) 0) 0 m"] Cons.prems
    by (simp add: split_beta)
qed simp

lemma initial_segments_ok:
  "smap_ok (initial_segments d)
   \<and> set (map fst (initial_segments d)) = (\<lambda>i. segment_address_encode i 0) ` fst ` set (p_segments d)"
  using initial_fold_ok [of "[]" "p_segments d"] by (simp add: initial_segments_def)

lemma ctrl_ok_cong:
  assumes "ct_current_segments c' = ct_current_segments c"
    and "pi_segments (svc_obj (ct_pipeline c')) = pi_segments (svc_obj (ct_pipeline c))"
  shows "ctrl_ok c' = ctrl_ok c"
  using assms by (simp add: ctrl_ok_def seg_state_def)

lemma manager_start_result:
  fixes m m' :: "('b, 'm) manager"
  assumes "manager_start env m = (m', Inr ())"
  shows "\<exists>c runner. mg_update_channel m' = Some [] \<and> mg_controller m' = Some (c, runner) \<and> ctrl_ok c"
proof -
  define c :: "('b, 'm) controller" where "c = fst (controller_new env (pipeline_instance_new (mg_pipeline m) (mg_resources m)))"
  obtain rp runner where "mg_update_channel m' = Some []" and
    "mg_controller m' = Some (c\<lparr>ct_pipeline := (ct_pipeline c)\<lparr>svc_obj := (svc_obj (ct_pipeline c))\<lparr>pi_resources := rp\<rparr>\<rparr>\<rparr>, runner)"
    using assms by (auto simp: manager_start_def c_def Let_def split: prod.splits sum.splits)
  moreover have "ctrl_ok (c\<lparr>ct_pipeline := (ct_pipeline c)\<lparr>svc_obj := (svc_obj (ct_pipeline c))\<lparr>pi_resources := rp\<rparr>\<rparr>\<rparr>)"
    by (subst ctrl_ok_cong [where c = c]) (simp_all add: ctrl_ok_new c_def)
  ultimately show ?thesis by blast
qed

lemma register_pipeline_result:
  assumes "register_pipeline env ipipeline ex = (ex', Inr ())"
  shows "\<exists>d sv c runner. ipipeline = Some d \<and> ex_pipeline_manager ex = None \<and> ex_pipeline_manager ex' = Some sv
     \<and> svc_state sv = Svc_Running \<and> mg_update_channel (svc_obj sv) = Some [Update (initial_segments d)]
     \<and> mg_controller (svc_obj sv) = Some (c, runner) \<and> ctrl_ok c"
proof -
  obtain d where d: "ipipeline = Some d" and none: "ex_pipeline_manager ex = None"
    using assms by (auto simp: register_pipeline_def split: option.splits)
  obtain sv where sv: "manager_new env d (ex_resources ex) = (sv, Inr ())"
    and ex': "ex' = ex\<lparr>ex_pipeline_manager := Some (sv\<lparr>svc_obj := fst (push_updates (initial_segments d) (svc_obj sv))\<rparr>)\<rparr>"
    using assms by (auto simp: register_pipeline_def d none split: prod.splits sum.splits)
  obtain m0 where "manager_start env m0 = (svc_obj sv, Inr ())" and run: "svc_state sv = Svc_Running"
    using sv by (auto simp: manager_new_def service_start_def forward_state_def service_new_def run_hook_def manager_hooks_def
        svc_order Let_def split: prod.splits if_splits)
  from manager_start_result [OF this(1)] show ?thesis
    using d none run by (auto simp: ex' push_updates_def send_message_def)
qed

text \<open>C6. Registering a pipeline with an executor: the manager is running at once, before the executor is started, and
  when its controller has taken the first update, the segments that run are exactly those of the pipeline with
  rank 0. Starting the executor then changes nothing in the manager, and a second pipeline is refused.\<close>

theorem executor_runs_pipeline:
  assumes "register_pipeline env (Some d) ex = (ex', Inr ())"
  shows "\<exists>sv. ex_pipeline_manager ex' = Some sv \<and> svc_state sv = Svc_Running
     \<and> (\<forall>m. manager_deliver env (svc_obj sv) = (m, Inr ()) \<longrightarrow>
          (\<exists>c runner. mg_controller m = Some (c, runner)
             \<and> (\<forall>a. seg_state (svc_obj (ct_pipeline c)) a
                  = (if a \<in> (\<lambda>i. segment_address_encode i 0) ` fst ` set (p_segments d) then Some Svc_Running else None))))
     \<and> executor_start env (service_new ex') = (\<lparr>svc_state = Svc_Running, svc_obj = ex'\<rparr>, Inr ())
     \<and> register_pipeline env (Some d2) ex' = (ex', Inl (Check_failed ''m_pipeline_manager == nullptr''))"
proof -
  obtain sv c runner where sv: "ex_pipeline_manager ex' = Some sv" "svc_state sv = Svc_Running"
    "mg_update_channel (svc_obj sv) = Some [Update (initial_segments d)]"
    "mg_controller (svc_obj sv) = Some (c, runner)" and ok: "ctrl_ok c"
    using register_pipeline_result [OF assms] by auto
  have start: "executor_start env (service_new ex') = (\<lparr>svc_state = Svc_Running, svc_obj = ex'\<rparr>, Inr ())"
    using sv(1,2) by (simp add: executor_start_def executor_hooks_def on_manager_def service_defs service_new_def svc_order)
  have deliver: "\<exists>c runner. mg_controller m = Some (c, runner) \<and> (\<forall>a. seg_state (svc_obj (ct_pipeline c)) a
      = (if a \<in> (\<lambda>i. segment_address_encode i 0) ` fst ` set (p_segments d) then Some Svc_Running else None))"
    if m: "manager_deliver env (svc_obj sv) = (m, Inr ())" for m
  proof -
    obtain c' where c': "controller_update env (initial_segments d) c = (c', Inr ())" "mg_controller m = Some (c', runner)"
      using m sv(3,4) by (auto simp: manager_deliver_def controller_on_data_def split: prod.splits)
    show ?thesis
      using controller_update_states [OF c'(1) ok initial_segments_ok [THEN conjunct1]] c'(2)
      unfolding initial_segments_ok [THEN conjunct2] by blast
  qed
  show ?thesis using sv start deliver by (simp add: register_pipeline_def)
qed

definition sample_executor :: "(nat list, nat) executor" where
  "sample_executor = executor_new sample_resources"

theorem executor_runs_pipeline_witness:
  "\<exists>ex sv m c runner. register_pipeline sample_env (Some sample_definition) sample_executor = (ex, Inr ())
     \<and> ex_pipeline_manager ex = Some sv \<and> manager_deliver sample_env (svc_obj sv) = (m, Inr ())
     \<and> mg_controller m = Some (c, runner) \<and> seg_state (svc_obj (ct_pipeline c)) 65536 = Some Svc_Running"
proof -
  obtain ex where ex: "register_pipeline sample_env (Some sample_definition) sample_executor = (ex, Inr ())"
  proof -
    have "snd (register_pipeline sample_env (Some sample_definition) sample_executor) = Inr ()" by code_simp
    then show ?thesis using that by (metis prod.collapse)
  qed
  have "case ex_pipeline_manager (fst (register_pipeline sample_env (Some sample_definition) sample_executor)) of
      None \<Rightarrow> False | Some sv \<Rightarrow> snd (manager_deliver sample_env (svc_obj sv)) = Inr ()" by code_simp
  then obtain sv m where sv: "ex_pipeline_manager ex = Some sv" "manager_deliver sample_env (svc_obj sv) = (m, Inr ())"
    by (cases "ex_pipeline_manager ex") (auto simp: ex prod_eq_iff)
  have "(65536 :: segment_address) = segment_address_encode 1 0" by code_simp
  moreover have "1 \<in> fst ` set (p_segments sample_definition)" by (simp add: sample_definition_def)
  ultimately have at: "(65536 :: segment_address) \<in> (\<lambda>i. segment_address_encode i 0) ` fst ` set (p_segments sample_definition)"
    by blast
  obtain c runner where c: "mg_controller m = Some (c, runner)" and st: "\<forall>a. seg_state (svc_obj (ct_pipeline c)) a
      = (if a \<in> (\<lambda>i. segment_address_encode i 0) ` fst ` set (p_segments sample_definition) then Some Svc_Running else None)"
    using executor_runs_pipeline [OF ex, of sample_definition] sv by auto
  from st at have "seg_state (svc_obj (ct_pipeline c)) 65536 = Some Svc_Running" by simp
  then show ?thesis using ex sv c by blast
qed

end
