(* ===== verification/Channels.thy ===== *)
theory Channels
  imports Prelude
begin

unbundle bit_operations_syntax

section \<open>Channels\<close>

text \<open>
  \<^verbatim>\<open>include/srf/channel\<close>: the interface \<^verbatim>\<open>Channel<T>\<close>, which notifies watchers around every write and
  read, and its implementations \<^verbatim>\<open>BufferedChannel\<close>, \<^verbatim>\<open>RecentChannel\<close> and \<^verbatim>\<open>NullChannel\<close>. The virtual
  functions of an implementation are a record of functions on its state. A read returns the value it has
  moved out; a wait that has not ended is the error \<open>Deadlock\<close> and leaves the channel as it was. The ring
  of Boost.Fiber behind \<^verbatim>\<open>BufferedChannel\<close> is a parameter.
\<close>

datatype status = St_success | St_empty | St_full | St_closed | St_timeout | St_error

type_synonym ('c, 't) read_op = "'c \<Rightarrow> 'c \<times> 't option \<times> status result"

record ('c, 't) channel_ops =
  do_await_write :: "'t \<Rightarrow> 'c \<Rightarrow> 'c \<times> status result"
  do_await_read :: "('c, 't) read_op"
  do_await_read_until :: "nat \<Rightarrow> nat \<Rightarrow> ('c, 't) read_op"
  do_try_read :: "('c, 't) read_op"
  do_close_channel :: "'c \<Rightarrow> 'c"
  do_is_channel_closed :: "'c \<Rightarrow> bool"

subsection \<open>The default size\<close>

definition initial_default_channel_size :: "64 word" where
  "initial_default_channel_size = 128"

definition set_default_channel_size :: "64 word \<Rightarrow> 64 word result" where
  "set_default_channel_size default_size =
     (if default_size < 2 \<or> default_size AND (default_size - 1) \<noteq> 0
      then Inl (Invalid_argument ''default_channel_size must be greater than 1 and a power of 2.'')
      else Inr default_size)"

subsection \<open>Watchers\<close>

datatype watchable_event = Channel_write | Channel_read | Sink_on_data

datatype watcher_call = On_entry watchable_event | On_exit watchable_event bool

text \<open>The watchers are a set, here a sorted list; the calls they get are recorded in order.\<close>

record 'c watched =
  wc_watchers :: "nat list"
  wc_calls :: "(nat \<times> watcher_call) list"
  wc_impl :: 'c

definition watched_new :: "'c \<Rightarrow> 'c watched" where
  "watched_new c = \<lparr>wc_watchers = [], wc_calls = [], wc_impl = c\<rparr>"

definition add_watcher :: "nat \<Rightarrow> 'c watched \<Rightarrow> 'c watched" where
  "add_watcher obs w = w\<lparr>wc_watchers := (if obs \<in> set (wc_watchers w) then wc_watchers w else insort obs (wc_watchers w))\<rparr>"

definition remove_watcher :: "nat \<Rightarrow> 'c watched \<Rightarrow> 'c watched" where
  "remove_watcher obs w = w\<lparr>wc_watchers := remove1 obs (wc_watchers w)\<rparr>"

definition watcher_prologue :: "watchable_event \<Rightarrow> 'c watched \<Rightarrow> 'c watched" where
  "watcher_prologue ev w = w\<lparr>wc_calls := wc_calls w @ map (\<lambda>obs. (obs, On_entry ev)) (wc_watchers w)\<rparr>"

definition watcher_epilogue :: "watchable_event \<Rightarrow> bool \<Rightarrow> 'c watched \<Rightarrow> 'c watched" where
  "watcher_epilogue ev rc w = w\<lparr>wc_calls := wc_calls w @ map (\<lambda>obs. (obs, On_exit ev rc)) (wc_watchers w)\<rparr>"

subsection \<open>The calls of the interface\<close>

definition finish_call :: "watchable_event \<Rightarrow> status result \<Rightarrow> 'c watched \<Rightarrow> 'c watched" where
  "finish_call ev r w = (case r of Inl _ \<Rightarrow> w | Inr rc \<Rightarrow> watcher_epilogue ev (rc = St_success) w)"

definition await_write :: "('c, 't) channel_ops \<Rightarrow> 't \<Rightarrow> 'c watched \<Rightarrow> 'c watched \<times> status result" where
  "await_write ops t w =
     (let w = watcher_prologue Channel_write w
      in case do_await_write ops t (wc_impl w) of (c, r) \<Rightarrow> (finish_call Channel_write r (w\<lparr>wc_impl := c\<rparr>), r))"

definition watched_read :: "('c, 't) read_op \<Rightarrow> ('c watched, 't) read_op" where
  "watched_read f w =
     (let w = watcher_prologue Channel_read w
      in case f (wc_impl w) of (c, v, r) \<Rightarrow> (finish_call Channel_read r (w\<lparr>wc_impl := c\<rparr>), v, r))"

definition await_read :: "('c, 't) channel_ops \<Rightarrow> ('c watched, 't) read_op" where
  "await_read ops = watched_read (do_await_read ops)"

definition await_read_until :: "('c, 't) channel_ops \<Rightarrow> nat \<Rightarrow> nat \<Rightarrow> ('c watched, 't) read_op" where
  "await_read_until ops now deadline = watched_read (do_await_read_until ops now deadline)"

definition try_read :: "('c, 't) channel_ops \<Rightarrow> ('c watched, 't) read_op" where
  "try_read ops = watched_read (do_try_read ops)"

definition close_channel :: "('c, 't) channel_ops \<Rightarrow> 'c watched \<Rightarrow> 'c watched" where
  "close_channel ops w = w\<lparr>wc_impl := do_close_channel ops (wc_impl w)\<rparr>"

definition is_channel_closed :: "('c, 't) channel_ops \<Rightarrow> 'c watched \<Rightarrow> bool" where
  "is_channel_closed ops w = do_is_channel_closed ops (wc_impl w)"

subsection \<open>The channel that keeps the most recent values\<close>

record 't recent_channel =
  rc_is_shutdown :: bool
  rc_max_size :: nat
  rc_deque :: "'t list"

definition recent_new :: "nat \<Rightarrow> 't recent_channel" where
  "recent_new count' = \<lparr>rc_is_shutdown = False, rc_max_size = count', rc_deque = []\<rparr>"

definition recent_write :: "'t \<Rightarrow> 't recent_channel \<Rightarrow> 't recent_channel \<times> status result" where
  "recent_write data c =
     (if rc_is_shutdown c then (c, Inr St_closed)
      else if length (rc_deque c) \<ge> rc_max_size c
           then (case rc_deque c of
                   [] \<Rightarrow> (c, Inl (Undefined_behaviour ''pop_front on an empty deque''))
                 | _ # xs \<Rightarrow> (c\<lparr>rc_deque := xs @ [data]\<rparr>, Inr St_success))
           else (c\<lparr>rc_deque := rc_deque c @ [data]\<rparr>, Inr St_success))"

definition recent_read :: "('t recent_channel, 't) read_op" where
  "recent_read c =
     (if rc_is_shutdown c then (c, None, Inr St_closed)
      else case rc_deque c of
             [] \<Rightarrow> (c, None, Inl (Deadlock ''m_cv''))
           | x # xs \<Rightarrow> (c\<lparr>rc_deque := xs\<rparr>, Some x, Inr St_success))"

definition recent_try_read :: "('t recent_channel, 't) read_op" where
  "recent_try_read c =
     (if rc_is_shutdown c then (c, None, Inr St_closed)
      else case rc_deque c of
             [] \<Rightarrow> (c, None, Inr St_empty)
           | x # xs \<Rightarrow> (c\<lparr>rc_deque := xs\<rparr>, Some x, Inr St_success))"

text \<open>The loop waits while the deadline is already past; a wait with a past deadline returns at once, so the
  loop goes on until another caller writes or closes.\<close>

definition recent_read_until :: "nat \<Rightarrow> nat \<Rightarrow> ('t recent_channel, 't) read_op" where
  "recent_read_until now deadline c =
     (if rc_deque c = [] \<and> \<not> rc_is_shutdown c \<and> deadline < now then (c, None, Inl (Deadlock ''m_cv''))
      else if rc_is_shutdown c then (c, None, Inr St_closed)
      else case rc_deque c of
             [] \<Rightarrow> (c, None, Inr St_timeout)
           | x # xs \<Rightarrow> (c\<lparr>rc_deque := xs\<rparr>, Some x, Inr St_success))"

definition recent_close :: "'t recent_channel \<Rightarrow> 't recent_channel" where
  "recent_close c = c\<lparr>rc_is_shutdown := True\<rparr>"

definition recent_ops :: "('t recent_channel, 't) channel_ops" where
  "recent_ops = \<lparr>do_await_write = recent_write, do_await_read = recent_read, do_await_read_until = recent_read_until,
     do_try_read = recent_try_read, do_close_channel = recent_close, do_is_channel_closed = rc_is_shutdown\<rparr>"

subsection \<open>The channel without values\<close>

text \<open>The state is \<^verbatim>\<open>m_is_shutdown\<close>, which the class leaves uninitialised.\<close>

definition null_write :: "'t \<Rightarrow> bool \<Rightarrow> bool \<times> status result" where
  "null_write t sd = (sd, Inr (if sd then St_closed else St_success))"

definition null_read :: "(bool, 't) read_op" where
  "null_read sd = (sd, None, if sd then Inr St_closed else Inl (Deadlock ''m_cv''))"

definition null_try_read :: "(bool, 't) read_op" where
  "null_try_read sd = (sd, None, Inr St_empty)"

definition null_read_until :: "nat \<Rightarrow> nat \<Rightarrow> (bool, 't) read_op" where
  "null_read_until now deadline sd = (sd, None, Inr (if sd then St_closed else St_timeout))"

definition null_ops :: "(bool, 't) channel_ops" where
  "null_ops = \<lparr>do_await_write = null_write, do_await_read = null_read, do_await_read_until = null_read_until,
     do_try_read = null_try_read, do_close_channel = (\<lambda>_. True), do_is_channel_closed = (\<lambda>sd. sd)\<rparr>"

subsection \<open>The buffered channel\<close>

datatype channel_op_status = Op_success | Op_empty | Op_full | Op_closed | Op_timeout

record ('q, 't) boost_channel =
  bc_make :: "nat \<Rightarrow> 'q result"
  bc_push :: "'t \<Rightarrow> 'q \<Rightarrow> 'q \<times> channel_op_status result"
  bc_pop :: "'q \<Rightarrow> 'q \<times> 't option \<times> channel_op_status result"
  bc_try_pop :: "'q \<Rightarrow> 'q \<times> 't option \<times> channel_op_status result"
  bc_pop_wait_until :: "nat \<Rightarrow> nat \<Rightarrow> 'q \<Rightarrow> 'q \<times> 't option \<times> channel_op_status result"
  bc_close :: "'q \<Rightarrow> 'q"
  bc_is_closed :: "'q \<Rightarrow> bool"

fun buffered_status :: "channel_op_status \<Rightarrow> status" where
  "buffered_status Op_success = St_success"
| "buffered_status Op_closed = St_closed"
| "buffered_status Op_empty = St_empty"
| "buffered_status Op_full = St_full"
| "buffered_status Op_timeout = St_timeout"

definition buffered_new :: "('q, 't) boost_channel \<Rightarrow> 64 word \<Rightarrow> 'q result" where
  "buffered_new bc buffer_size = bc_make bc (unat buffer_size)"

definition buffered_write :: "('q, 't) boost_channel \<Rightarrow> 't \<Rightarrow> 'q \<Rightarrow> 'q \<times> status result" where
  "buffered_write bc val q = (case bc_push bc val q of (q, r) \<Rightarrow> (q, map_sum id buffered_status r))"

definition buffered_pop :: "('q \<Rightarrow> 'q \<times> 't option \<times> channel_op_status result) \<Rightarrow> ('q, 't) read_op" where
  "buffered_pop pop q = (case pop q of (q, v, r) \<Rightarrow> (q, v, map_sum id buffered_status r))"

definition buffered_ops :: "('q, 't) boost_channel \<Rightarrow> ('q, 't) channel_ops" where
  "buffered_ops bc = \<lparr>do_await_write = buffered_write bc, do_await_read = buffered_pop (bc_pop bc),
     do_await_read_until = (\<lambda>now deadline. buffered_pop (bc_pop_wait_until bc now deadline)),
     do_try_read = buffered_pop (bc_try_pop bc), do_close_channel = bc_close bc, do_is_channel_closed = bc_is_closed bc\<rparr>"

text \<open>What the code relies on of the ring of Boost.Fiber: a new one is open, only \<open>close\<close> closes it, a closed
  one refuses values and does not make a reader wait.\<close>

definition boost_laws :: "('q, 't) boost_channel \<Rightarrow> bool" where
  "boost_laws bc \<longleftrightarrow>
     (\<forall>n q. bc_make bc n = Inr q \<longrightarrow> \<not> bc_is_closed bc q)
   \<and> (\<forall>q. bc_is_closed bc (bc_close bc q))
   \<and> (\<forall>t q. bc_is_closed bc (fst (bc_push bc t q)) = bc_is_closed bc q)
   \<and> (\<forall>t q. bc_is_closed bc q \<longrightarrow> bc_push bc t q = (q, Inr Op_closed))
   \<and> (\<forall>q. bc_is_closed bc (fst (bc_pop bc q)) = bc_is_closed bc q)
   \<and> (\<forall>q. bc_is_closed bc q \<longrightarrow> is_ok (snd (snd (bc_pop bc q))))
   \<and> (\<forall>q. bc_is_closed bc (fst (bc_try_pop bc q)) = bc_is_closed bc q)
   \<and> (\<forall>n d q. bc_is_closed bc (fst (bc_pop_wait_until bc n d q)) = bc_is_closed bc q)"

text \<open>A ring that satisfies them: a bounded list with a flag.\<close>

type_synonym 't list_ring = "bool \<times> nat \<times> 't list"

definition list_ring_pop :: "channel_op_status result \<Rightarrow> 't list_ring \<Rightarrow> 't list_ring \<times> 't option \<times> channel_op_status result" where
  "list_ring_pop on_empty = (\<lambda>(cl, n, xs). case xs of
     [] \<Rightarrow> ((cl, n, xs), None, if cl then Inr Op_closed else on_empty)
   | x # xs \<Rightarrow> ((cl, n, xs), Some x, Inr Op_success))"

definition list_boost :: "('t list_ring, 't) boost_channel" where
  "list_boost =
     \<lparr>bc_make = (\<lambda>n. if n < 2 then Inl (Invalid_argument ''capacity'') else Inr (False, n, [])),
      bc_push = (\<lambda>t (cl, n, xs). if cl then ((cl, n, xs), Inr Op_closed)
                   else if Suc (length xs) \<ge> n then ((cl, n, xs), Inl (Deadlock ''push'')) else ((cl, n, xs @ [t]), Inr Op_success)),
      bc_pop = list_ring_pop (Inl (Deadlock ''pop'')),
      bc_try_pop = list_ring_pop (Inr Op_empty),
      bc_pop_wait_until = (\<lambda>now deadline. list_ring_pop (Inr Op_timeout)),
      bc_close = (\<lambda>(cl, n, xs). (True, n, xs)),
      bc_is_closed = (\<lambda>(cl, n, xs). cl)\<rparr>"

lemma list_boost_laws: "boost_laws list_boost"
  by (auto simp: boost_laws_def list_boost_def list_ring_pop_def is_ok_def split: if_splits list.splits)

subsection \<open>What every channel promises\<close>

text \<open>Closing is final, only closing closes, a closed channel refuses values and releases its readers.\<close>

locale channel_impl =
  fixes ops :: "('c, 't) channel_ops"
  assumes closes: "do_is_channel_closed ops (do_close_channel ops c)"
    and write_keeps: "do_is_channel_closed ops (fst (do_await_write ops t c)) = do_is_channel_closed ops c"
    and read_keeps: "do_is_channel_closed ops (fst (do_await_read ops c)) = do_is_channel_closed ops c"
    and until_keeps: "do_is_channel_closed ops (fst (do_await_read_until ops now deadline c)) = do_is_channel_closed ops c"
    and try_keeps: "do_is_channel_closed ops (fst (do_try_read ops c)) = do_is_channel_closed ops c"
    and closed_write: "do_is_channel_closed ops c \<Longrightarrow> do_await_write ops t c = (c, Inr St_closed)"
    and closed_read: "do_is_channel_closed ops c \<Longrightarrow> is_ok (snd (snd (do_await_read ops c)))"
begin

lemma impl_finish [simp]: "wc_impl (finish_call ev r w) = wc_impl w"
  by (auto simp: finish_call_def watcher_epilogue_def split: sum.splits)

lemma impl_prologue [simp]: "wc_impl (watcher_prologue ev w) = wc_impl w"
  by (simp add: watcher_prologue_def)

lemma await_write_closed [simp]: "is_channel_closed ops (fst (await_write ops t w)) = is_channel_closed ops w"
  using write_keeps by (simp add: await_write_def is_channel_closed_def Let_def split_beta)

lemma watched_reads_closed [simp]:
  "is_channel_closed ops (fst (await_read ops w)) = is_channel_closed ops w"
  "is_channel_closed ops (fst (await_read_until ops now deadline w)) = is_channel_closed ops w"
  "is_channel_closed ops (fst (try_read ops w)) = is_channel_closed ops w"
  using read_keeps until_keeps try_keeps
  by (simp_all add: await_read_def await_read_until_def try_read_def watched_read_def is_channel_closed_def Let_def split_beta)

lemma close_channel_closed [simp]: "is_channel_closed ops (close_channel ops w)"
  using closes by (simp add: close_channel_def is_channel_closed_def)

lemma write_after_close:
  "is_channel_closed ops w \<Longrightarrow> snd (await_write ops t w) = Inr St_closed \<and> wc_impl (fst (await_write ops t w)) = wc_impl w"
  using closed_write by (simp add: await_write_def is_channel_closed_def Let_def)

end

interpretation rc: channel_impl recent_ops
  by unfold_locales
    (auto simp: recent_ops_def recent_close_def recent_write_def recent_read_def recent_try_read_def recent_read_until_def
      is_ok_def split: list.splits)

interpretation nc: channel_impl null_ops
  by unfold_locales (simp_all add: null_ops_def null_write_def null_read_def null_read_until_def null_try_read_def is_ok_def)

lemma is_ok_map_sum [simp]: "is_ok (map_sum id f r) = is_ok r"
  by (cases r) (simp_all add: is_ok_def)

lemma buffered_channel_impl: "boost_laws bc \<Longrightarrow> channel_impl (buffered_ops bc)"
  by unfold_locales (auto simp: boost_laws_def buffered_ops_def buffered_write_def buffered_pop_def split_beta)


subsection \<open>The recent channel keeps the newest values\<close>

text \<open>The specification keeps every value ever written and how many of the newest are still unread.\<close>

record 't log_channel =
  lg_written :: "'t list"
  lg_unread :: nat
  lg_max :: nat
  lg_closed :: bool

definition log_ok :: "'t log_channel \<Rightarrow> bool" where
  "log_ok l \<longleftrightarrow> lg_unread l \<le> length (lg_written l) \<and> lg_unread l \<le> lg_max l \<and> 0 < lg_max l"

definition log_write :: "'t \<Rightarrow> 't log_channel \<Rightarrow> 't log_channel \<times> status result" where
  "log_write x l = (if lg_closed l then (l, Inr St_closed)
     else (l\<lparr>lg_written := lg_written l @ [x], lg_unread := min (lg_max l) (Suc (lg_unread l))\<rparr>, Inr St_success))"

definition log_read :: "status result \<Rightarrow> ('t log_channel, 't) read_op" where
  "log_read on_empty l = (if lg_closed l then (l, None, Inr St_closed)
     else if lg_unread l = 0 then (l, None, on_empty)
     else (l\<lparr>lg_unread := lg_unread l - 1\<rparr>, Some (lg_written l ! (length (lg_written l) - lg_unread l)), Inr St_success))"

definition recent_of :: "'t log_channel \<Rightarrow> 't recent_channel" where
  "recent_of l = \<lparr>rc_is_shutdown = lg_closed l, rc_max_size = lg_max l,
     rc_deque = drop (length (lg_written l) - lg_unread l) (lg_written l)\<rparr>"

lemma log_ok_write: "log_ok l \<Longrightarrow> log_ok (fst (log_write x l))"
  by (auto simp: log_ok_def log_write_def)

lemma log_ok_read: "log_ok l \<Longrightarrow> log_ok (fst (log_read e l))"
  by (auto simp: log_ok_def log_read_def)

lemma recent_write_log:
  assumes "log_ok l"
  shows "recent_write x (recent_of l) = map_prod recent_of id (log_write x l)"
proof (cases "lg_closed l")
  case True
  then show ?thesis by (simp add: recent_write_def log_write_def recent_of_def)
next
  case False
  let ?d = "drop (length (lg_written l) - lg_unread l) (lg_written l)"
  have len: "length ?d = lg_unread l" using assms by (simp add: log_ok_def)
  show ?thesis
  proof (cases "lg_unread l < lg_max l")
    case True
    then have "min (lg_max l) (Suc (lg_unread l)) = Suc (lg_unread l)" by simp
    then show ?thesis
      using True False assms by (simp add: recent_write_def log_write_def recent_of_def log_ok_def)
  next
    case full: False
    then have eq: "lg_unread l = lg_max l" "0 < lg_unread l" using assms by (auto simp: log_ok_def)
    then obtain y ys where d: "?d = y # ys" using len by (cases ?d) auto
    have "ys = drop (Suc (length (lg_written l)) - lg_unread l) (lg_written l)"
      using d eq assms by (metis Suc_diff_le drop_Suc list.sel(3) log_ok_def tl_drop)
    then show ?thesis
      using False eq d len assms by (simp add: recent_write_def log_write_def recent_of_def log_ok_def)
  qed
qed

lemma recent_deque_log:
  assumes "log_ok l"
  shows "rc_deque (recent_of l) = (if lg_unread l = 0 then []
     else lg_written l ! (length (lg_written l) - lg_unread l) # rc_deque (recent_of (l\<lparr>lg_unread := lg_unread l - 1\<rparr>)))"
proof (cases "lg_unread l = 0")
  case False
  let ?k = "length (lg_written l) - lg_unread l"
  have "?k < length (lg_written l)" "Suc ?k = length (lg_written l) - (lg_unread l - 1)"
    using False assms by (auto simp: log_ok_def)
  then show ?thesis using False Cons_nth_drop_Suc [of ?k "lg_written l"] by (simp add: recent_of_def)
qed (simp add: recent_of_def)


lemma recent_read_log:
  assumes "log_ok l"
  shows "recent_read (recent_of l) = map_prod recent_of id (log_read (Inl (Deadlock ''m_cv'')) l)"
    and "recent_try_read (recent_of l) = map_prod recent_of id (log_read (Inr St_empty) l)"
    and "recent_read_until now deadline (recent_of l)
      = map_prod recent_of id (log_read (if deadline < now then Inl (Deadlock ''m_cv'') else Inr St_timeout) l)"
  using recent_deque_log [OF assms]
  by (simp_all add: recent_read_def recent_try_read_def recent_read_until_def log_read_def recent_of_def)

datatype 't channel_call = Write_call 't | Read_call | Try_call | Until_call nat nat | Close_call

fun recent_call :: "'t channel_call \<Rightarrow> 't recent_channel \<Rightarrow> 't recent_channel \<times> 't option \<times> status result" where
  "recent_call (Write_call x) c = (case do_await_write recent_ops x c of (c, r) \<Rightarrow> (c, None, r))"
| "recent_call Read_call c = do_await_read recent_ops c"
| "recent_call Try_call c = do_try_read recent_ops c"
| "recent_call (Until_call now deadline) c = do_await_read_until recent_ops now deadline c"
| "recent_call Close_call c = (do_close_channel recent_ops c, None, Inr St_success)"

fun log_call :: "'t channel_call \<Rightarrow> 't log_channel \<Rightarrow> 't log_channel \<times> 't option \<times> status result" where
  "log_call (Write_call x) l = (case log_write x l of (l, r) \<Rightarrow> (l, None, r))"
| "log_call Read_call l = log_read (Inl (Deadlock ''m_cv'')) l"
| "log_call Try_call l = log_read (Inr St_empty) l"
| "log_call (Until_call now deadline) l = log_read (if deadline < now then Inl (Deadlock ''m_cv'') else Inr St_timeout) l"
| "log_call Close_call l = (l\<lparr>lg_closed := True\<rparr>, None, Inr St_success)"

fun run_calls :: "('a \<Rightarrow> 'c \<Rightarrow> 'c \<times> 'r) \<Rightarrow> 'a list \<Rightarrow> 'c \<Rightarrow> 'c \<times> 'r list" where
  "run_calls f [] c = (c, [])"
| "run_calls f (x # xs) c = (case f x c of (c, r) \<Rightarrow> (case run_calls f xs c of (c, rs) \<Rightarrow> (c, r # rs)))"

lemma recent_call_log:
  "log_ok l \<Longrightarrow> recent_call k (recent_of l) = map_prod recent_of id (log_call k l) \<and> log_ok (fst (log_call k l))"
proof (cases k)
  case (Write_call x)
  assume "log_ok l"
  with recent_write_log [OF this, of x] log_ok_write [OF this, of x] Write_call show ?thesis
    by (simp add: recent_ops_def split_beta)
next
  case Close_call
  assume "log_ok l"
  with Close_call show ?thesis by (simp add: recent_ops_def recent_close_def recent_of_def log_ok_def)
qed (simp_all add: recent_ops_def recent_read_log log_ok_read)

lemma recent_run_log:
  "log_ok l \<Longrightarrow> run_calls recent_call ks (recent_of l) = map_prod recent_of id (run_calls log_call ks l)"
proof (induction ks arbitrary: l)
  case (Cons k ks)
  obtain l' r where lr: "log_call k l = (l', r)" by (cases "log_call k l") blast
  have "recent_call k (recent_of l) = (recent_of l', r)" "log_ok l'" using recent_call_log [OF Cons.prems, of k] lr by simp_all
  then show ?case using Cons.IH [of l'] lr by (simp add: split_beta)
qed simp

text \<open>C13. A recent channel of positive size implements its specification, the log of everything written together
  with the number of newest values still unread: every sequence of writes, reads, timed reads and closes,
  from a new channel, returns the same values and statuses on both, so a reader gets the values in
  the order of the writes and only the oldest unread values are ever dropped.\<close>

theorem recent_channel_refines:
  assumes "0 < n"
  shows "run_calls recent_call ks (recent_new n)
     = map_prod recent_of id (run_calls log_call ks \<lparr>lg_written = [], lg_unread = 0, lg_max = n, lg_closed = False\<rparr>)"
  using recent_run_log [of "\<lparr>lg_written = [], lg_unread = 0, lg_max = n, lg_closed = False\<rparr>" ks] assms
  by (simp add: log_ok_def recent_of_def recent_new_def)

theorem recent_channel_refines_witness:
  "snd (run_calls recent_call [Write_call 1, Write_call 2, Write_call (3 :: nat), Read_call, Read_call, Try_call] (recent_new 2))
     = [(None, Inr St_success), (None, Inr St_success), (None, Inr St_success), (Some 2, Inr St_success), (Some 3, Inr St_success), (None, Inr St_empty)]"
  using recent_channel_refines [of 2 "[Write_call 1, Write_call 2, Write_call (3 :: nat), Read_call, Read_call, Try_call]"]
  by (simp add: log_write_def log_read_def)


subsection \<open>Which sizes are accepted\<close>

lemma and_even_odd: "(2 * a) AND (2 * b + 1) = 2 * (a AND (b :: nat))"
  by (simp add: and_rec [of "2 * a"])

lemma and_odd_even: "(2 * a + 1) AND (2 * b) = 2 * (a AND (b :: nat))"
  using and_even_odd [of b a] by (simp only: and.commute)

lemma and_pred_pow2: "n \<noteq> 0 \<Longrightarrow> n AND (n - 1) = 0 \<longleftrightarrow> (\<exists>k. n = 2 ^ k)" for n :: nat
proof (induction n rule: less_induct)
  case (less n)
  show ?case
  proof (cases "even n")
    case True
    then obtain m where m: "n = 2 * m" "m \<noteq> 0" using less.prems by auto
    have "n - 1 = 2 * (m - 1) + 1" using m by simp
    then have "n AND (n - 1) = 0 \<longleftrightarrow> m AND (m - 1) = 0" using and_even_odd [of m "m - 1"] by (simp only: m) simp
    also have "\<dots> \<longleftrightarrow> (\<exists>k. m = 2 ^ k)" using less.IH [of m] m by simp
    also have "\<dots> \<longleftrightarrow> (\<exists>k. n = 2 ^ k)"
    proof
      assume "\<exists>k. n = 2 ^ k"
      then obtain k where "2 * m = 2 ^ k" using m by auto
      then show "\<exists>k. m = 2 ^ k" by (cases k) auto
    qed (auto simp: m power_Suc [symmetric] simp del: power_Suc)
    finally show ?thesis .
  next
    case False
    then obtain m where m: "n = 2 * m + 1" by (rule oddE)
    have "n AND (n - 1) = 2 * m" using and_odd_even [of m m] m by simp
    moreover have "(\<exists>k. n = 2 ^ k) \<longleftrightarrow> m = 0"
    proof
      assume "\<exists>k. n = 2 ^ k"
      then obtain k where "n = 2 ^ k" by blast
      then show "m = 0" using m False by (cases k) auto
    qed (auto simp: m intro: exI [of _ 0])
    ultimately show ?thesis by simp
  qed
qed

text \<open>C40. The bit test of \<open>set_default_channel_size\<close> on 64-bit sizes accepts exactly the powers of two from 2
  on, and stores the size it was given.\<close>

theorem default_channel_size_pow2:
  "(set_default_channel_size default_size = Inr size') \<longleftrightarrow> size' = default_size \<and> (\<exists>k > 0. unat default_size = 2 ^ k)"
proof -
  let ?n = "unat default_size"
  have "(\<exists>k > 0. ?n = 2 ^ k) \<longleftrightarrow> ?n \<noteq> 0 \<and> ?n \<noteq> 1 \<and> ?n AND (?n - 1) = 0"
  proof (cases "?n = 0")
    case False
    have "(\<exists>k > 0. ?n = 2 ^ k) \<longleftrightarrow> ?n \<noteq> 1 \<and> (\<exists>k. ?n = 2 ^ k)"
      by (metis neq0_conv one_less_numeral_iff one_less_power power_0 semiring_norm(76) nat_neq_iff)
    then show ?thesis using False and_pred_pow2 [of ?n] by simp
  qed simp
  moreover have "default_size < 2 \<longleftrightarrow> ?n = 0 \<or> ?n = 1"
    by (auto simp: word_less_nat_alt)
  moreover have "default_size AND (default_size - 1) = 0 \<longleftrightarrow> ?n AND (?n - 1) = 0" if "?n \<noteq> 0"
  proof -
    have "default_size \<noteq> 0" using that by auto
    then have "unat (default_size - 1) = ?n - 1" by (rule unat_minus_one)
    then have "unat (default_size AND (default_size - 1)) = ?n AND (?n - 1)" by (simp add: unsigned_and_eq)
    then show ?thesis by (metis unat_eq_0)
  qed
  ultimately show ?thesis by (auto simp: set_default_channel_size_def)
qed

end
