(* ===== verification/Edges.thy ===== *)
theory Edges
  imports Channels
begin

section \<open>Edges between sources and sinks\<close>

text \<open>
  \<^verbatim>\<open>include/srf/node\<close>: a sink owns a channel and hands out shared pointers to one ingress; the channel is
  closed when the last of them is gone. A source holds at most one ingress. The edge builder connects the
  two, with a converting edge in between when the types differ; the edge registry holds the converters of
  edges whose types are only known at run time.
\<close>

subsection \<open>Sink channels\<close>

text \<open>\<open>sk_holders\<close> is the use count of the current ingress, the persistent holder included.\<close>

record 'c sink_channel =
  sk_channel :: "'c watched"
  sk_holders :: nat
  sk_persistent :: bool
  sk_ingress_initialized :: bool

definition sink_channel_new :: "'c watched \<Rightarrow> 'c sink_channel" where
  "sink_channel_new c = \<lparr>sk_channel = c, sk_holders = 0, sk_persistent = False, sk_ingress_initialized = False\<rparr>"

definition default_sink_channel :: "('q, 't) boost_channel \<Rightarrow> 64 word \<Rightarrow> 'q sink_channel result" where
  "default_sink_channel bc default_size = rbind (buffered_new bc default_size) (\<lambda>q. Inr (sink_channel_new (watched_new q)))"

text \<open>The owners of the channel: the sink, the live edge, and the deleter in the control block, which lives as
  long as the weak pointer of the sink.\<close>

definition channel_use_count :: "'c sink_channel \<Rightarrow> nat" where
  "channel_use_count s = 1 + (if 0 < sk_holders s then 1 else 0) + (if sk_ingress_initialized s then 1 else 0)"

definition channel_ingress :: "('c, 't) channel_ops \<Rightarrow> 'c sink_channel \<Rightarrow> 'c sink_channel result" where
  "channel_ingress ops s =
     (if is_channel_closed ops (sk_channel s)
      then Inl (Srf_runtime_error ''attempting to acquire an Ingress to a closed channel'')
      else if 0 < sk_holders s then Inr (s\<lparr>sk_holders := Suc (sk_holders s)\<rparr>)
      else Inr (s\<lparr>sk_holders := 1, sk_ingress_initialized := True\<rparr>))"

text \<open>A holder lets go of its shared pointer; the deleter closes the channel.\<close>

definition release_ingress :: "('c, 't) channel_ops \<Rightarrow> 'c sink_channel \<Rightarrow> 'c sink_channel" where
  "release_ingress ops s =
     (let s = s\<lparr>sk_holders := sk_holders s - 1\<rparr>
      in if sk_holders s = 0 then s\<lparr>sk_channel := close_channel ops (sk_channel s)\<rparr> else s)"

definition update_channel :: "'c watched \<Rightarrow> 'c sink_channel \<Rightarrow> 'c sink_channel result" where
  "update_channel channel s =
     (if channel_use_count s \<noteq> 1
      then Inl (Check_failed ''can not modify the input channel after it has been shared or is persistent'')
      else Inr (s\<lparr>sk_channel := channel, sk_ingress_initialized := False\<rparr>))"

definition is_persistent :: "'c sink_channel \<Rightarrow> bool" where
  "is_persistent s = sk_persistent s"

definition disable_persistence :: "('c, 't) channel_ops \<Rightarrow> 'c sink_channel \<Rightarrow> 'c sink_channel" where
  "disable_persistence ops s = (if sk_persistent s then (release_ingress ops s)\<lparr>sk_persistent := False\<rparr> else s)"

definition enable_persistence :: "('c, 't) channel_ops \<Rightarrow> 'c sink_channel \<Rightarrow> 'c sink_channel result" where
  "enable_persistence ops s =
     (if sk_persistent s then Inr s else rbind (channel_ingress ops s) (\<lambda>s. Inr (s\<lparr>sk_persistent := True\<rparr>)))"

definition edge_await_write :: "('c, 't) channel_ops \<Rightarrow> 't \<Rightarrow> 'c sink_channel \<Rightarrow> 'c sink_channel \<times> status result" where
  "edge_await_write ops data s = (case await_write ops data (sk_channel s) of (c, r) \<Rightarrow> (s\<lparr>sk_channel := c\<rparr>, r))"

subsection \<open>The life of a sink channel\<close>

text \<open>What the holders, the owner and the reader can do. A write needs a holder.\<close>

inductive sink_step :: "('c, 't) channel_ops \<Rightarrow> 'c sink_channel \<Rightarrow> 'c sink_channel \<Rightarrow> bool" for ops where
  acquire: "channel_ingress ops s = Inr s' \<Longrightarrow> sink_step ops s s'"
| release: "(if sk_persistent s then 1 else 0) < sk_holders s \<Longrightarrow> sink_step ops s (release_ingress ops s)"
| enable: "enable_persistence ops s = Inr s' \<Longrightarrow> sink_step ops s s'"
| disable: "sink_step ops s (disable_persistence ops s)"
| update: "update_channel c s = Inr s' \<Longrightarrow> \<not> is_channel_closed ops c \<Longrightarrow> sink_step ops s s'"
| writes: "0 < sk_holders s \<Longrightarrow> sink_step ops s (fst (edge_await_write ops data s))"
| reads: "sink_step ops s (s\<lparr>sk_channel := fst (await_read ops (sk_channel s))\<rparr>)"

inductive_cases sink_stepE: "sink_step ops s s'"

definition sink_inv :: "('c, 't) channel_ops \<Rightarrow> 'c sink_channel \<Rightarrow> bool" where
  "sink_inv ops s \<longleftrightarrow> (is_channel_closed ops (sk_channel s) \<longleftrightarrow> sk_ingress_initialized s \<and> sk_holders s = 0)
     \<and> (sk_persistent s \<longrightarrow> 0 < sk_holders s) \<and> (0 < sk_holders s \<longrightarrow> sk_ingress_initialized s)"

context channel_impl
begin

lemma acquire_inv: "sink_inv ops s \<Longrightarrow> channel_ingress ops s = Inr s' \<Longrightarrow> sink_inv ops s' \<and> sk_persistent s' = sk_persistent s \<and> 0 < sk_holders s'"
  by (auto simp: channel_ingress_def sink_inv_def split: if_splits)

lemma release_eq:
  "0 < sk_holders s \<Longrightarrow> release_ingress ops s = (if sk_holders s = 1
     then s\<lparr>sk_holders := 0, sk_channel := close_channel ops (sk_channel s)\<rparr> else s\<lparr>sk_holders := sk_holders s - 1\<rparr>)"
  by (simp add: release_ingress_def Let_def)

lemma release_inv:
  "sink_inv ops s \<Longrightarrow> (if sk_persistent s then 1 else 0) < sk_holders s \<Longrightarrow> sink_inv ops (release_ingress ops s)"
  by (cases "sk_persistent s"; cases "sk_holders s = 1") (simp_all add: release_eq sink_inv_def)

lemma disable_inv: "sink_inv ops s \<Longrightarrow> sink_inv ops (disable_persistence ops s)"
  by (cases "sk_persistent s"; cases "sk_holders s = 1") (simp_all add: disable_persistence_def release_eq sink_inv_def)

lemma enable_inv:
  assumes "sink_inv ops s" and "enable_persistence ops s = Inr s'"
  shows "sink_inv ops s'"
proof (cases "sk_persistent s")
  case False
  then obtain s1 where s1: "channel_ingress ops s = Inr s1" "s' = s1\<lparr>sk_persistent := True\<rparr>"
    using assms(2) by (auto simp: enable_persistence_def rbind_eq_Inr)
  show ?thesis using acquire_inv [OF assms(1) s1(1)] by (simp add: s1(2) sink_inv_def)
qed (use assms in \<open>simp add: enable_persistence_def\<close>)

lemma update_inv: "sink_inv ops s \<Longrightarrow> update_channel c s = Inr s' \<Longrightarrow> \<not> is_channel_closed ops c \<Longrightarrow> sink_inv ops s'"
  by (auto simp: update_channel_def channel_use_count_def sink_inv_def split: if_splits)

lemma sink_step_inv: "sink_step ops s s' \<Longrightarrow> sink_inv ops s \<Longrightarrow> sink_inv ops s'"
proof (induction rule: sink_step.induct)
  case (writes s data)
  then show ?case by (simp add: edge_await_write_def sink_inv_def split_beta)
next
  case (reads s)
  then show ?case by (simp add: sink_inv_def)
qed (blast intro: acquire_inv [THEN conjunct1] release_inv disable_inv enable_inv update_inv)+

lemma sink_run_inv: "(sink_step ops)\<^sup>*\<^sup>* s s' \<Longrightarrow> sink_inv ops s \<Longrightarrow> sink_inv ops s'"
  by (induction rule: rtranclp_induct) (auto intro: sink_step_inv)

end

lemma sink_inv_new: "\<not> is_channel_closed ops c \<Longrightarrow> sink_inv ops (sink_channel_new c)"
  by (simp add: sink_inv_def sink_channel_new_def)

text \<open>C7. Whatever holders, owner and reader do with a sink on its default channel, the channel is closed exactly
  when an ingress has been handed out and no holder of it is left; a persistent sink always has a
  holder. So a new ingress can be had as long as anybody holds one, or nobody ever did.\<close>

theorem sink_channel_lifetime:
  assumes "boost_laws bc" and "default_sink_channel bc size' = Inr s" and "(sink_step (buffered_ops bc))\<^sup>*\<^sup>* s s'"
  shows "(is_channel_closed (buffered_ops bc) (sk_channel s') \<longleftrightarrow> sk_ingress_initialized s' \<and> sk_holders s' = 0)
     \<and> (sk_persistent s' \<longrightarrow> 0 < sk_holders s')
     \<and> (is_ok (channel_ingress (buffered_ops bc) s') \<longleftrightarrow> 0 < sk_holders s' \<or> \<not> sk_ingress_initialized s')"
proof -
  have "\<exists>q. s = sink_channel_new (watched_new q) \<and> \<not> bc_is_closed bc q"
    using assms(1,2) by (auto simp: default_sink_channel_def rbind_eq_Inr buffered_new_def boost_laws_def)
  then have "sink_inv (buffered_ops bc) s"
    by (auto intro!: sink_inv_new simp: is_channel_closed_def watched_new_def buffered_ops_def)
  from channel_impl.sink_run_inv [OF buffered_channel_impl [OF assms(1)] assms(3) this] show ?thesis
    by (auto simp: sink_inv_def channel_ingress_def is_ok_def)
qed

theorem sink_channel_lifetime_witness:
  "\<exists>s s'. default_sink_channel list_boost 4 = Inr s \<and> (sink_step (buffered_ops (list_boost :: (nat list_ring, nat) boost_channel)))\<^sup>*\<^sup>* s s'
     \<and> sk_holders s' = 0 \<and> is_channel_closed (buffered_ops (list_boost :: (nat list_ring, nat) boost_channel)) (sk_channel s')"
proof -
  let ?ops = "buffered_ops (list_boost :: (nat list_ring, nat) boost_channel)"
  define s where "s = sink_channel_new (watched_new (False, 4 :: nat, [] :: nat list))"
  define s1 where "s1 = s\<lparr>sk_holders := 1, sk_ingress_initialized := True\<rparr>"
  have d: "default_sink_channel list_boost 4 = Inr s"
    by (simp add: default_sink_channel_def buffered_new_def list_boost_def s_def rbind_def)
  have "channel_ingress ?ops s = Inr s1"
    by (simp add: channel_ingress_def is_channel_closed_def s_def s1_def sink_channel_new_def watched_new_def buffered_ops_def list_boost_def)
  then have "sink_step ?ops s s1" by (rule acquire)
  moreover have "sink_step ?ops s1 (release_ingress ?ops s1)"
    by (rule release) (simp add: s1_def s_def sink_channel_new_def)
  ultimately have run: "(sink_step ?ops)\<^sup>*\<^sup>* s (release_ingress ?ops s1)" by (blast intro: rtranclp.rtrancl_into_rtrancl)
  have h: "sk_holders (release_ingress ?ops s1) = 0" "sk_ingress_initialized (release_ingress ?ops s1)"
    by (simp_all add: release_ingress_def s1_def)
  show ?thesis
    using sink_channel_lifetime [OF list_boost_laws d run] h d run by blast
qed

subsection \<open>Source channels\<close>

text \<open>A type-erased ingress: the ingress of a sink, or an edge that converts values of its source type for another
  ingress.\<close>

datatype ingress_handle = Sink_ingress nat nat | Edge_ingress nat ingress_handle

fun handle_type :: "ingress_handle \<Rightarrow> nat" where
  "handle_type (Sink_ingress t obj) = t"
| "handle_type (Edge_ingress t h) = t"

text \<open>A write to a handle; \<open>w\<close> writes to the sink with the given number, \<open>convert\<close> is the conversion between two
  types.\<close>

fun handle_write ::
    "(nat \<Rightarrow> nat \<Rightarrow> 't \<Rightarrow> 't) \<Rightarrow> (nat \<Rightarrow> 't \<Rightarrow> 's \<Rightarrow> 's \<times> status result) \<Rightarrow> ingress_handle \<Rightarrow> 't \<Rightarrow> 's \<Rightarrow> 's \<times> status result" where
  "handle_write convert w (Sink_ingress t obj) data s = w obj data s"
| "handle_write convert w (Edge_ingress t h) data s = handle_write convert w h (convert t (handle_type h) data) s"

record source_channel =
  so_type :: nat
  so_ingress :: "ingress_handle option"

definition source_channel_new :: "nat \<Rightarrow> source_channel" where
  "source_channel_new t = \<lparr>so_type = t, so_ingress = None\<rparr>"

definition no_channel_error :: srf_error where
  "no_channel_error = Srf_runtime_error ''SourceChannel has either not been connected or the channel has been released''"

definition source_await_write ::
    "(ingress_handle \<Rightarrow> 't \<Rightarrow> 's \<Rightarrow> 's \<times> status result) \<Rightarrow> source_channel \<Rightarrow> 't \<Rightarrow> 's \<Rightarrow> 's \<times> status result" where
  "source_await_write wr so data s = (case so_ingress so of Some h \<Rightarrow> wr h data s | None \<Rightarrow> (s, Inl no_channel_error))"

definition writeable_await_write ::
    "(ingress_handle \<Rightarrow> 't \<Rightarrow> 's \<Rightarrow> 's \<times> status result) \<Rightarrow> source_channel \<Rightarrow> 't \<Rightarrow> 's \<Rightarrow> 's \<times> status result" where
  "writeable_await_write wr so data s = (case so_ingress so of Some h \<Rightarrow> wr h data s | None \<Rightarrow> (s, Inr St_success))"

definition has_channel :: "source_channel \<Rightarrow> bool" where
  "has_channel so \<longleftrightarrow> so_ingress so \<noteq> None"

definition release_channel :: "source_channel \<Rightarrow> source_channel" where
  "release_channel so = so\<lparr>so_ingress := None\<rparr>"

definition complete_edge :: "ingress_handle option \<Rightarrow> source_channel \<Rightarrow> source_channel result" where
  "complete_edge untyped_ingress so =
     (case untyped_ingress of
        None \<Rightarrow> Inl (Check_failed ''untyped_ingress'')
      | Some h \<Rightarrow>
          if has_channel so
          then Inl (Srf_runtime_error ''multiple edges to a source detected; use an operator to select proper behavior'')
          else if handle_type h = so_type so then Inr (so\<lparr>so_ingress := Some h\<rparr>)
          else Inl (Check_failed ''m_ingress''))"

subsection \<open>The edge builder\<close>

record cpp_type =
  ct_id :: nat
  ct_size :: nat
  ct_floating :: bool
  ct_integral :: bool
  ct_signed :: bool

definition less_bits :: "cpp_type \<Rightarrow> cpp_type \<Rightarrow> bool" where
  "less_bits src snk \<longleftrightarrow> ct_size src > ct_size snk"

definition float_to_int :: "cpp_type \<Rightarrow> cpp_type \<Rightarrow> bool" where
  "float_to_int src snk \<longleftrightarrow> ct_floating src \<and> ct_integral snk"

definition signed_to_unsigned :: "cpp_type \<Rightarrow> cpp_type \<Rightarrow> bool" where
  "signed_to_unsigned src snk \<longleftrightarrow> ct_signed src \<and> \<not> ct_signed snk"

definition unsigned_to_signed_less_bits :: "cpp_type \<Rightarrow> cpp_type \<Rightarrow> bool" where
  "unsigned_to_signed_less_bits src snk \<longleftrightarrow> \<not> ct_signed src \<and> ct_signed snk \<and> ct_size src = ct_size snk"

definition requires_narrowing :: "bool \<Rightarrow> cpp_type \<Rightarrow> cpp_type \<Rightarrow> bool" where
  "requires_narrowing is_convertible src snk \<longleftrightarrow> is_convertible \<and>
     (less_bits src snk \<or> float_to_int src snk \<or> signed_to_unsigned src snk \<or> unsigned_to_signed_less_bits src snk)"

lemmas narrowing_defs = less_bits_def float_to_int_def signed_to_unsigned_def unsigned_to_signed_less_bits_def

definition edge_for :: "bool \<Rightarrow> bool \<Rightarrow> cpp_type \<Rightarrow> cpp_type \<Rightarrow> ingress_handle \<Rightarrow> ingress_handle result" where
  "edge_for is_convertible allow_narrowing src snk h =
     (if ct_id src = ct_id snk then Inr h
      else if is_convertible \<and> \<not> requires_narrowing is_convertible src snk then Inr (Edge_ingress (ct_id src) h)
      else if requires_narrowing is_convertible src snk \<and> allow_narrowing then Inr (Edge_ingress (ct_id src) h)
      else Inl (Fatal ''No dynamic lookup available for statically typed objects''))"

text \<open>An edge that the source refuses is dropped again.\<close>

definition make_edge ::
    "('c, 't) channel_ops \<Rightarrow> bool \<Rightarrow> bool \<Rightarrow> cpp_type \<Rightarrow> cpp_type \<Rightarrow> nat \<Rightarrow> source_channel \<times> 'c sink_channel
     \<Rightarrow> (source_channel \<times> 'c sink_channel) \<times> unit result" where
  "make_edge ops is_convertible allow_narrowing src snk obj = (\<lambda>(so, sk).
     case edge_for is_convertible allow_narrowing src snk (Sink_ingress (ct_id snk) obj) of
       Inl e \<Rightarrow> ((so, sk), Inl e)
     | Inr edge \<Rightarrow>
         (case channel_ingress ops sk of
            Inl e \<Rightarrow> ((so, sk), Inl e)
          | Inr sk \<Rightarrow>
              (case complete_edge (Some edge) so of
                 Inl e \<Rightarrow> ((so, release_ingress ops sk), Inl e)
               | Inr so \<Rightarrow> ((so, sk), Inr ()))))"

subsection \<open>The edge registry\<close>

datatype converter = Edge_converter nat nat | Identity_converter nat

fun run_converter :: "converter \<Rightarrow> ingress_handle \<Rightarrow> ingress_handle" where
  "run_converter (Edge_converter src snk) h = Edge_ingress src h"
| "run_converter (Identity_converter t) h = h"

type_synonym edge_registry = "(nat, (nat, converter) smap) smap"

definition readers_of :: "nat \<Rightarrow> edge_registry \<Rightarrow> (nat, converter) smap" where
  "readers_of writer_type reg = (case smap_find reg writer_type of None \<Rightarrow> [] | Some m \<Rightarrow> m)"

text \<open>The subscript enters the writer even when the reader is a duplicate.\<close>

definition register_converter :: "nat \<Rightarrow> nat \<Rightarrow> converter \<Rightarrow> edge_registry \<Rightarrow> edge_registry \<times> unit result" where
  "register_converter writer_type reader_type converter' reg =
     (let readers_map = readers_of writer_type reg; reg = smap_put writer_type readers_map reg
      in if smap_find readers_map reader_type \<noteq> None
         then (reg, Inl (Std_runtime_error ''Duplicate converter already registered''))
         else (smap_put writer_type (smap_put reader_type converter' readers_map) reg, Inr ()))"

definition has_converter :: "nat \<Rightarrow> nat \<Rightarrow> edge_registry \<Rightarrow> bool" where
  "has_converter writer_type reader_type reg =
     (case smap_find reg writer_type of None \<Rightarrow> False | Some m \<Rightarrow> smap_find m reader_type \<noteq> None)"

definition find_converter :: "nat \<Rightarrow> nat \<Rightarrow> edge_registry \<Rightarrow> converter result" where
  "find_converter writer_type reader_type reg =
     (case smap_find reg writer_type of
        None \<Rightarrow> Inl (Std_runtime_error ''Could not find writer_type'')
      | Some m \<Rightarrow> (case smap_find m reader_type of
          None \<Rightarrow> Inl (Std_runtime_error ''Could not find reader_type'') | Some c \<Rightarrow> Inr c))"

definition edge_connector_register :: "nat \<Rightarrow> nat \<Rightarrow> edge_registry \<Rightarrow> edge_registry \<times> unit result" where
  "edge_connector_register src snk = register_converter src snk (Edge_converter src snk)"

definition identity_connector_register :: "nat \<Rightarrow> edge_registry \<Rightarrow> edge_registry \<times> unit result" where
  "identity_connector_register t = register_converter t t (Identity_converter t)"

definition ingress_for_source_type ::
    "('c, 't) channel_ops \<Rightarrow> edge_registry \<Rightarrow> nat \<Rightarrow> nat \<Rightarrow> nat \<Rightarrow> 'c sink_channel \<Rightarrow> (ingress_handle \<times> 'c sink_channel) result" where
  "ingress_for_source_type ops reg source_type sink_type obj sk =
     rbind (find_converter source_type sink_type reg) (\<lambda>converter_fn.
     rbind (channel_ingress ops sk) (\<lambda>sk. Inr (run_converter converter_fn (Sink_ingress sink_type obj), sk)))"

definition make_edge_typeless ::
    "('c, 't) channel_ops \<Rightarrow> edge_registry \<Rightarrow> nat \<Rightarrow> nat \<Rightarrow> source_channel \<times> 'c sink_channel
     \<Rightarrow> (source_channel \<times> 'c sink_channel) \<times> unit result" where
  "make_edge_typeless ops reg sink_type obj = (\<lambda>(so, sk).
     case ingress_for_source_type ops reg (so_type so) sink_type obj sk of
       Inl e \<Rightarrow> ((so, sk), Inl e)
     | Inr (edge, sk) \<Rightarrow>
         (case complete_edge (Some edge) so of
            Inl e \<Rightarrow> ((so, release_ingress ops sk), Inl e)
          | Inr so \<Rightarrow> ((so, sk), Inr ())))"


subsection \<open>Edges reach their sink\<close>

lemma has_converter_iff: "has_converter w r reg \<longleftrightarrow> is_ok (find_converter w r reg)"
  by (simp add: has_converter_def find_converter_def is_ok_def split: option.split)

lemma find_registered:
  assumes "register_converter w r c reg = (reg', res)"
  shows "find_converter w' r' reg' = (if w' = w \<and> r' = r then (if res = Inr () then Inr c else find_converter w r reg)
     else if w' = w \<and> smap_find reg w = None then Inl (Std_runtime_error ''Could not find reader_type'')
     else find_converter w' r' reg)"
    and "is_ok res \<longleftrightarrow> \<not> has_converter w r reg"
proof -
  show "find_converter w' r' reg' = (if w' = w \<and> r' = r then (if res = Inr () then Inr c else find_converter w r reg)
     else if w' = w \<and> smap_find reg w = None then Inl (Std_runtime_error ''Could not find reader_type'')
     else find_converter w' r' reg)"
  proof (cases "smap_find reg w")
    case None
    then show ?thesis using assms by (auto simp: register_converter_def readers_of_def find_converter_def Let_def)
  next
    case (Some m)
    then show ?thesis using assms
      by (cases "smap_find m r") (auto simp: register_converter_def readers_of_def find_converter_def Let_def)
  qed
  show "is_ok res \<longleftrightarrow> \<not> has_converter w r reg"
    using assms by (cases "smap_find reg w") (auto simp: register_converter_def readers_of_def has_converter_def is_ok_def Let_def split: if_splits)
qed

lemma make_edge_ok:
  assumes "make_edge ops cv allow src snk obj (so, sk) = ((so', sk'), Inr ())" and "so_type so = ct_id src"
  shows "\<exists>h. so_ingress so' = Some h \<and> handle_type h = ct_id src \<and> channel_ingress ops sk = Inr sk' \<and> \<not> has_channel so
     \<and> handle_write convert w h x s = w obj (if ct_id src = ct_id snk then x else convert (ct_id src) (ct_id snk) x) s"
  using assms
  by (auto simp: make_edge_def edge_for_def complete_edge_def split: sum.splits if_splits)

text \<open>A source that is already connected refuses the edge, and the refused edge was the only holder of an unused
  sink: its channel is closed.\<close>

lemma refused_edge_closes_sink:
  assumes "channel_impl ops" and "has_channel so" and "sk_holders sk = 0" and "ct_id src = ct_id snk"
    and "\<not> is_channel_closed ops (sk_channel sk)"
  shows "\<exists>sk' m. make_edge ops cv allow src snk obj (so, sk) = ((so, sk'), Inl (Srf_runtime_error m))
     \<and> is_channel_closed ops (sk_channel sk') \<and> sk_holders sk' = 0"
  using assms(2-5) channel_impl.close_channel_closed [OF assms(1)]
  by (simp add: make_edge_def edge_for_def channel_ingress_def complete_edge_def release_ingress_def)

subsection \<open>Narrowing\<close>

text \<open>The values of an integral type of the given size in bytes.\<close>

definition int_range :: "cpp_type \<Rightarrow> int set" where
  "int_range t = (if ct_signed t then {- (2 ^ (8 * ct_size t - 1)) ..< 2 ^ (8 * ct_size t - 1)} else {0 ..< 2 ^ (8 * ct_size t)})"

lemma pow_less_iff: "(2 :: int) ^ a \<le> 2 ^ b \<longleftrightarrow> a \<le> b"
  by simp

lemma signed_range_subset: "{- (2 ^ a) ..< (2 :: int) ^ a} \<subseteq> {- (2 ^ b) ..< 2 ^ b} \<longleftrightarrow> a \<le> b"
proof
  assume s: "{- (2 ^ a) ..< (2 :: int) ^ a} \<subseteq> {- (2 ^ b) ..< 2 ^ b}"
  have "- (2 ^ a) \<in> {- (2 ^ a) ..< (2 :: int) ^ a}" by simp
  then have "(2 :: int) ^ a \<le> 2 ^ b" using s by auto
  then show "a \<le> b" by simp
next
  assume "a \<le> b"
  then have "(2 :: int) ^ a \<le> 2 ^ b" by simp
  then show "{- (2 ^ a) ..< (2 :: int) ^ a} \<subseteq> {- (2 ^ b) ..< 2 ^ b}" by auto
qed

lemma unsigned_range_subset: "{0 ..< (2 :: int) ^ a} \<subseteq> {0 ..< 2 ^ b} \<longleftrightarrow> a \<le> b"
  by (simp add: ivl_subset)

lemma unsigned_signed_subset: "{0 ..< (2 :: int) ^ a} \<subseteq> {- (2 ^ b) ..< 2 ^ b} \<longleftrightarrow> a \<le> b"
  by (simp add: ivl_subset)

lemma signed_unsigned_subset: "\<not> {- (2 ^ a) ..< (2 :: int) ^ a} \<subseteq> {0 ..< 2 ^ b}"
  by (simp add: ivl_subset)

text \<open>Between two integral types the edge builder calls for a narrowing conversion exactly when some value of the
  source type does not fit the sink type.\<close>

lemma narrowing_exact:
  assumes "ct_integral src" and "ct_integral snk" and "\<not> ct_floating src" and "0 < ct_size src" and "0 < ct_size snk"
  shows "requires_narrowing True src snk \<longleftrightarrow> \<not> int_range src \<subseteq> int_range snk"
proof (cases "ct_signed src"; cases "ct_signed snk")
  assume "ct_signed src" "ct_signed snk"
  then show ?thesis using assms
    by (simp add: requires_narrowing_def narrowing_defs int_range_def signed_range_subset) arith
next
  assume "ct_signed src" "\<not> ct_signed snk"
  then show ?thesis by (simp add: requires_narrowing_def narrowing_defs int_range_def signed_unsigned_subset)
next
  assume "\<not> ct_signed src" "ct_signed snk"
  then show ?thesis using assms
    by (simp add: requires_narrowing_def narrowing_defs int_range_def unsigned_signed_subset) arith
next
  assume "\<not> ct_signed src" "\<not> ct_signed snk"
  then show ?thesis using assms
    by (simp add: requires_narrowing_def narrowing_defs int_range_def unsigned_range_subset) arith
qed

definition uint32_type :: cpp_type where
  "uint32_type = \<lparr>ct_id = 1, ct_size = 4, ct_floating = False, ct_integral = True, ct_signed = False\<rparr>"

definition int32_type :: cpp_type where
  "int32_type = \<lparr>ct_id = 2, ct_size = 4, ct_floating = False, ct_integral = True, ct_signed = True\<rparr>"

definition int64_type :: cpp_type where
  "int64_type = \<lparr>ct_id = 3, ct_size = 8, ct_floating = False, ct_integral = True, ct_signed = True\<rparr>"

lemma narrowing_exact_witness:
  "requires_narrowing True uint32_type int32_type \<and> \<not> int_range uint32_type \<subseteq> int_range int32_type
     \<and> \<not> requires_narrowing True uint32_type int64_type \<and> int_range uint32_type \<subseteq> int_range int64_type"
  using narrowing_exact [of uint32_type int32_type] narrowing_exact [of uint32_type int64_type]
  by (simp add: uint32_type_def int32_type_def int64_type_def requires_narrowing_def narrowing_defs)


end
