(* ===== verification/Operators.thy ===== *)
theory Operators
  imports Edges
begin

section \<open>Operators\<close>

text \<open>
  \<^verbatim>\<open>include/srf/node/operators\<close>: sinks without a channel, which pass a value on as soon as it is written. An
  operator hands out shared pointers to an ingress adaptor; the destructor of an adaptor completes the
  operator. The parameter \<open>wr\<close> of the writes is the write to an ingress.
\<close>

type_synonym ('t, 's) ingress_writer = "ingress_handle \<Rightarrow> 't \<Rightarrow> 's \<Rightarrow> 's \<times> status result"

subsection \<open>The base class\<close>

text \<open>\<open>op_adaptors\<close> holds the use counts of the live adaptors. The variable that \<^verbatim>\<open>channel_ingress\<close> assigns
  the new adaptor to is a local one of the name of the member, so the member stays empty.\<close>

record 'o operator =
  op_ingress :: "nat option"
  op_adaptors :: "(nat, nat) smap"
  op_next :: nat
  op_impl :: 'o

definition operator_new :: "'o \<Rightarrow> 'o operator" where
  "operator_new x = \<lparr>op_ingress = None, op_adaptors = [], op_next = 0, op_impl = x\<rparr>"

definition lock_adaptor :: "'o operator \<Rightarrow> (nat \<times> nat) option" where
  "lock_adaptor op = (case op_ingress op of
     None \<Rightarrow> None | Some a \<Rightarrow> map_option (\<lambda>n. (a, n)) (smap_find (op_adaptors op) a))"

definition operator_ingress :: "'o operator \<Rightarrow> 'o operator \<times> nat" where
  "operator_ingress op =
     (case lock_adaptor op of
        Some (a, n) \<Rightarrow> (op\<lparr>op_adaptors := smap_put a (Suc n) (op_adaptors op)\<rparr>, a)
      | None \<Rightarrow> (op\<lparr>op_adaptors := smap_put (op_next op) 1 (op_adaptors op), op_next := Suc (op_next op)\<rparr>, op_next op))"

definition operator_release :: "('o \<Rightarrow> 'o) \<Rightarrow> nat \<Rightarrow> 'o operator \<Rightarrow> 'o operator" where
  "operator_release on_complete a op =
     (case smap_find (op_adaptors op) a of
        None \<Rightarrow> op
      | Some n \<Rightarrow>
          if n \<le> 1 then op\<lparr>op_adaptors := smap_erase a (op_adaptors op), op_impl := on_complete (op_impl op)\<rparr>
          else op\<lparr>op_adaptors := smap_put a (n - 1) (op_adaptors op)\<rparr>)"

definition adaptor_await_write ::
    "('o \<Rightarrow> 't \<Rightarrow> 's \<Rightarrow> 's \<times> status result) \<Rightarrow> 'o operator \<Rightarrow> 't \<Rightarrow> 's \<Rightarrow> 's \<times> status result" where
  "adaptor_await_write on_next op data s = on_next (op_impl op) data s"

subsection \<open>Muxer\<close>

definition muxer_on_next :: "('t, 's) ingress_writer \<Rightarrow> source_channel \<Rightarrow> 't \<Rightarrow> 's \<Rightarrow> 's \<times> status result" where
  "muxer_on_next wr so data s = writeable_await_write wr so data s"

definition muxer_on_complete :: "source_channel \<Rightarrow> source_channel" where
  "muxer_on_complete so = release_channel so"

subsection \<open>Broadcast\<close>

record broadcast =
  bd_downstream_channels :: "source_channel list"
  bd_deep_copy :: bool

definition broadcast_new :: "bool \<Rightarrow> broadcast" where
  "broadcast_new deep_copy = \<lparr>bd_downstream_channels = [], bd_deep_copy = deep_copy\<rparr>"

definition broadcast_make_source :: "nat \<Rightarrow> broadcast \<Rightarrow> broadcast" where
  "broadcast_make_source t b = b\<lparr>bd_downstream_channels := bd_downstream_channels b @ [source_channel_new t]\<rparr>"

fun write_copies :: "('t, 's) ingress_writer \<Rightarrow> source_channel list \<Rightarrow> 't \<Rightarrow> 's \<Rightarrow> 's \<times> unit result" where
  "write_copies wr [] data s = (s, Inr ())"
| "write_copies wr (so # sos) data s =
     (case writeable_await_write wr so data s of
        (s, Inl e) \<Rightarrow> (s, Inl e)
      | (s, Inr st) \<Rightarrow>
          if st = St_success then write_copies wr sos data s
          else (s, Inl (Check_failed ''await_write == channel::Status::success'')))"

text \<open>\<open>clone\<close> copies the object behind a shared pointer; it is only used when the values are shared pointers.\<close>

definition broadcast_on_next ::
    "('t, 's) ingress_writer \<Rightarrow> ('t \<Rightarrow> 't) option \<Rightarrow> broadcast \<Rightarrow> 't \<Rightarrow> 's \<Rightarrow> 's \<times> status result" where
  "broadcast_on_next wr clone b data s =
     (let copy = (case clone of Some f \<Rightarrow> if bd_deep_copy b then f data else data | None \<Rightarrow> data)
      in case write_copies wr (drop 1 (bd_downstream_channels b)) copy s of
           (s, Inl e) \<Rightarrow> (s, Inl e)
         | (s, Inr _) \<Rightarrow>
             (case bd_downstream_channels b of
                [] \<Rightarrow> (s, Inl (Undefined_behaviour ''m_downstream_channels[0] of an empty vector''))
              | so # _ \<Rightarrow> writeable_await_write wr so data s))"

definition broadcast_on_complete :: "broadcast \<Rightarrow> broadcast" where
  "broadcast_on_complete b = b\<lparr>bd_downstream_channels := []\<rparr>"

subsection \<open>Router and conditional\<close>

type_synonym 'k router_base = "('k, source_channel) smap"

definition router_source :: "nat \<Rightarrow> 'k::linorder \<Rightarrow> 'k router_base \<Rightarrow> 'k router_base" where
  "router_source t key rt = (if smap_find rt key = None then smap_put key (source_channel_new t) rt else rt)"

definition channel_for_key :: "'k::linorder \<Rightarrow> 'k router_base \<Rightarrow> source_channel result" where
  "channel_for_key key rt =
     (case smap_find rt key of None \<Rightarrow> Inl (Srf_runtime_error ''unable to find edge for key'') | Some so \<Rightarrow> Inr so)"

definition has_edge :: "'k::linorder \<Rightarrow> 'k router_base \<Rightarrow> bool" where
  "has_edge key rt \<longleftrightarrow> smap_find rt key \<noteq> None"

definition drop_edge :: "'k::linorder \<Rightarrow> 'k router_base \<Rightarrow> 'k router_base" where
  "drop_edge key rt = (if smap_find rt key \<noteq> None then smap_erase key rt else rt)"

definition release_sources :: "'k router_base \<Rightarrow> 'k router_base" where
  "release_sources rt = []"

definition route ::
    "('t, 's) ingress_writer \<Rightarrow> 'k::linorder \<Rightarrow> 'k router_base \<Rightarrow> 't \<Rightarrow> 's \<Rightarrow> 's \<times> status result" where
  "route wr key rt data s =
     (case channel_for_key key rt of Inl e \<Rightarrow> (s, Inl e) | Inr so \<Rightarrow> writeable_await_write wr so data s)"

definition router_on_next ::
    "('t, 's) ingress_writer \<Rightarrow> 'k::linorder router_base \<Rightarrow> 'k \<times> 't \<Rightarrow> 's \<Rightarrow> 's \<times> status result" where
  "router_on_next wr rt tagged_data s = route wr (fst tagged_data) rt (snd tagged_data) s"

definition conditional_on_next ::
    "('t, 's) ingress_writer \<Rightarrow> ('t \<Rightarrow> 'k::linorder) \<Rightarrow> 'k router_base \<Rightarrow> 't \<Rightarrow> 's \<Rightarrow> 's \<times> status result" where
  "conditional_on_next wr predicate rt data s = route wr (predicate data) rt data s"

subsection \<open>Where values go\<close>

text \<open>The writes of a run, recorded in order by sinks that take every value.\<close>

definition recording :: "('t, (ingress_handle \<times> 't) list) ingress_writer" where
  "recording h data log = (log @ [(h, data)], Inr St_success)"

lemma write_copies_all:
  "list_all (\<lambda>(so, h). so_ingress so = Some h) (zip sos hs) \<Longrightarrow> length sos = length hs \<Longrightarrow>
   write_copies recording sos data log = (log @ map (\<lambda>h. (h, data)) hs, Inr ())"
  by (induction sos hs arbitrary: log rule: list_induct2') (simp_all add: writeable_await_write_def recording_def)

text \<open>A broadcast reaches every connected source exactly once, the first one last.\<close>

lemma broadcast_reaches_all:
  assumes "bd_downstream_channels b = so # sos" and "so_ingress so = Some h"
    and "list_all (\<lambda>(so, h). so_ingress so = Some h) (zip sos hs)" and "length sos = length hs"
  shows "broadcast_on_next recording None b data log = (log @ map (\<lambda>h. (h, data)) hs @ [(h, data)], Inr St_success)"
  using assms by (simp add: broadcast_on_next_def write_copies_all [OF assms(3,4)] writeable_await_write_def recording_def)

lemma route_known:
  "smap_find rt key = Some so \<Longrightarrow> so_ingress so = Some h \<Longrightarrow> route recording key rt data log = (log @ [(h, data)], Inr St_success)"
  by (simp add: route_def channel_for_key_def writeable_await_write_def recording_def)

lemma route_unknown: "\<not> has_edge key rt \<Longrightarrow> snd (route wr key rt data s) = Inl (Srf_runtime_error ''unable to find edge for key'')"
  by (simp add: route_def channel_for_key_def has_edge_def)

lemma has_edge_source: "has_edge k (router_source t key rt) \<longleftrightarrow> k = key \<or> has_edge k rt"
  by (auto simp: has_edge_def router_source_def)

lemma has_edge_drop: "has_edge k (drop_edge key rt) \<longleftrightarrow> k \<noteq> key \<and> has_edge k rt"
  by (auto simp: has_edge_def drop_edge_def)

subsection \<open>Completion of an operator\<close>

text \<open>Every call makes an adaptor of its own, because the member is never set.\<close>

lemma operator_ingress_fresh:
  "op_ingress op = None \<Longrightarrow> operator_ingress op =
     (op\<lparr>op_adaptors := smap_put (op_next op) 1 (op_adaptors op), op_next := Suc (op_next op)\<rparr>, op_next op)"
  by (simp add: operator_ingress_def lock_adaptor_def)

text \<open>C32. A muxer with two upstream edges is completed by the first of them to go away, although the other one still
  holds an ingress: what is written through that one afterwards is reported as a success and reaches
  nobody. The comment in the base class says that only the last adaptor completes the operator.\<close>

theorem muxer_completes_early:
  assumes "operator_ingress (operator_new so) = (op1, a1)" and "operator_ingress op1 = (op2, a2)"
  shows "op_impl op2 = so
     \<and> (let op3 = operator_release muxer_on_complete a1 op2
        in smap_find (op_adaptors op3) a2 = Some 1 \<and> \<not> has_channel (op_impl op3)
           \<and> adaptor_await_write (muxer_on_next wr) op3 data s = (s, Inr St_success))"
  using assms
  by (auto simp: operator_new_def operator_ingress_def lock_adaptor_def operator_release_def Let_def muxer_on_complete_def
      release_channel_def has_channel_def adaptor_await_write_def muxer_on_next_def writeable_await_write_def)

theorem muxer_completes_early_witness:
  "\<exists>op3. op3 = operator_release muxer_on_complete 0
       (fst (operator_ingress (fst (operator_ingress (operator_new \<lparr>so_type = 7, so_ingress = Some (Sink_ingress 7 0)\<rparr>)))))
     \<and> smap_find (op_adaptors op3) 1 = Some 1
     \<and> adaptor_await_write (muxer_on_next recording) op3 (5 :: nat) [] = ([], Inr St_success)"
proof -
  let ?so = "\<lparr>so_type = 7, so_ingress = Some (Sink_ingress 7 0)\<rparr>"
  have 1: "operator_ingress (operator_new ?so) = (fst (operator_ingress (operator_new ?so)), 0)"
    by (simp add: operator_new_def operator_ingress_def lock_adaptor_def)
  have 2: "operator_ingress (fst (operator_ingress (operator_new ?so))) = (fst (operator_ingress (fst (operator_ingress (operator_new ?so)))), 1)"
    by (simp add: operator_new_def operator_ingress_def lock_adaptor_def)
  show ?thesis using muxer_completes_early [OF 1 2, of recording "5 :: nat" "[]"] by (simp add: Let_def)
qed

end
