(* ===== verification/Memory_Blocks.thy ===== *)
theory Memory_Blocks
  imports Prelude
begin

section \<open>Memory blocks, buffers and blobs\<close>

text \<open>
  \<^verbatim>\<open>include/srf/memory\<close>: address ranges and the manager that finds the range an address lies in, the views
  of memory with a kind, buffers that own an allocation of a memory resource, and blobs that share one.
  Addresses are natural numbers below \<open>2 ^ 64\<close> and 0 is the null pointer. A memory resource is a
  parameter: its state and the two calls on it.
\<close>

subsection \<open>Address ranges\<close>

record memory_block =
  mb_data :: nat
  mb_bytes :: nat

definition mb_contains :: "memory_block \<Rightarrow> nat \<Rightarrow> bool" where
  "mb_contains b ptr \<longleftrightarrow> (let s = mb_data b; e = add_sz s (mb_bytes b) in mb_data b \<noteq> 0 \<and> s \<le> ptr \<and> ptr < e)"

definition mb_distance :: "memory_block \<Rightarrow> nat \<Rightarrow> nat result" where
  "mb_distance b ptr =
     (if \<not> mb_contains b ptr then Inl (Std_runtime_error ''cannot compute distance - ptr not owned by block'')
      else Inr (sub_sz ptr (mb_data b)))"

definition mb_offset :: "memory_block \<Rightarrow> nat \<Rightarrow> nat" where
  "mb_offset b distance = (if distance > mb_bytes b then 0 else add_sz (mb_data b) distance)"

definition compare_size :: "memory_block \<Rightarrow> memory_block \<Rightarrow> bool" where
  "compare_size lhs rhs \<longleftrightarrow> mb_bytes lhs < mb_bytes rhs \<or> (mb_bytes lhs = mb_bytes rhs \<and> mb_data lhs < mb_data rhs)"

definition compare_addr :: "memory_block \<Rightarrow> memory_block \<Rightarrow> bool" where
  "compare_addr lhs rhs \<longleftrightarrow> mb_data lhs < mb_data rhs"

subsection \<open>The block manager\<close>

text \<open>The blocks by the address one past their end.\<close>

type_synonym block_manager = "(nat, memory_block) smap"

definition add_block :: "memory_block \<Rightarrow> block_manager \<Rightarrow> block_manager" where
  "add_block block m = smap_put (add_sz (mb_data block) (mb_bytes block)) block m"

definition find_entry :: "nat \<Rightarrow> block_manager \<Rightarrow> (nat \<times> memory_block) option" where
  "find_entry ptr m = smap_upper_bound ptr m"

definition find_block :: "nat \<Rightarrow> block_manager \<Rightarrow> memory_block option" where
  "find_block ptr m =
     (case find_entry ptr m of None \<Rightarrow> None | Some (k, b) \<Rightarrow> if mb_contains b ptr then Some b else None)"

definition drop_block :: "nat \<Rightarrow> block_manager \<Rightarrow> block_manager" where
  "drop_block ptr m =
     (case find_entry ptr m of None \<Rightarrow> m | Some (k, b) \<Rightarrow> if mb_contains b ptr then smap_erase k m else m)"

definition bm_owns :: "nat \<Rightarrow> block_manager \<Rightarrow> bool" where
  "bm_owns addr m = (case find_block addr m of None \<Rightarrow> False | Some b \<Rightarrow> mb_contains b addr)"

definition bm_size :: "block_manager \<Rightarrow> nat" where
  "bm_size m = length m"

definition bm_clear :: "block_manager \<Rightarrow> block_manager" where
  "bm_clear m = []"

definition mb_valid :: "memory_block \<Rightarrow> bool" where
  "mb_valid b \<longleftrightarrow> mb_data b \<noteq> 0 \<and> 0 < mb_bytes b \<and> mb_data b + mb_bytes b < 2 ^ 64"

definition mb_disjoint :: "memory_block \<Rightarrow> memory_block \<Rightarrow> bool" where
  "mb_disjoint a b \<longleftrightarrow> mb_data a + mb_bytes a \<le> mb_data b \<or> mb_data b + mb_bytes b \<le> mb_data a"

definition bm_ok :: "block_manager \<Rightarrow> bool" where
  "bm_ok m \<longleftrightarrow> smap_ok m \<and> (\<forall>(k, b) \<in> set m. mb_valid b \<and> k = mb_data b + mb_bytes b)
     \<and> (\<forall>(k, b) \<in> set m. \<forall>(k', b') \<in> set m. k \<noteq> k' \<longrightarrow> mb_disjoint b b')"

lemma contains_valid: "mb_valid b \<Longrightarrow> mb_contains b p \<longleftrightarrow> mb_data b \<le> p \<and> p < mb_data b + mb_bytes b"
  by (auto simp: mb_valid_def mb_contains_def Let_def)

lemma offset_distance:
  "mb_valid b \<Longrightarrow> mb_contains b p \<Longrightarrow> \<exists>d. mb_distance b p = Inr d \<and> mb_offset b d = p"
  by (auto simp: mb_distance_def mb_offset_def contains_valid mb_valid_def)

lemma find_first:
  "smap_ok m \<Longrightarrow> (k, b) \<in> set m \<Longrightarrow> p < k \<Longrightarrow> \<exists>k' b'. smap_upper_bound p m = Some (k', b') \<and> (k', b') \<in> set m \<and> p < k' \<and> k' \<le> k"
proof (induction m)
  case (Cons x m)
  obtain k0 b0 where x: "x = (k0, b0)" by force
  show ?case
  proof (cases "p < k0")
    case True
    then have "smap_upper_bound p (x # m) = Some (k0, b0)" by (simp add: smap_upper_bound_def x)
    moreover have "k0 \<le> k" using Cons.prems(1,2) by (force simp: x)
    ultimately show ?thesis using True by (auto simp: x)
  next
    case False
    then have "(k, b) \<in> set m" "smap_upper_bound p (x # m) = smap_upper_bound p m"
      using Cons.prems by (auto simp: smap_upper_bound_def x)
    then show ?thesis using Cons.IH Cons.prems by (auto simp: x)
  qed
qed simp

lemma bm_ok_distinct: "bm_ok m \<Longrightarrow> distinct (map fst m)"
  by (simp add: bm_ok_def smap_ok_distinct)

text \<open>The range that ends first after an address is the only one that can contain it.\<close>

lemma find_entry_iff:
  assumes "bm_ok m" and "mb_contains b p"
  shows "find_entry p m = Some (k, b) \<longleftrightarrow> (k, b) \<in> set m"
proof
  assume "find_entry p m = Some (k, b)"
  then show "(k, b) \<in> set m" by (auto simp: find_entry_def smap_upper_bound_def dest: find_eq_SomeD)
next
  assume kb: "(k, b) \<in> set m"
  have v: "mb_valid b" "k = mb_data b + mb_bytes b" using assms(1) kb by (auto simp: bm_ok_def)
  then have p: "mb_data b \<le> p" "p < k" using assms(2) by (auto simp: contains_valid)
  obtain k' b' where f: "smap_upper_bound p m = Some (k', b')" "(k', b') \<in> set m" "p < k'" "k' \<le> k"
    using find_first [of m k b p] assms(1) kb p(2) by (auto simp: bm_ok_def)
  have v': "mb_valid b'" "k' = mb_data b' + mb_bytes b'" using assms(1) f(2) by (auto simp: bm_ok_def)
  have "k' = k"
  proof (rule ccontr)
    assume ne: "k' \<noteq> k"
    have all: "\<forall>x \<in> set m. \<forall>y \<in> set m. fst x \<noteq> fst y \<longrightarrow> mb_disjoint (snd x) (snd y)"
      using assms(1) unfolding bm_ok_def by (simp add: case_prod_unfold)
    from bspec [OF bspec [OF all f(2)] kb] have "mb_disjoint b' b" using ne by simp
    then show False using v v' p f(3,4) ne by (auto simp: mb_disjoint_def mb_valid_def)
  qed
  moreover have "b' = b" by (rule eq_key_imp_eq_value [OF bm_ok_distinct [OF assms(1)] f(2) [unfolded \<open>k' = k\<close>] kb])
  ultimately show "find_entry p m = Some (k, b)" using f(1) by (simp add: find_entry_def)
qed

lemma find_block_iff:
  assumes "bm_ok m"
  shows "find_block p m = Some b \<longleftrightarrow> b \<in> snd ` set m \<and> mb_contains b p"
proof
  assume "find_block p m = Some b"
  then obtain k where "find_entry p m = Some (k, b)" "mb_contains b p"
    by (auto simp: find_block_def split: option.splits if_splits)
  then show "b \<in> snd ` set m \<and> mb_contains b p" using find_entry_iff [OF assms, of b p k] by force
next
  assume "b \<in> snd ` set m \<and> mb_contains b p"
  then obtain k where "(k, b) \<in> set m" "mb_contains b p" by force
  then show "find_block p m = Some b" using find_entry_iff [OF assms, of b p k] by (simp add: find_block_def)
qed

lemma add_block_ok:
  assumes "bm_ok m" and "mb_valid b" and "\<forall>c \<in> snd ` set m. mb_disjoint b c"
  shows "bm_ok (add_block b m)" and "set (add_block b m) = insert (mb_data b + mb_bytes b, b) (set m)"
proof -
  let ?k = "mb_data b + mb_bytes b"
  have k: "add_sz (mb_data b) (mb_bytes b) = ?k" using assms(2) by (simp add: mb_valid_def)
  have fresh: "?k \<notin> fst ` set m"
  proof
    assume "?k \<in> fst ` set m"
    then obtain c where c: "(?k, c) \<in> set m" by force
    then have "mb_valid c" "?k = mb_data c + mb_bytes c" using assms(1) by (auto simp: bm_ok_def)
    moreover have "mb_disjoint b c" using assms(3) c by force
    ultimately show False using assms(2) by (auto simp: mb_disjoint_def mb_valid_def)
  qed
  have "set (smap_put k b m) = insert (k, b) (set m)" if "k \<notin> fst ` set m" for k
    using that by (induction k b m rule: smap_put.induct) auto
  then show set: "set (add_block b m) = insert (?k, b) (set m)" using fresh by (simp add: add_block_def k)
  have sym: "\<forall>c \<in> snd ` set m. mb_disjoint c b" using assms(3) by (auto simp: mb_disjoint_def)
  have "smap_ok (add_block b m)" using assms(1) by (simp add: add_block_def bm_ok_def)
  moreover have "\<forall>(k, c) \<in> insert (?k, b) (set m). mb_valid c \<and> k = mb_data c + mb_bytes c"
    using assms(1,2) by (simp add: bm_ok_def)
  moreover have "\<forall>(k, c) \<in> insert (?k, b) (set m). \<forall>(k', c') \<in> insert (?k, b) (set m). k \<noteq> k' \<longrightarrow> mb_disjoint c c'"
    using assms(1,3) sym unfolding bm_ok_def by fastforce
  ultimately show "bm_ok (add_block b m)" unfolding bm_ok_def set by simp
qed

lemma drop_block_ok:
  assumes "bm_ok m"
  shows "bm_ok (drop_block q m)" and "set (drop_block q m) = {(k, b) \<in> set m. \<not> mb_contains b q}"
proof -
  show set: "set (drop_block q m) = {(k, b) \<in> set m. \<not> mb_contains b q}"
  proof (cases "\<exists>k b. (k, b) \<in> set m \<and> mb_contains b q")
    case True
    then obtain k b where kb: "(k, b) \<in> set m" "mb_contains b q" by blast
    have e: "find_entry q m = Some (k, b)" using find_entry_iff [OF assms kb(2)] kb(1) by simp
    have same: "k' = k \<and> b' = b" if "(k', b') \<in> set m" "mb_contains b' q" for k' b'
    proof -
      have "find_entry q m = Some (k', b')" using find_entry_iff [OF assms that(2)] that(1) by blast
      then show ?thesis using e by simp
    qed
    have "b' = b" if "(k, b') \<in> set m" for b' by (rule eq_key_imp_eq_value [OF bm_ok_distinct [OF assms] that kb(1)])
    then have "fst x \<noteq> k \<longleftrightarrow> \<not> mb_contains (snd x) q" if "x \<in> set m" for x
      using same [of "fst x" "snd x"] kb(2) that by (metis prod.collapse)
    then have "{x \<in> set m. fst x \<noteq> k} = {(k, b) \<in> set m. \<not> mb_contains b q}" by fastforce
    then show ?thesis using kb(2) by (simp add: drop_block_def e set_smap_erase)
  next
    case False
    then have "drop_block q m = m"
      by (auto simp: drop_block_def find_entry_def smap_upper_bound_def split: option.splits dest!: find_eq_SomeD)
    then show ?thesis using False by auto
  qed
  have "smap_ok (drop_block q m)" using assms by (auto simp: drop_block_def bm_ok_def split: option.splits)
  moreover have "{(k, b) \<in> set m. \<not> mb_contains b q} \<subseteq> set m" by blast
  ultimately show "bm_ok (drop_block q m)" using assms unfolding bm_ok_def set by blast
qed

lemma option_eqI: "(\<And>c. x = Some c \<longleftrightarrow> y = Some c) \<Longrightarrow> x = y"
  by (cases x; cases y) auto

text \<open>The block manager is a lookup structure for disjoint address ranges: after a block is added, an address
  in it finds it and every other address finds what it found before; after a block is dropped by any of its
  addresses, its addresses find nothing and the others find what they found before.\<close>

lemma block_manager_lookup:
  assumes "bm_ok m" and "mb_valid b" and "\<forall>c \<in> snd ` set m. mb_disjoint b c"
  shows "bm_ok (add_block b m) \<and> find_block p (add_block b m) = (if mb_contains b p then Some b else find_block p m)
     \<and> bm_ok (drop_block q m)
     \<and> find_block p (drop_block q m) = (if \<exists>c. find_block p m = Some c \<and> mb_contains c q then None else find_block p m)"
proof -
  have a: "find_block p (add_block b m) = Some c \<longleftrightarrow> (c = b \<or> c \<in> snd ` set m) \<and> mb_contains c p" for c
    using find_block_iff [OF add_block_ok(1) [OF assms], of p c] by (simp add: add_block_ok(2) [OF assms])
  have img: "c \<in> snd ` set (drop_block q m) \<longleftrightarrow> c \<in> snd ` set m \<and> \<not> mb_contains c q" for c
    unfolding drop_block_ok(2) [OF assms(1)] by force
  have d: "find_block p (drop_block q m) = Some c \<longleftrightarrow> find_block p m = Some c \<and> \<not> mb_contains c q" for c
    using find_block_iff [OF drop_block_ok(1) [OF assms(1)], of p q c] find_block_iff [OF assms(1), of p c]
    unfolding img by (simp only: conj_ac)
  have "find_block p (add_block b m) = find_block p m" if "\<not> mb_contains b p"
  proof (rule option_eqI)
    fix c
    show "find_block p (add_block b m) = Some c \<longleftrightarrow> find_block p m = Some c"
      unfolding a find_block_iff [OF assms(1)] using that by (cases "c = b") simp_all
  qed
  then have "find_block p (add_block b m) = (if mb_contains b p then Some b else find_block p m)" using a [of b] by simp
  moreover have "find_block p (drop_block q m) = (if \<exists>c. find_block p m = Some c \<and> mb_contains c q then None else find_block p m)"
  proof (rule option_eqI)
    fix c
    show "find_block p (drop_block q m) = Some c \<longleftrightarrow>
        (if \<exists>c. find_block p m = Some c \<and> mb_contains c q then None else find_block p m) = Some c"
      unfolding d by (cases "find_block p m") auto
  qed
  ultimately show ?thesis using add_block_ok(1) [OF assms] drop_block_ok(1) [OF assms(1)] by simp
qed

lemma block_manager_lookup_witness:
  "find_block 150 (add_block \<lparr>mb_data = 128, mb_bytes = 64\<rparr> [(100, \<lparr>mb_data = 64, mb_bytes = 36\<rparr>)]) = Some \<lparr>mb_data = 128, mb_bytes = 64\<rparr>
   \<and> find_block 70 (add_block \<lparr>mb_data = 128, mb_bytes = 64\<rparr> [(100, \<lparr>mb_data = 64, mb_bytes = 36\<rparr>)]) = Some \<lparr>mb_data = 64, mb_bytes = 36\<rparr>"
proof -
  let ?m = "[(100, \<lparr>mb_data = 64, mb_bytes = 36\<rparr>)]" and ?b = "\<lparr>mb_data = 128, mb_bytes = 64\<rparr>"
  have ok: "bm_ok ?m" "mb_valid ?b" "\<forall>c \<in> snd ` set ?m. mb_disjoint ?b c"
    by (simp_all add: bm_ok_def mb_valid_def mb_disjoint_def)
  have "find_block 70 ?m = Some \<lparr>mb_data = 64, mb_bytes = 36\<rparr>"
    by (simp add: find_block_def find_entry_def smap_upper_bound_def mb_contains_def add_sz_def)
  then show ?thesis
    using block_manager_lookup [OF ok, of 150 0] block_manager_lookup [OF ok, of 70 0] by (simp add: mb_contains_def add_sz_def)
qed


subsection \<open>Memory resources\<close>

datatype memory_kind = MK_none | MK_host | MK_pinned | MK_device | MK_managed

text \<open>The tags of a memory resource: its own comes last, after those of the resources below it.\<close>

definition resource_new :: "string \<Rightarrow> string list" where
  "resource_new tag = [tag]"

definition add_tag :: "string \<Rightarrow> string list \<Rightarrow> string list" where
  "add_tag tag tags = tag # tags"

definition add_tags :: "string list \<Rightarrow> string list \<Rightarrow> string list" where
  "add_tags new_tags tags = new_tags @ tags"

definition resource_tag :: "string list \<Rightarrow> string" where
  "resource_tag tags = tags ! (length tags - 1)"

definition upstream_resource_new :: "string list \<Rightarrow> string \<Rightarrow> string list" where
  "upstream_resource_new upstream tag = add_tags upstream (resource_new tag)"

lemma upstream_tags:
  "upstream_resource_new upstream tag = upstream @ [tag] \<and> resource_tag (upstream_resource_new upstream tag) = tag"
  by (simp add: upstream_resource_new_def add_tags_def resource_new_def resource_tag_def)

text \<open>The calls of a resource on its state. The view that buffers hold passes them on.\<close>

record 'm resource_view =
  rv_allocate :: "nat \<Rightarrow> nat \<Rightarrow> 'm \<Rightarrow> 'm \<times> nat result"
  rv_deallocate :: "nat \<Rightarrow> nat \<Rightarrow> nat \<Rightarrow> 'm \<Rightarrow> 'm"
  rv_kind :: memory_kind

definition max_align :: nat where
  "max_align = 16"

definition view_allocate :: "'m resource_view \<Rightarrow> nat \<Rightarrow> 'm \<Rightarrow> 'm \<times> nat result" where
  "view_allocate v bytes m = rv_allocate v bytes max_align m"

definition view_deallocate :: "'m resource_view \<Rightarrow> nat \<Rightarrow> nat \<Rightarrow> 'm \<Rightarrow> 'm" where
  "view_deallocate v ptr bytes m = rv_deallocate v ptr bytes max_align m"

subsection \<open>Buffers\<close>

record 'm buffer =
  bf_view :: "'m resource_view"
  bf_bytes :: nat
  bf_buffer :: nat

definition buffer_new :: "nat \<Rightarrow> 'm resource_view \<Rightarrow> 'm \<Rightarrow> 'm \<times> 'm buffer result" where
  "buffer_new bytes v m =
     (case view_allocate v bytes m of
        (m, Inl e) \<Rightarrow> (m, Inl e)
      | (m, Inr p) \<Rightarrow> (m, Inr \<lparr>bf_view = v, bf_bytes = bytes, bf_buffer = p\<rparr>))"

definition buffer_release :: "'m buffer \<Rightarrow> 'm \<Rightarrow> 'm \<times> 'm buffer" where
  "buffer_release b m =
     (if bf_buffer b \<noteq> 0
      then (view_deallocate (bf_view b) (bf_buffer b) (bf_bytes b) m, b\<lparr>bf_buffer := 0, bf_bytes := 0\<rparr>)
      else (m, b))"

text \<open>Both moves take the allocation out of the other buffer. The assignment does not release the one it
  replaces.\<close>

definition buffer_move :: "'m buffer \<Rightarrow> 'm buffer \<times> 'm buffer" where
  "buffer_move other = (other, other\<lparr>bf_bytes := 0, bf_buffer := 0\<rparr>)"

definition buffer_move_assign :: "'m buffer \<Rightarrow> 'm buffer \<Rightarrow> 'm buffer \<times> 'm buffer" where
  "buffer_move_assign this other =
     (this\<lparr>bf_view := bf_view other, bf_bytes := bf_bytes other, bf_buffer := bf_buffer other\<rparr>,
      other\<lparr>bf_bytes := 0, bf_buffer := 0\<rparr>)"

definition buffer_bool :: "'m buffer \<Rightarrow> bool" where
  "buffer_bool b \<longleftrightarrow> bf_buffer b \<noteq> 0 \<and> bf_bytes b \<noteq> 0"

definition buffer_empty :: "'m buffer \<Rightarrow> bool" where
  "buffer_empty b \<longleftrightarrow> \<not> buffer_bool b"

text \<open>A resource that counts: its state is the list of the live allocations and the next address.\<close>

definition counting_view :: "((nat \<times> nat) list \<times> nat) resource_view" where
  "counting_view =
     \<lparr>rv_allocate = (\<lambda>bytes align (live, next). ((live @ [(next, bytes)], next + bytes + 1), Inr next)),
      rv_deallocate = (\<lambda>ptr bytes align (live, next). (remove1 (ptr, bytes) live, next)),
      rv_kind = MK_host\<rparr>"

text \<open>Releasing twice is releasing once, and a buffer whose allocation was moved away releases nothing.\<close>

lemma buffer_release_twice: "buffer_release b m = (m', b') \<Longrightarrow> buffer_release b' m' = (m', b')"
  by (auto simp: buffer_release_def split: if_splits)

lemma buffer_moved_release: "buffer_move b = (b', old) \<Longrightarrow> buffer_release old m = (m, old) \<and> b' = b"
  by (auto simp: buffer_move_def buffer_release_def)

lemma buffer_roundtrip:
  assumes "buffer_new n counting_view (live, next) = (m, Inr b)" and "0 < next" and "(next, n) \<notin> set live"
  shows "buffer_release b m = ((live, next + n + 1), b\<lparr>bf_buffer := 0, bf_bytes := 0\<rparr>)"
  using assms by (auto simp: buffer_new_def view_allocate_def counting_view_def buffer_release_def view_deallocate_def remove1_append)

text \<open>The allocation that a move assignment overwrites stays live when both buffers are gone.\<close>

lemma buffer_assign_leaks:
  assumes "buffer_new n counting_view ([], 1) = (m1, Inr a)" and "buffer_new k counting_view m1 = (m2, Inr b)"
    and "buffer_move_assign a b = (a', b')" and "buffer_release a' m2 = (m3, a2)" and "buffer_release b' m3 = (m4, b2)"
  shows "fst m4 = [(1, n)]"
  using assms by (auto simp: buffer_new_def view_allocate_def counting_view_def buffer_release_def view_deallocate_def
      buffer_move_assign_def split: if_splits)

subsection \<open>Blobs and views of memory\<close>

type_synonym 'm blob = "'m buffer option"

definition blob_data :: "'m blob \<Rightarrow> nat" where
  "blob_data b = (case b of None \<Rightarrow> 0 | Some s \<Rightarrow> bf_buffer s)"

definition blob_bytes :: "'m blob \<Rightarrow> nat" where
  "blob_bytes b = (case b of None \<Rightarrow> 0 | Some s \<Rightarrow> bf_bytes s)"

definition blob_kind :: "'m blob \<Rightarrow> memory_kind" where
  "blob_kind b = (case b of None \<Rightarrow> MK_none | Some s \<Rightarrow> rv_kind (bf_view s))"

definition blob_bool :: "'m blob \<Rightarrow> bool" where
  "blob_bool b = (case b of None \<Rightarrow> False | Some s \<Rightarrow> bf_buffer s \<noteq> 0 \<and> bf_bytes s \<noteq> 0)"

definition blob_allocate :: "nat \<Rightarrow> 'm blob \<Rightarrow> 'm \<Rightarrow> 'm \<times> 'm blob result" where
  "blob_allocate bytes b m =
     (case b of
        None \<Rightarrow> (m, Inl (Undefined_behaviour ''null m_storage''))
      | Some s \<Rightarrow> (case buffer_new bytes (bf_view s) m of (m, Inl e) \<Rightarrow> (m, Inl e) | (m, Inr x) \<Rightarrow> (m, Inr (Some x))))"

record const_block =
  cb_data :: nat
  cb_bytes :: nat
  cb_kind :: memory_kind

definition cb_bool :: "const_block \<Rightarrow> bool" where
  "cb_bool b \<longleftrightarrow> cb_data b \<noteq> 0 \<and> cb_bytes b \<noteq> 0 \<and> cb_kind b \<noteq> MK_none"

definition cb_empty :: "const_block \<Rightarrow> bool" where
  "cb_empty b \<longleftrightarrow> \<not> cb_bool b"

definition const_block_of_blob :: "'m blob \<Rightarrow> const_block result" where
  "const_block_of_blob b =
     (let cb = \<lparr>cb_data = blob_data b, cb_bytes = blob_bytes b, cb_kind = blob_kind b\<rparr>
      in if cb_bool cb then Inr cb else Inl (Check_failed ''operator bool()''))"

definition const_block_of_buffer :: "'m buffer \<Rightarrow> const_block result" where
  "const_block_of_buffer b = const_block_of_blob (Some b)"

subsection \<open>Bytes\<close>

type_synonym memory = "nat \<Rightarrow> 8 word"

definition read_bytes :: "memory \<Rightarrow> nat \<Rightarrow> nat \<Rightarrow> 8 word list" where
  "read_bytes mem a n = map mem [a ..< a + n]"

definition write_bytes :: "nat \<Rightarrow> 8 word list \<Rightarrow> memory \<Rightarrow> memory" where
  "write_bytes a xs mem = (\<lambda>i. if a \<le> i \<and> i < a + length xs then xs ! (i - a) else mem i)"

definition memcpy :: "nat \<Rightarrow> nat \<Rightarrow> nat \<Rightarrow> memory \<Rightarrow> memory" where
  "memcpy dst src n mem = write_bytes dst (read_bytes mem src n) mem"

lemma length_read_bytes [simp]: "length (read_bytes mem a n) = n"
  by (simp add: read_bytes_def)

lemma read_write_bytes [simp]: "read_bytes (write_bytes a xs mem) a (length xs) = xs"
  by (rule nth_equalityI) (simp_all add: read_bytes_def write_bytes_def)

lemma read_write_other: "a + n \<le> b \<or> b + length xs \<le> a \<Longrightarrow> read_bytes (write_bytes b xs mem) a n = read_bytes mem a n"
  by (rule nth_equalityI) (auto simp: read_bytes_def write_bytes_def)

text \<open>The copies between blobs and between host buffers.\<close>

definition blob_copy :: "'m blob \<Rightarrow> 'm blob \<Rightarrow> nat \<Rightarrow> memory \<Rightarrow> memory result" where
  "blob_copy dst src bytes mem =
     (if blob_kind src = MK_host \<or> blob_kind dst = MK_host
      then if blob_kind src = blob_kind dst then Inr (memcpy (blob_data dst) (blob_data src) bytes mem)
           else Inl (Std_runtime_error ''buffered host_memory copies are not implemented'')
      else Inl (Std_runtime_error ''synchronous cuda memory copies are not implemented''))"

definition buffer_copy :: "'m buffer \<Rightarrow> 'm buffer \<Rightarrow> nat \<Rightarrow> memory \<Rightarrow> memory result" where
  "buffer_copy dst src bytes mem =
     rbind (rcheck (bytes \<le> bf_bytes dst) ''bytes <= dst.bytes()'') (\<lambda>_.
     rbind (rcheck (bytes \<le> bf_bytes src) ''bytes <= src.bytes()'') (\<lambda>_.
       Inr (memcpy (bf_buffer dst) (bf_buffer src) bytes mem)))"

lemma buffer_copy_ok:
  assumes "buffer_copy dst src n mem = Inr mem'"
  shows "n \<le> bf_bytes dst \<and> n \<le> bf_bytes src \<and> read_bytes mem' (bf_buffer dst) n = read_bytes mem (bf_buffer src) n"
  using assms read_write_bytes [of "bf_buffer dst" "read_bytes mem (bf_buffer src) n"]
  by (auto simp: buffer_copy_def rbind_eq_Inr rcheck_def memcpy_def split: if_splits)


end
