(* ===== verification/Codable.thy ===== *)
theory Codable
  imports Memory_Blocks
begin

section \<open>Encoded objects\<close>

text \<open>
  \<^verbatim>\<open>include/srf/codable\<close>: an encoded object is a list of descriptors (bytes sent along, a range of memory to be
  fetched, meta data) and a list of objects with the index of their first descriptor. The generated
  protobuf classes are the records and lists they carry; access to a repeated field out of range is fatal.
\<close>

datatype proto_kind = PK_Host | PK_Pinned | PK_Device | PK_Managed | PK_None

definition decode_memory_type :: "proto_kind \<Rightarrow> memory_kind result" where
  "decode_memory_type k = (case k of
     PK_Host \<Rightarrow> Inr MK_host | PK_Pinned \<Rightarrow> Inr MK_pinned | PK_Device \<Rightarrow> Inr MK_device | PK_Managed \<Rightarrow> Inr MK_managed
   | PK_None \<Rightarrow> Inl (Fatal ''unhandled protos::MemoryKind''))"

definition encode_memory_type :: "memory_kind \<Rightarrow> proto_kind result" where
  "encode_memory_type k = (case k of
     MK_host \<Rightarrow> Inr PK_Host | MK_pinned \<Rightarrow> Inr PK_Pinned | MK_device \<Rightarrow> Inr PK_Device | MK_managed \<Rightarrow> Inr PK_Managed
   | MK_none \<Rightarrow> Inl (Fatal ''unhandled protos::MemoryKind''))"

record remote_descriptor =
  rd_address :: nat
  rd_bytes :: nat
  rd_kind :: proto_kind

text \<open>Meta data is a packed message: the name of its type and its bytes.\<close>

datatype descriptor = Remote_desc remote_descriptor | Eager_desc "8 word list" | Meta_data_desc string "8 word list"

definition encode_descriptor :: "const_block \<Rightarrow> remote_descriptor result" where
  "encode_descriptor view = rbind (encode_memory_type (cb_kind view)) (\<lambda>k.
     Inr \<lparr>rd_address = cb_data view, rd_bytes = cb_bytes view, rd_kind = k\<rparr>)"

definition decode_descriptor :: "remote_descriptor \<Rightarrow> const_block result" where
  "decode_descriptor d = rbind (decode_memory_type (rd_kind d)) (\<lambda>k.
     Inr \<lparr>cb_data = rd_address d, cb_bytes = rd_bytes d, cb_kind = k\<rparr>)"

record object_info =
  oi_desc_id :: nat
  oi_type_index_hash :: nat

record 'm encoded_object =
  eo_descriptors :: "descriptor list"
  eo_objects :: "object_info list"
  eo_buffers :: "(nat, 'm blob) smap"
  eo_context_acquired :: bool

definition encoded_object_new :: "'m encoded_object" where
  "encoded_object_new = \<lparr>eo_descriptors = [], eo_objects = [], eo_buffers = [], eo_context_acquired = False\<rparr>"

text \<open>The index of a repeated field is an \<open>int\<close>, to which \<open>at\<close> converts the \<open>std::size_t\<close> it is
  given: the low 32 bits count, and a number from \<open>2 ^ 31\<close> on is negative and fails the first check.\<close>

definition repeated_at :: "'a list \<Rightarrow> nat \<Rightarrow> 'a result" where
  "repeated_at xs idx = (let index = idx mod 2 ^ 32 in
     if 2 ^ 31 \<le> index then Inl (Fatal ''index >= 0'')
     else if index < length xs then Inr (xs ! index)
     else Inl (Fatal ''index < current_size_''))"

lemma repeated_at_in: "i < length xs \<Longrightarrow> length xs < 2 ^ 31 \<Longrightarrow> repeated_at xs i = Inr (xs ! i)"
  by (simp add: repeated_at_def)

definition descriptor_count :: "'m encoded_object \<Rightarrow> nat" where
  "descriptor_count eo = length (eo_descriptors eo)"

definition object_count :: "'m encoded_object \<Rightarrow> nat" where
  "object_count eo = length (eo_objects eo)"

definition type_index_hash_for_object :: "'m encoded_object \<Rightarrow> nat \<Rightarrow> nat result" where
  "type_index_hash_for_object eo idx = map_sum id oi_type_index_hash (repeated_at (eo_objects eo) idx)"

definition start_idx_for_object :: "'m encoded_object \<Rightarrow> nat \<Rightarrow> nat result" where
  "start_idx_for_object eo idx = map_sum id oi_desc_id (repeated_at (eo_objects eo) idx)"

definition eo_memory_block :: "'m encoded_object \<Rightarrow> nat \<Rightarrow> const_block result" where
  "eo_memory_block eo idx = rbind (repeated_at (eo_descriptors eo) idx) (\<lambda>d. case d of
     Remote_desc r \<Rightarrow> decode_descriptor r | _ \<Rightarrow> Inl (Check_failed ''has_remote_desc()''))"

definition eager_descriptor :: "'m encoded_object \<Rightarrow> nat \<Rightarrow> 8 word list result" where
  "eager_descriptor eo idx = rbind (repeated_at (eo_descriptors eo) idx) (\<lambda>d. case d of
     Eager_desc bs \<Rightarrow> Inr bs | _ \<Rightarrow> Inl (Check_failed ''has_eager_desc()''))"

definition eo_meta_data :: "'m encoded_object \<Rightarrow> string \<Rightarrow> nat \<Rightarrow> 8 word list result" where
  "eo_meta_data eo message_type idx = rbind (repeated_at (eo_descriptors eo) idx) (\<lambda>d. case d of
     Meta_data_desc t bs \<Rightarrow> if t = message_type then Inr bs
       else Inl (Srf_runtime_error ''unable to decode meta data to the requestd message type'')
   | _ \<Rightarrow> Inl (Check_failed ''has_meta_data_desc()''))"

definition mutable_memory_block :: "'m encoded_object \<Rightarrow> nat \<Rightarrow> const_block result" where
  "mutable_memory_block eo idx = rbind (rcheck (eo_context_acquired eo) ''m_context_acquired'') (\<lambda>_. eo_memory_block eo idx)"

subsection \<open>Adding to an object\<close>

definition add_descriptor :: "descriptor \<Rightarrow> 'm encoded_object \<Rightarrow> 'm encoded_object \<times> nat" where
  "add_descriptor d eo = (eo\<lparr>eo_descriptors := eo_descriptors eo @ [d]\<rparr>, descriptor_count eo)"

definition add_meta_data :: "string \<Rightarrow> 8 word list \<Rightarrow> 'm encoded_object \<Rightarrow> ('m encoded_object \<times> nat) result" where
  "add_meta_data message_type bs eo =
     rbind (rcheck (eo_context_acquired eo) ''m_context_acquired'') (\<lambda>_. Inr (add_descriptor (Meta_data_desc message_type bs) eo))"

definition add_memory_block :: "const_block \<Rightarrow> 'm encoded_object \<Rightarrow> ('m encoded_object \<times> nat) result" where
  "add_memory_block view eo =
     rbind (rcheck (eo_context_acquired eo) ''m_context_acquired'') (\<lambda>_.
     rbind (encode_descriptor view) (\<lambda>d. Inr (add_descriptor (Remote_desc d) eo)))"

definition add_eager_buffer :: "8 word list \<Rightarrow> 'm encoded_object \<Rightarrow> ('m encoded_object \<times> nat) result" where
  "add_eager_buffer bs eo =
     rbind (rcheck (eo_context_acquired eo) ''m_context_acquired'') (\<lambda>_. Inr (add_descriptor (Eager_desc bs) eo))"

definition add_buffer :: "'m resource_view \<Rightarrow> nat \<Rightarrow> 'm encoded_object \<Rightarrow> 'm \<Rightarrow> 'm \<times> ('m encoded_object \<times> nat) result" where
  "add_buffer v bytes eo m =
     (if \<not> eo_context_acquired eo then (m, Inl (Check_failed ''m_context_acquired''))
      else case buffer_new bytes v m of
             (m, Inl e) \<Rightarrow> (m, Inl e)
           | (m, Inr b) \<Rightarrow>
               (m, rbind (const_block_of_blob (Some b)) (\<lambda>cb.
                   rbind (add_memory_block cb eo) (\<lambda>(eo, index).
                     Inr (eo\<lparr>eo_buffers := smap_put index (Some b) (eo_buffers eo)\<rparr>, index)))))"

definition add_type_index :: "nat \<Rightarrow> 'm encoded_object \<Rightarrow> 'm encoded_object result" where
  "add_type_index hash eo =
     rbind (rcheck (eo_context_acquired eo) ''m_context_acquired'') (\<lambda>_.
       Inr (eo\<lparr>eo_objects := eo_objects eo @ [\<lparr>oi_desc_id = descriptor_count eo mod 2 ^ 32, oi_type_index_hash = hash\<rparr>]\<rparr>))"

text \<open>The guard that a serializer holds.\<close>

definition acquire_encoding_context :: "nat \<Rightarrow> 'm encoded_object \<Rightarrow> 'm encoded_object result" where
  "acquire_encoding_context hash eo =
     rbind (rcheck (\<not> eo_context_acquired eo) ''m_context_acquired == false'') (\<lambda>_.
       add_type_index hash (eo\<lparr>eo_context_acquired := True\<rparr>))"

definition release_encoding_context :: "'m encoded_object \<Rightarrow> 'm encoded_object result" where
  "release_encoding_context eo =
     rbind (rcheck (eo_context_acquired eo) ''m_context_acquired'') (\<lambda>_. Inr (eo\<lparr>eo_context_acquired := False\<rparr>))"

subsection \<open>Fundamental types and strings\<close>

text \<open>A value of a fundamental type is the list of its bytes.\<close>

definition serialize_fundamental :: "nat \<Rightarrow> 8 word list \<Rightarrow> 'm encoded_object \<Rightarrow> 'm encoded_object result" where
  "serialize_fundamental hash t eo =
     rbind (acquire_encoding_context hash eo) (\<lambda>eo.
     rbind (add_eager_buffer t eo) (\<lambda>(eo, index). release_encoding_context eo))"

definition deserialize_fundamental :: "nat \<Rightarrow> 'm encoded_object \<Rightarrow> nat \<Rightarrow> 8 word list result" where
  "deserialize_fundamental size' eo object_idx =
     rbind (start_idx_for_object eo object_idx) (\<lambda>idx.
     rbind (eager_descriptor eo idx) (\<lambda>eager.
       if size' \<le> length eager then Inr (take size' eager) else Inl (Undefined_behaviour ''read past the eager data'')))"

definition encoding_options_force_copy :: bool where
  "encoding_options_force_copy = False"

text \<open>A string is the range of memory that holds its characters.\<close>

definition serialize_string ::
    "'m resource_view \<Rightarrow> bool \<Rightarrow> nat \<Rightarrow> nat \<Rightarrow> nat \<Rightarrow> 'm encoded_object \<times> memory \<times> 'm \<Rightarrow> ('m encoded_object \<times> memory \<times> 'm) result" where
  "serialize_string host_view force_copy hash data size' = (\<lambda>(eo, mem, m).
     rbind (acquire_encoding_context hash eo) (\<lambda>eo.
       if force_copy
       then (case add_buffer host_view size' eo m of (m, r) \<Rightarrow>
               rbind r (\<lambda>(eo, index).
               rbind (mutable_memory_block eo index) (\<lambda>block.
               rbind (release_encoding_context eo) (\<lambda>eo. Inr (eo, memcpy (cb_data block) data size' mem, m)))))
       else rbind (add_memory_block \<lparr>cb_data = data, cb_bytes = size', cb_kind = MK_host\<rparr> eo) (\<lambda>(eo, index).
            rbind (release_encoding_context eo) (\<lambda>eo. Inr (eo, mem, m)))))"

definition deserialize_string :: "memory \<Rightarrow> 'm encoded_object \<Rightarrow> nat \<Rightarrow> 8 word list result" where
  "deserialize_string mem eo object_idx =
     rbind (start_idx_for_object eo object_idx) (\<lambda>idx.
     rbind (eo_memory_block eo idx) (\<lambda>buffer. Inr (read_bytes mem (cb_data buffer) (cb_bytes buffer))))"

lemma kind_roundtrip: "k \<noteq> MK_none \<Longrightarrow> rbind (encode_memory_type k) decode_memory_type = Inr k"
  by (cases k) (simp_all add: encode_memory_type_def decode_memory_type_def rbind_def)

lemma descriptor_roundtrip: "cb_kind b \<noteq> MK_none \<Longrightarrow> rbind (encode_descriptor b) decode_descriptor = Inr b"
  by (cases "cb_kind b") (simp_all add: encode_descriptor_def decode_descriptor_def encode_memory_type_def decode_memory_type_def rbind_def)

subsection \<open>Several objects in one encoding\<close>

datatype item = Fundamental nat "8 word list" | Text nat nat nat

fun serialize_item ::
    "'m resource_view \<Rightarrow> item \<Rightarrow> 'm encoded_object \<times> memory \<times> 'm \<Rightarrow> ('m encoded_object \<times> memory \<times> 'm) result" where
  "serialize_item v (Fundamental hash t) x = (case x of (eo, mem, m) \<Rightarrow> rbind (serialize_fundamental hash t eo) (\<lambda>eo. Inr (eo, mem, m)))"
| "serialize_item v (Text hash data size') x = serialize_string v encoding_options_force_copy hash data size' x"

fun deserialize_item :: "memory \<Rightarrow> 'm encoded_object \<Rightarrow> item \<Rightarrow> nat \<Rightarrow> 8 word list result" where
  "deserialize_item mem eo (Fundamental hash t) idx = deserialize_fundamental (length t) eo idx"
| "deserialize_item mem eo (Text hash data size') idx = deserialize_string mem eo idx"

fun item_bytes :: "memory \<Rightarrow> item \<Rightarrow> 8 word list" where
  "item_bytes mem (Fundamental hash t) = t"
| "item_bytes mem (Text hash data size') = read_bytes mem data size'"

fun item_hash :: "item \<Rightarrow> nat" where
  "item_hash (Fundamental hash t) = hash"
| "item_hash (Text hash data size') = hash"

fun item_descriptor :: "item \<Rightarrow> descriptor" where
  "item_descriptor (Fundamental hash t) = Eager_desc t"
| "item_descriptor (Text hash data size') = Remote_desc \<lparr>rd_address = data, rd_bytes = size', rd_kind = PK_Host\<rparr>"

text \<open>What an encoding of these items looks like.\<close>

definition encodes :: "item list \<Rightarrow> 'm encoded_object \<Rightarrow> bool" where
  "encodes xs eo \<longleftrightarrow> eo_descriptors eo = map item_descriptor xs \<and> \<not> eo_context_acquired eo
     \<and> length (eo_objects eo) = length xs
     \<and> (\<forall>i < length xs. eo_objects eo ! i = \<lparr>oi_desc_id = i mod 2 ^ 32, oi_type_index_hash = item_hash (xs ! i)\<rparr>)"

lemmas serialize_defs = serialize_fundamental_def serialize_string_def acquire_encoding_context_def release_encoding_context_def
  add_type_index_def add_eager_buffer_def add_memory_block_def add_descriptor_def encode_descriptor_def encode_memory_type_def
  encoding_options_force_copy_def descriptor_count_def rbind_def rcheck_def

lemma serialize_item_encodes:
  assumes "encodes xs eo"
  shows "\<exists>eo'. serialize_item v x (eo, mem, m) = Inr (eo', mem, m) \<and> encodes (xs @ [x]) eo'"
  using assms by (cases x) (auto simp: serialize_defs encodes_def nth_append less_Suc_eq)

lemma serialize_items_encodes:
  "encodes xs eo \<Longrightarrow> \<exists>eo'. fold_result (serialize_item v) ys (eo, mem, m) = Inr (eo', mem, m) \<and> encodes (xs @ ys) eo'"
proof (induction ys arbitrary: xs eo)
  case (Cons y ys)
  obtain eo1 where "serialize_item v y (eo, mem, m) = Inr (eo1, mem, m)" "encodes (xs @ [y]) eo1"
    using serialize_item_encodes [OF Cons.prems] by blast
  then show ?case using Cons.IH [of "xs @ [y]" eo1] by simp
qed simp

lemma deserialize_encoded:
  assumes "encodes xs eo" and "i < length xs" and "length xs < 2 ^ 31"
  shows "deserialize_item mem eo (xs ! i) i = Inr (item_bytes mem (xs ! i))"
    and "type_index_hash_for_object eo i = Inr (item_hash (xs ! i))"
proof -
  have i: "i mod 2 ^ 32 = i" using assms(2,3) by simp
  have o: "repeated_at (eo_objects eo) i = Inr \<lparr>oi_desc_id = i, oi_type_index_hash = item_hash (xs ! i)\<rparr>"
    using assms i by (simp add: encodes_def repeated_at_in)
  have d: "repeated_at (eo_descriptors eo) i = Inr (item_descriptor (xs ! i))"
    using assms by (simp add: encodes_def repeated_at_in)
  show "type_index_hash_for_object eo i = Inr (item_hash (xs ! i))" by (simp add: type_index_hash_for_object_def o)
  show "deserialize_item mem eo (xs ! i) i = Inr (item_bytes mem (xs ! i))"
    by (cases "xs ! i") (use o d in \<open>simp_all add: deserialize_fundamental_def deserialize_string_def start_idx_for_object_def
        eager_descriptor_def eo_memory_block_def decode_descriptor_def decode_memory_type_def rbind_def\<close>)
qed

text \<open>C17. Any sequence of fundamental values and strings, as long as a repeated field can be, can be encoded
  into one object, and decoding the \<open>i\<close>-th
  object of it gives back the bytes and the type hash of the \<open>i\<close>-th one; a string is encoded as the place
  it is stored at, so what is decoded is what the memory holds there at that time.\<close>

theorem codable_roundtrip:
  assumes "length items < 2 ^ 31"
  shows "\<exists>eo. fold_result (serialize_item v) items (encoded_object_new, mem, m) = Inr (eo, mem, m)
     \<and> object_count eo = length items
     \<and> (\<forall>i < length items. deserialize_item mem' eo (items ! i) i = Inr (item_bytes mem' (items ! i))
          \<and> type_index_hash_for_object eo i = Inr (item_hash (items ! i)))"
proof -
  have "encodes [] (encoded_object_new :: 'a encoded_object)" by (simp add: encodes_def encoded_object_new_def)
  then obtain eo where eo: "fold_result (serialize_item v) items (encoded_object_new, mem, m) = Inr (eo, mem, m)"
    "encodes items eo"
    using serialize_items_encodes [of "[]" encoded_object_new v items mem m] by auto
  moreover have "object_count eo = length items" using eo(2) by (simp add: encodes_def object_count_def)
  ultimately show ?thesis using deserialize_encoded [OF eo(2) _ assms] by blast
qed

theorem codable_roundtrip_witness:
  "\<exists>eo. fold_result (serialize_item counting_view) [Fundamental 5 [1, 2], Text 6 100 3] (encoded_object_new, (\<lambda>a. of_nat a), ([], 1))
       = Inr (eo, (\<lambda>a. of_nat a), ([], 1))
     \<and> deserialize_item (\<lambda>a. of_nat a) eo (Text 6 100 3) 1 = Inr [100, 101, 102]"
proof -
  have b: "item_bytes (\<lambda>a. of_nat a) (Text 6 100 3) = [100, 101, 102]" by (simp add: read_bytes_def upt_rec)
  have "length [Fundamental 5 [1, 2], Text 6 100 3] < 2 ^ 31" by simp
  from codable_roundtrip [OF this, of counting_view "\<lambda>a. of_nat a" "([], 1)" "\<lambda>a. of_nat a"] obtain eo where
    eo: "fold_result (serialize_item counting_view) [Fundamental 5 [1, 2], Text 6 100 3] (encoded_object_new, (\<lambda>a. of_nat a), ([], 1))
       = Inr (eo, (\<lambda>a. of_nat a), ([], 1))"
    "\<forall>i < length [Fundamental 5 [1, 2], Text 6 100 3]. deserialize_item (\<lambda>a. of_nat a) eo ([Fundamental 5 [1, 2], Text 6 100 3] ! i) i
       = Inr (item_bytes (\<lambda>a. of_nat a) ([Fundamental 5 [1, 2], Text 6 100 3] ! i))" by blast
  show ?thesis using eo(1) eo(2) [rule_format, of 1] b by (intro exI [of _ eo]) simp
qed

text \<open>An empty string cannot be copied into a buffer of its own: the view of an empty buffer fails its check.\<close>

lemma serialize_empty_copy:
  "\<not> eo_context_acquired eo \<Longrightarrow> buffer_new 0 v m = (m', Inr b) \<Longrightarrow>
   serialize_string v True hash data 0 (eo, mem, m) = Inl (Check_failed ''operator bool()'')"
  by (auto simp: serialize_string_def acquire_encoding_context_def add_type_index_def add_buffer_def const_block_of_blob_def
      cb_bool_def blob_bytes_def buffer_new_def rbind_def rcheck_def Let_def split: prod.splits sum.splits)


end
