(* ===== verification/Scheduler.thy ===== *)
theory Scheduler
  imports Prelude
begin

section \<open>The fiber scheduler\<close>

text \<open>
  \<^verbatim>\<open>src/internal/system/fiber_priority_scheduler.hpp\<close>: the ready queue of a thread that runs fibers. Fibers are
  numbers; the properties object of a fiber holds its priority. \<^verbatim>\<open>ready_is_linked\<close> of Boost.Fiber says
  whether a fiber is in the queue.
\<close>

record scheduler =
  sch_rqueue :: "nat list"
  sch_priority :: "nat \<Rightarrow> int"
  sch_flag :: bool

definition scheduler_new :: scheduler where
  "scheduler_new = \<lparr>sch_rqueue = [], sch_priority = (\<lambda>_. 0), sch_flag = False\<rparr>"

text \<open>The search for the first fiber of lower priority, and the insertion before it.\<close>

fun insert_before :: "(nat \<Rightarrow> bool) \<Rightarrow> nat \<Rightarrow> nat list \<Rightarrow> nat list" where
  "insert_before lower ctx [] = [ctx]"
| "insert_before lower ctx (c # cs) = (if lower c then ctx # c # cs else c # insert_before lower ctx cs)"

definition awakened :: "nat \<Rightarrow> scheduler \<Rightarrow> scheduler" where
  "awakened ctx s =
     (let ctx_priority = sch_priority s ctx
      in s\<lparr>sch_rqueue := insert_before (\<lambda>c. sch_priority s c < ctx_priority) ctx (sch_rqueue s)\<rparr>)"

definition pick_next :: "scheduler \<Rightarrow> scheduler \<times> nat option" where
  "pick_next s = (case sch_rqueue s of [] \<Rightarrow> (s, None) | c # cs \<Rightarrow> (s\<lparr>sch_rqueue := cs\<rparr>, Some c))"

definition has_ready_fibers :: "scheduler \<Rightarrow> bool" where
  "has_ready_fibers s \<longleftrightarrow> sch_rqueue s \<noteq> []"

definition property_change :: "nat \<Rightarrow> scheduler \<Rightarrow> scheduler" where
  "property_change ctx s =
     (if ctx \<notin> set (sch_rqueue s) then s else awakened ctx (s\<lparr>sch_rqueue := remove1 ctx (sch_rqueue s)\<rparr>))"

definition set_priority :: "nat \<Rightarrow> int \<Rightarrow> scheduler \<Rightarrow> scheduler" where
  "set_priority ctx p s =
     (if p = sch_priority s ctx then s else property_change ctx (s\<lparr>sch_priority := (sch_priority s)(ctx := p)\<rparr>))"

text \<open>A suspended scheduler sleeps until it is notified or, with a deadline, until then; \<open>None\<close> is the deadline that
  never comes.\<close>

definition suspend_until :: "nat option \<Rightarrow> scheduler \<Rightarrow> scheduler result" where
  "suspend_until time_point s =
     (case time_point of
        None \<Rightarrow> if sch_flag s then Inr (s\<lparr>sch_flag := False\<rparr>) else Inl (Deadlock ''m_cnd'')
      | Some _ \<Rightarrow> Inr (s\<lparr>sch_flag := False\<rparr>))"

definition sch_notify :: "scheduler \<Rightarrow> scheduler" where
  "sch_notify s = s\<lparr>sch_flag := True\<rparr>"

subsection \<open>Order of the ready queue\<close>

definition queue_ok :: "scheduler \<Rightarrow> bool" where
  "queue_ok s \<longleftrightarrow> distinct (sch_rqueue s) \<and> sorted_wrt (\<lambda>a b. sch_priority s b \<le> sch_priority s a) (sch_rqueue s)"

lemma set_insert_before [simp]: "set (insert_before f x xs) = insert x (set xs)"
  by (induction xs) auto

lemma distinct_insert_before: "x \<notin> set xs \<Longrightarrow> distinct (insert_before f x xs) = distinct xs"
  by (induction xs) auto

lemma sorted_insert_before:
  assumes "sorted_wrt (\<lambda>a b. pr b \<le> pr a) xs"
  shows "sorted_wrt (\<lambda>a b. pr b \<le> pr a) (insert_before (\<lambda>c. (pr c :: int) < pr x) x xs)"
  using assms by (induction xs) fastforce+

lemma filter_insert_before:
  "sorted_wrt (\<lambda>a b. pr b \<le> pr a) xs \<Longrightarrow>
   filter (\<lambda>c. pr c = p) (insert_before (\<lambda>c. (pr c :: int) < pr x) x xs) = filter (\<lambda>c. pr c = p) xs @ (if pr x = p then [x] else [])"
proof (induction xs)
  case (Cons c cs)
  show ?case
  proof (cases "pr c < pr x")
    case True
    then have "filter (\<lambda>c. pr c = p) (c # cs) = []" if "p = pr x" using Cons.prems that by (force simp: filter_empty_conv)
    then show ?thesis using True by (cases "pr x = p") auto
  next
    case False
    then show ?thesis using Cons by simp
  qed
qed simp

lemma awakened_ok: "queue_ok s \<Longrightarrow> c \<notin> set (sch_rqueue s) \<Longrightarrow> queue_ok (awakened c s)"
  by (simp add: queue_ok_def awakened_def Let_def distinct_insert_before sorted_insert_before)

lemma pick_next_ok: "queue_ok s \<Longrightarrow> queue_ok (fst (pick_next s))"
  by (auto simp: queue_ok_def pick_next_def split: list.splits)

lemma remove1_ok: "queue_ok s \<Longrightarrow> queue_ok (s\<lparr>sch_priority := (sch_priority s)(c := p), sch_rqueue := remove1 c (sch_rqueue s)\<rparr>)"
proof -
  assume s: "queue_ok s"
  then have d: "distinct (sch_rqueue s)" by (simp add: queue_ok_def)
  have "sorted_wrt (\<lambda>a b. sch_priority s b \<le> sch_priority s a) (remove1 c (sch_rqueue s))"
    using s by (simp add: queue_ok_def distinct_remove1_removeAll [OF d] removeAll_filter_not_eq sorted_wrt_filter)
  moreover have "c \<notin> set (remove1 c (sch_rqueue s))" using d by simp
  ultimately have "sorted_wrt (\<lambda>a b. ((sch_priority s)(c := p)) b \<le> ((sch_priority s)(c := p)) a) (remove1 c (sch_rqueue s))"
    by (auto intro: sorted_wrt_mono_rel [rotated])
  then show ?thesis using d by (simp add: queue_ok_def)
qed

lemma set_priority_ok: "queue_ok s \<Longrightarrow> queue_ok (set_priority c p s)"
proof -
  assume s: "queue_ok s"
  let ?s = "s\<lparr>sch_priority := (sch_priority s)(c := p), sch_rqueue := remove1 c (sch_rqueue s)\<rparr>"
  have d: "c \<notin> set (sch_rqueue ?s)" using s by (simp add: queue_ok_def)
  have "set_priority c p s = (if p = sch_priority s c then s
      else if c \<in> set (sch_rqueue s) then awakened c ?s else s\<lparr>sch_priority := (sch_priority s)(c := p)\<rparr>)"
    by (simp add: set_priority_def property_change_def)
  moreover have "queue_ok (awakened c ?s)" by (rule awakened_ok [OF remove1_ok [OF s] d])
  moreover have "queue_ok (s\<lparr>sch_priority := (sch_priority s)(c := p)\<rparr>)" if "c \<notin> set (sch_rqueue s)"
    using remove1_ok [OF s, of c p] that by (simp add: remove1_idem)
  ultimately show ?thesis using s by simp
qed

subsection \<open>Which fiber runs next\<close>

inductive sch_reachable :: "scheduler \<Rightarrow> bool" where
  start: "sch_reachable scheduler_new"
| wake: "sch_reachable s \<Longrightarrow> c \<notin> set (sch_rqueue s) \<Longrightarrow> sch_reachable (awakened c s)"
| pick: "sch_reachable s \<Longrightarrow> sch_reachable (fst (pick_next s))"
| prio: "sch_reachable s \<Longrightarrow> sch_reachable (set_priority c p s)"

lemma reachable_ok: "sch_reachable s \<Longrightarrow> queue_ok s"
proof (induction rule: sch_reachable.induct)
  case start
  show ?case by (simp add: queue_ok_def scheduler_new_def)
qed (simp_all add: awakened_ok pick_next_ok set_priority_ok)

text \<open>C20. Whatever fibers are awakened, picked and given new priorities, the fiber that is picked has the highest
  priority of those that are ready, and a fiber that is awakened comes after all fibers of its own priority
  and leaves the order of every priority as it was.\<close>

theorem scheduler_picks_highest:
  assumes "sch_reachable s" and "c \<notin> set (sch_rqueue s)"
  shows "(case snd (pick_next s) of
            None \<Rightarrow> \<not> has_ready_fibers s
          | Some f \<Rightarrow> f \<in> set (sch_rqueue s) \<and> (\<forall>g \<in> set (sch_rqueue s). sch_priority s g \<le> sch_priority s f))
     \<and> filter (\<lambda>g. sch_priority s g = p) (sch_rqueue (awakened c s))
         = filter (\<lambda>g. sch_priority s g = p) (sch_rqueue s) @ (if sch_priority s c = p then [c] else [])"
proof -
  have ok: "queue_ok s" by (rule reachable_ok [OF assms(1)])
  have "filter (\<lambda>g. sch_priority s g = p) (sch_rqueue (awakened c s))
      = filter (\<lambda>g. sch_priority s g = p) (sch_rqueue s) @ (if sch_priority s c = p then [c] else [])"
    using ok filter_insert_before [of "sch_priority s" "sch_rqueue s" p c] by (simp add: awakened_def Let_def queue_ok_def)
  then show ?thesis using ok by (auto simp: pick_next_def has_ready_fibers_def queue_ok_def split: list.splits)
qed

theorem scheduler_picks_highest_witness:
  "let s = awakened 2 (awakened 1 (set_priority 2 5 scheduler_new))
   in snd (pick_next s) = Some 2 \<and> filter (\<lambda>g. sch_priority s g = 0) (sch_rqueue (awakened 3 s)) = [1, 3]"
proof -
  define s where "s = awakened 2 (awakened 1 (set_priority 2 5 scheduler_new))"
  have q: "sch_rqueue s = [2, 1]" "sch_priority s 1 = 0" "sch_priority s 2 = 5" "sch_priority s 3 = 0"
    by (simp_all add: s_def awakened_def set_priority_def property_change_def scheduler_new_def)
  have "sch_reachable s" unfolding s_def
    by (intro wake prio start) (simp_all add: awakened_def set_priority_def property_change_def scheduler_new_def)
  from scheduler_picks_highest [OF this, of 3 0] q show ?thesis
    unfolding s_def [symmetric] by (simp add: pick_next_def)
qed

end
