(* ===== verification/Rpc.thy ===== *)
theory Rpc
  imports Prelude
begin

section \<open>Asynchronous RPC: workers, servers and unary calls\<close>

text \<open>
  \<^verbatim>\<open>tools/nvrpc\<close>: a worker takes completed tags from the completion queues of gRPC and runs the next state of the
  context a tag belongs to (\<^verbatim>\<open>src/executor.cc\<close>, \<^verbatim>\<open>include/nvrpc/executor.h\<close>); a server owns workers
  (\<^verbatim>\<open>src/server.cc\<close>). What the queues deliver is an argument. Contexts are the states of life cycles, which answer a
  completed tag with calls of gRPC or of the user (\<open>'a\<close>); the locale \<open>rpc_context\<close> is what a worker relies on. The life
  cycle of a unary call is \<^verbatim>\<open>include/nvrpc/life_cycle_unary.h\<close>.
\<close>

datatype rpc_tag = Tag_main | Tag_read | Tag_write

type_synonym ('s, 'a) run_state = "rpc_tag \<Rightarrow> bool \<Rightarrow> 's \<Rightarrow> ('s \<times> 'a list \<times> bool) result"

text \<open>Threads that have decided on calls are lists of calls; the first call of a thread is made.\<close>

lemma some_okD: "(case x of Some (Inr s) \<Rightarrow> P s | _ \<Rightarrow> False) \<Longrightarrow> \<exists>s. x = Some (Inr s) \<and> P s"
  by (auto split: option.splits sum.splits)

lemma count_list_concat_update:
  "i < length ts \<Longrightarrow> ts ! i = x # xs \<Longrightarrow>
   count_list (concat (ts[i := xs])) c + (if c = x then 1 else 0) = count_list (concat ts) c"
proof (induction ts arbitrary: i)
  case (Cons t ts)
  then show ?case by (cases i) auto
qed simp

subsection \<open>Workers\<close>

record ('s, 'a) worker =
  wk_cq_count :: nat
  wk_running :: bool
  wk_contexts :: "'s list"
  wk_completion_queues :: nat
  wk_calls :: "(nat \<times> 'a) list"

definition worker_new :: "nat \<Rightarrow> ('s, 'a) worker" where
  "worker_new cq_count = \<lparr>wk_cq_count = cq_count, wk_running = False, wk_contexts = [], wk_completion_queues = 0, wk_calls = []\<rparr>"

definition worker_initialize :: "('s, 'a) worker \<Rightarrow> ('s, 'a) worker" where
  "worker_initialize w = w\<lparr>wk_completion_queues := wk_completion_queues w + wk_cq_count w\<rparr>"

definition register_contexts :: "'s \<Rightarrow> nat \<Rightarrow> ('s, 'a) worker \<Rightarrow> ('s, 'a) worker" where
  "register_contexts ctx num_contexts_per_thread w =
     w\<lparr>wk_contexts := wk_contexts w @ concat (replicate (wk_completion_queues w) (replicate num_contexts_per_thread ctx))\<rparr>"

text \<open>The second component tells whether the completion queues are shut down.\<close>

definition worker_shutdown :: "('s, 'a) worker \<Rightarrow> ('s, 'a) worker \<times> bool" where
  "worker_shutdown w = (if \<not> wk_running w then (w, False) else (w\<lparr>wk_running := False\<rparr>, True))"

definition worker_context :: "('s, 'a) worker \<Rightarrow> nat \<Rightarrow> 's result" where
  "worker_context w idx = rbind (rcheck (idx < length (wk_contexts w)) ''idx < m_Contexts.size()'') (\<lambda>_. Inr (wk_contexts w ! idx))"

definition reset_context :: "('s \<Rightarrow> 's \<times> 'a list) \<Rightarrow> nat \<Rightarrow> ('s, 'a) worker \<Rightarrow> ('s, 'a) worker" where
  "reset_context reset i w =
     (case reset (wk_contexts w ! i) of (s, calls) \<Rightarrow>
        w\<lparr>wk_contexts := (wk_contexts w)[i := s], wk_calls := wk_calls w @ map (Pair i) calls\<rparr>)"

datatype next_status = Got_event nat rpc_tag bool | Timeout | Shut_down

definition got_event ::
    "('s, 'a) run_state \<Rightarrow> ('s \<Rightarrow> 's \<times> 'a list) \<Rightarrow> nat \<Rightarrow> rpc_tag \<Rightarrow> bool \<Rightarrow> ('s, 'a) worker \<Rightarrow> ('s, 'a) worker result" where
  "got_event run reset i tag ok w =
     rbind (run tag ok (wk_contexts w ! i)) (\<lambda>(s, calls, continue).
       let w = w\<lparr>wk_contexts := (wk_contexts w)[i := s], wk_calls := wk_calls w @ map (Pair i) calls\<rparr>
       in Inr (if \<not> continue \<and> wk_running w then reset_context reset i w else w))"

definition next_backoff :: "nat \<Rightarrow> nat" where
  "next_backoff backoff = (if backoff < 1048576 then backoff * 2 else backoff)"

fun progress_loop ::
    "('s, 'a) run_state \<Rightarrow> ('s \<Rightarrow> 's \<times> 'a list) \<Rightarrow> next_status list \<Rightarrow> nat \<Rightarrow> ('s, 'a) worker \<Rightarrow> (('s, 'a) worker \<times> nat) result" where
  "progress_loop run reset [] backoff w = Inr (w, backoff)"
| "progress_loop run reset (Got_event i tag ok # evs) backoff w =
     rbind (got_event run reset i tag ok w) (progress_loop run reset evs 1)"
| "progress_loop run reset (Timeout # evs) backoff w = progress_loop run reset evs (next_backoff backoff) w"
| "progress_loop run reset (Shut_down # evs) backoff w = Inr (w, backoff)"

definition progress_engine ::
    "('s, 'a) run_state \<Rightarrow> ('s \<Rightarrow> 's \<times> 'a list) \<Rightarrow> next_status list \<Rightarrow> ('s, 'a) worker \<Rightarrow> (('s, 'a) worker \<times> nat) result" where
  "progress_engine run reset evs w = progress_loop run reset evs 1 (w\<lparr>wk_running := True\<rparr>)"

definition executor_run_contexts :: "('s \<Rightarrow> 's \<times> 'a list) \<Rightarrow> ('s, 'a) worker \<Rightarrow> ('s, 'a) worker" where
  "executor_run_contexts reset w = fold (reset_context reset) [0 ..< length (wk_contexts w)] w"

subsection \<open>Servers\<close>

record ('s, 'a) rpc_server =
  rs_built :: bool
  rs_running :: bool
  rs_executors :: "('s, 'a) worker list"

definition server_new :: "('s, 'a) worker list \<Rightarrow> ('s, 'a) rpc_server" where
  "server_new executors = \<lparr>rs_built = False, rs_running = False, rs_executors = executors\<rparr>"

definition server_builder :: "('s, 'a) rpc_server \<Rightarrow> unit result" where
  "server_builder s = (if rs_running s then Inl (Fatal ''Unable to access Builder after the Server is running.'') else Inr ())"

definition async_start :: "('s \<Rightarrow> 's \<times> 'a list) \<Rightarrow> ('s, 'a) rpc_server \<Rightarrow> ('s, 'a) rpc_server result" where
  "async_start reset s =
     rbind (rcheck (\<not> rs_running s) ''Server is already running'') (\<lambda>_.
       Inr \<lparr>rs_built = True, rs_running = True, rs_executors = map (executor_run_contexts reset) (rs_executors s)\<rparr>)"

definition server_shutdown :: "('s, 'a) rpc_server \<Rightarrow> ('s, 'a) rpc_server result" where
  "server_shutdown s =
     rbind (rcheck (rs_built s) ''m_Server'') (\<lambda>_.
       Inr (s\<lparr>rs_running := False, rs_executors := map (fst \<circ> worker_shutdown) (rs_executors s)\<rparr>))"

subsection \<open>What a worker relies on\<close>

locale rpc_context =
  fixes run :: "('s, 'a) run_state" and reset :: "'s \<Rightarrow> 's \<times> 'a list" and inv :: "'s \<Rightarrow> bool"
  assumes run_keeps: "inv s \<Longrightarrow> run tag ok s = Inr (s', calls, continue) \<Longrightarrow> inv s'"
    and reset_keeps: "inv s \<Longrightarrow> inv (fst (reset s))"
begin

definition contexts_ok :: "('s, 'a) worker \<Rightarrow> bool" where
  "contexts_ok w \<longleftrightarrow> (\<forall>s \<in> set (wk_contexts w). inv s)"

lemma contexts_okD: "contexts_ok w \<Longrightarrow> i < length (wk_contexts w) \<Longrightarrow> inv (wk_contexts w ! i)"
  by (simp add: contexts_ok_def)

lemma contexts_ok_update:
  "contexts_ok w \<Longrightarrow> (i < length (wk_contexts w) \<Longrightarrow> inv s) \<Longrightarrow> contexts_ok (w\<lparr>wk_contexts := (wk_contexts w)[i := s], wk_calls := c\<rparr>)"
  using set_update_subset_insert [of "wk_contexts w" i s]
  by (cases "i < length (wk_contexts w)") (auto simp: contexts_ok_def list_update_beyond)

lemma reset_context_keeps: "contexts_ok w \<Longrightarrow> contexts_ok (reset_context reset i w)"
  unfolding reset_context_def split_beta by (rule contexts_ok_update) (simp_all add: contexts_okD reset_keeps)

lemma got_event_keeps: "contexts_ok w \<Longrightarrow> got_event run reset i tag ok w = Inr w' \<Longrightarrow> contexts_ok w'"
proof -
  assume ok: "contexts_ok w" and w': "got_event run reset i tag ok w = Inr w'"
  obtain s calls c where run: "run tag ok (wk_contexts w ! i) = Inr (s, calls, c)"
    using w' by (auto simp: got_event_def rbind_eq_Inr)
  let ?w = "w\<lparr>wk_contexts := (wk_contexts w)[i := s], wk_calls := wk_calls w @ map (Pair i) calls\<rparr>"
  have "contexts_ok ?w" by (rule contexts_ok_update [OF ok run_keeps [OF contexts_okD [OF ok] run]])
  moreover have "w' = (if \<not> c \<and> wk_running ?w then reset_context reset i ?w else ?w)"
    using w' by (simp add: got_event_def run Let_def)
  ultimately show ?thesis using reset_context_keeps by simp
qed

lemma progress_loop_keeps: "contexts_ok w \<Longrightarrow> progress_loop run reset evs b w = Inr (w', b') \<Longrightarrow> contexts_ok w'"
proof (induction evs arbitrary: b w)
  case (Cons ev evs)
  then show ?case by (cases ev) (auto simp: rbind_eq_Inr dest: got_event_keeps)
qed simp

lemma progress_engine_keeps: "contexts_ok w \<Longrightarrow> progress_engine run reset evs w = Inr (w', b') \<Longrightarrow> contexts_ok w'"
  using progress_loop_keeps [of "w\<lparr>wk_running := True\<rparr>"] by (simp add: progress_engine_def contexts_ok_def)

end

text \<open>A worker that is told to shut down before its thread has entered the progress engine forgets it: the queues are
  not shut down, and the engine declares itself running when it starts.\<close>

lemma early_shutdown_ignored:
  "worker_shutdown (worker_new n) = (worker_new n, False)
   \<and> progress_engine run reset [] (worker_new n) = Inr ((worker_new n)\<lparr>wk_running := True\<rparr>, 1)"
  by (simp add: worker_shutdown_def worker_new_def progress_engine_def)

text \<open>The back-off grows in powers of two up to \<open>2 ^ 20\<close>.\<close>

lemma next_backoff_power: "k \<le> 20 \<Longrightarrow> \<exists>j \<le> 20. next_backoff (2 ^ k) = 2 ^ j"
proof (cases "k = 20")
  case False
  assume "k \<le> 20"
  then have "k < 20" using False by simp
  then have "(2 :: nat) ^ k < 2 ^ 20" by (intro power_strict_increasing) simp_all
  then show ?thesis using \<open>k < 20\<close> by (intro exI [of _ "Suc k"]) (simp add: next_backoff_def)
qed (auto simp: next_backoff_def intro: exI [of _ 20])

lemma backoff_bounded: "progress_loop run reset evs b w = Inr (w', b') \<Longrightarrow> \<exists>k \<le> 20. b = 2 ^ k \<Longrightarrow> \<exists>k \<le> 20. b' = 2 ^ k"
proof (induction run reset evs b w rule: progress_loop.induct)
  case (2 run reset i tag ok evs backoff w)
  have "\<exists>k \<le> 20. (1 :: nat) = 2 ^ k" by (rule exI [of _ 0]) simp
  then show ?case using 2 by (auto simp: rbind_eq_Inr)
next
  case (3 run reset evs backoff w)
  then show ?case using next_backoff_power by auto
qed auto

subsection \<open>Unary calls\<close>

datatype unary_fn = Un_RequestDone | Un_FinishedDone

datatype 'r unary_call = Un_queue | Un_execute | Un_finish "'r option" bool

record 'r unary =
  un_next_state :: "unary_fn option"
  un_response :: "'r option"

definition unary_new :: "'r unary" where
  "unary_new = \<lparr>un_next_state = None, un_response = None\<rparr>"

definition unary_reset :: "'r unary \<Rightarrow> 'r unary \<times> 'r unary_call list" where
  "unary_reset s = (\<lparr>un_next_state = Some Un_RequestDone, un_response = None\<rparr>, [Un_queue])"

definition unary_request_done :: "bool \<Rightarrow> 'r unary \<Rightarrow> 'r unary \<times> 'r unary_call list \<times> bool" where
  "unary_request_done ok s = (if \<not> ok then (s, [], False) else (s, [Un_execute], True))"

definition unary_finished_done :: "bool \<Rightarrow> 'r unary \<Rightarrow> 'r unary \<times> 'r unary_call list \<times> bool" where
  "unary_finished_done ok s = (s, [], False)"

definition unary_run :: "('r unary, 'r unary_call) run_state" where
  "unary_run tag ok s =
     (case un_next_state s of
        None \<Rightarrow> Inl (Undefined_behaviour ''m_NextState'')
      | Some Un_RequestDone \<Rightarrow> Inr (unary_request_done ok s)
      | Some Un_FinishedDone \<Rightarrow> Inr (unary_finished_done ok s))"

definition unary_finish_response :: "'r unary \<Rightarrow> 'r unary \<times> 'r unary_call list" where
  "unary_finish_response s = (s\<lparr>un_next_state := Some Un_FinishedDone\<rparr>, [Un_finish (un_response s) True])"

definition unary_cancel_response :: "'r unary \<Rightarrow> 'r unary \<times> 'r unary_call list" where
  "unary_cancel_response s = (s\<lparr>un_next_state := Some Un_FinishedDone\<rparr>, [Un_finish (un_response s) False])"

text \<open>A context that has been reset always knows its next state.\<close>

interpretation unary: rpc_context unary_run unary_reset "\<lambda>s. un_next_state s \<noteq> None"
  by unfold_locales
    (auto simp: unary_run_def unary_request_done_def unary_finished_done_def unary_reset_def split: option.splits unary_fn.splits if_splits)

text \<open>A call that is answered: the request is executed, the answer is sent, and the worker puts the context back into
  the queue for the next request.\<close>

lemma unary_served:
  assumes "wk_contexts w = [s]" and "wk_running w" and "un_next_state s = Some Un_RequestDone"
  shows "\<exists>w1 w2. got_event unary_run unary_reset 0 Tag_main True w = Inr w1 \<and> wk_calls w1 = wk_calls w @ [(0, Un_execute)]
     \<and> got_event unary_run unary_reset 0 Tag_main ok (w1\<lparr>wk_contexts := [fst (unary_finish_response (wk_contexts w1 ! 0))]\<rparr>) = Inr w2
     \<and> wk_calls w2 = wk_calls w1 @ [(0, Un_queue)] \<and> un_next_state (wk_contexts w2 ! 0) = Some Un_RequestDone"
  using assms by (simp add: got_event_def unary_run_def unary_request_done_def unary_finished_done_def unary_finish_response_def
      reset_context_def unary_reset_def Let_def)

end
