(* ===== verification/Bidirectional.thy ===== *)
theory Bidirectional
  imports Rpc
begin

section \<open>The bidirectional life cycle\<close>

text \<open>
  \<^verbatim>\<open>tools/nvrpc/include/nvrpc/life_cycle_bidirectional.h\<close>: a stream whose requests are executed one at a time and whose
  responses are written back one at a time. Every handler decides under the mutex what is to be called next, and
  makes these calls after it has released the mutex; so a handler is an atomic step that leaves a list of calls,
  and the calls of several threads interleave. gRPC completes what has been posted, in any order.
\<close>

datatype bidi_fn = Bd_InitializedDone | Bd_RequestDone | Bd_ResponseDone | Bd_FinishDone | Bd_Invalid

datatype bidi_call = Do_queue | Do_read | Do_write | Do_execute | Do_finish bool

record ('q, 'r) bidi =
  bd_next_state :: "bidi_fn option"
  bd_read_next :: bidi_fn
  bd_write_next :: bidi_fn
  bd_request_queue :: "'q option list"
  bd_response_queue :: "'r option list"
  bd_write_back_queue :: "'r option list"
  bd_writing :: bool
  bd_executing :: bool
  bd_writes_done :: bool
  bd_finishing :: bool

definition bidi_new :: "('q, 'r) bidi" where
  "bidi_new = \<lparr>bd_next_state = None, bd_read_next = Bd_RequestDone, bd_write_next = Bd_ResponseDone, bd_request_queue = [],
     bd_response_queue = [], bd_write_back_queue = [], bd_writing = False, bd_executing = False, bd_writes_done = False,
     bd_finishing = False\<rparr>"

definition bidi_reset :: "('q, 'r) bidi \<Rightarrow> ('q, 'r) bidi \<times> bidi_call list" where
  "bidi_reset s =
     (s\<lparr>bd_next_state := Some Bd_InitializedDone, bd_request_queue := [], bd_response_queue := [], bd_write_back_queue := [],
        bd_writing := False, bd_executing := False, bd_writes_done := False, bd_finishing := False\<rparr>, [Do_queue])"

definition evaluate_state :: "('q, 'r) bidi \<Rightarrow> ('q, 'r) bidi \<times> bool \<times> bool \<times> bool" where
  "evaluate_state s =
     (let should_execute = (\<not> bd_executing s \<and> bd_response_queue s \<noteq> []);
          s = (if should_execute then s\<lparr>bd_executing := True\<rparr> else s);
          should_write = (\<not> bd_writing s \<and> bd_write_back_queue s \<noteq> []);
          s = (if should_write then s\<lparr>bd_writing := True\<rparr> else s);
          should_finish = (\<not> should_write \<and> \<not> should_execute \<and> \<not> bd_writing s \<and> \<not> bd_executing s \<and> \<not> bd_finishing s
            \<and> bd_writes_done s);
          s = (if should_finish then s\<lparr>bd_finishing := True, bd_next_state := Some Bd_FinishDone\<rparr> else s)
      in (s, should_write, should_execute, should_finish))"

definition progress_state :: "bool \<times> bool \<times> bool \<Rightarrow> bidi_call list" where
  "progress_state = (\<lambda>(should_write, should_execute, should_finish).
     (if should_write then [Do_write] else []) @ (if should_execute then [Do_execute] else [])
     @ (if should_finish then [Do_finish True] else []))"

definition evaluate_and_progress :: "('q, 'r) bidi \<Rightarrow> ('q, 'r) bidi \<times> bidi_call list" where
  "evaluate_and_progress s = (case evaluate_state s of (s, wef) \<Rightarrow> (s, progress_state wef))"

definition state_initialized_done :: "bool \<Rightarrow> ('q, 'r) bidi \<Rightarrow> ('q, 'r) bidi \<times> bidi_call list \<times> bool" where
  "state_initialized_done ok s =
     (if \<not> ok then (s, [], False)
      else (s\<lparr>bd_request_queue := bd_request_queue s @ [None], bd_next_state := Some Bd_Invalid\<rparr>, [Do_read], True))"

definition state_request_done :: "bool \<Rightarrow> ('q, 'r) bidi \<Rightarrow> ('q, 'r) bidi \<times> bidi_call list \<times> bool" where
  "state_request_done ok s =
     (let s = (if \<not> ok then s\<lparr>bd_writes_done := True\<rparr> else s);
          should_read = (\<not> bd_writes_done s);
          s = (if should_read
               then s\<lparr>bd_response_queue := bd_response_queue s @ [None], bd_request_queue := bd_request_queue s @ [None]\<rparr> else s);
          (s, calls) = evaluate_and_progress s
      in (s, (if should_read then [Do_read] else []) @ calls, True))"

definition cancel_response :: "('q, 'r) bidi \<Rightarrow> ('q, 'r) bidi \<times> bidi_call list" where
  "cancel_response s = (s\<lparr>bd_next_state := Some Bd_FinishDone\<rparr>, if \<not> bd_executing s then [Do_finish False] else [])"

definition state_response_done :: "bool \<Rightarrow> ('q, 'r) bidi \<Rightarrow> (('q, 'r) bidi \<times> bidi_call list \<times> bool) result" where
  "state_response_done ok s =
     (if \<not> ok then (case cancel_response s of (s, calls) \<Rightarrow> Inr (s, calls, True))
      else if bd_write_back_queue s = [] then Inl (Undefined_behaviour ''pop of an empty queue'')
      else (case evaluate_and_progress (s\<lparr>bd_writing := False, bd_write_back_queue := tl (bd_write_back_queue s)\<rparr>) of
              (s, calls) \<Rightarrow> Inr (s, calls, True)))"

definition state_finish_done :: "bool \<Rightarrow> ('q, 'r) bidi \<Rightarrow> ('q, 'r) bidi \<times> bidi_call list \<times> bool" where
  "state_finish_done ok s = (s, [], False)"

definition run_next_state ::
    "bidi_fn option \<Rightarrow> bool \<Rightarrow> ('q, 'r) bidi \<Rightarrow> (('q, 'r) bidi \<times> bidi_call list \<times> bool) result" where
  "run_next_state state_fn ok s =
     (case state_fn of
        None \<Rightarrow> Inl (Undefined_behaviour ''m_NextState'')
      | Some Bd_InitializedDone \<Rightarrow> Inr (state_initialized_done ok s)
      | Some Bd_RequestDone \<Rightarrow> Inr (state_request_done ok s)
      | Some Bd_ResponseDone \<Rightarrow> state_response_done ok s
      | Some Bd_FinishDone \<Rightarrow> Inr (state_finish_done ok s)
      | Some Bd_Invalid \<Rightarrow> Inl (Std_runtime_error ''invalid state''))"

definition bidi_run :: "(('q, 'r) bidi, bidi_call) run_state" where
  "bidi_run tag ok s =
     run_next_state (case tag of Tag_main \<Rightarrow> bd_next_state s | Tag_read \<Rightarrow> Some (bd_read_next s) | Tag_write \<Rightarrow> Some (bd_write_next s)) ok s"

text \<open>The user calls \<open>FinishResponse\<close> when the response at the front of the queue has been filled in.\<close>

definition finish_response :: "('q, 'r) bidi \<Rightarrow> (('q, 'r) bidi \<times> bidi_call list) result" where
  "finish_response s =
     (if bd_request_queue s = [] \<or> bd_response_queue s = [] then Inl (Undefined_behaviour ''front of an empty queue'')
      else Inr (evaluate_and_progress
        (s\<lparr>bd_executing := False, bd_write_back_queue := bd_write_back_queue s @ [hd (bd_response_queue s)],
           bd_request_queue := tl (bd_request_queue s), bd_response_queue := tl (bd_response_queue s)\<rparr>)))"

subsection \<open>A context between gRPC and the user\<close>

text \<open>Besides the context: the calls that the threads have decided on and not yet made, what has been posted to gRPC and not
  yet completed, the executions that have not yet been answered, and the history of the stream.\<close>

record ('q, 'r) bidi_sys =
  bs_ctx :: "('q, 'r) bidi"
  bs_todo :: "bidi_call list list"
  bs_queued :: bool
  bs_reads :: nat
  bs_writes :: nat
  bs_finishes :: nat
  bs_users :: nat
  bs_ended :: bool
  bs_received :: "'q list"
  bs_executed :: "'q option list"
  bs_answered :: "'r list"
  bs_written :: "'r option list"
  bs_finished :: "bool list"

definition bidi_start :: "('q, 'r) bidi \<Rightarrow> ('q, 'r) bidi_sys" where
  "bidi_start s = \<lparr>bs_ctx = fst (bidi_reset s), bs_todo = [], bs_queued = True, bs_reads = 0, bs_writes = 0, bs_finishes = 0,
     bs_users = 0, bs_ended = False, bs_received = [], bs_executed = [], bs_answered = [], bs_written = [], bs_finished = []\<rparr>"

datatype ('q, 'r) bidi_event = Ev_start bool | Ev_read 'q | Ev_read_end | Ev_write bool | Ev_finish | Ev_call nat | Ev_answer 'r
  | Ev_cancel

definition make_call :: "bidi_call \<Rightarrow> ('q, 'r) bidi_sys \<Rightarrow> ('q, 'r) bidi_sys result" where
  "make_call c s =
     (case c of
        Do_queue \<Rightarrow> Inr (s\<lparr>bs_queued := True\<rparr>)
      | Do_read \<Rightarrow>
          if bd_request_queue (bs_ctx s) = [] then Inl (Undefined_behaviour ''back of an empty queue'')
          else Inr (s\<lparr>bs_reads := bs_reads s + 1\<rparr>)
      | Do_write \<Rightarrow>
          if bd_write_back_queue (bs_ctx s) = [] then Inl (Undefined_behaviour ''front of an empty queue'')
          else Inr (s\<lparr>bs_writes := bs_writes s + 1, bs_written := bs_written s @ [hd (bd_write_back_queue (bs_ctx s))]\<rparr>)
      | Do_execute \<Rightarrow>
          if bd_request_queue (bs_ctx s) = [] \<or> bd_response_queue (bs_ctx s) = [] then Inl (Undefined_behaviour ''front of an empty queue'')
          else Inr (s\<lparr>bs_users := bs_users s + 1, bs_executed := bs_executed s @ [hd (bd_request_queue (bs_ctx s))]\<rparr>)
      | Do_finish ok \<Rightarrow> Inr (s\<lparr>bs_finishes := bs_finishes s + 1, bs_finished := bs_finished s @ [ok]\<rparr>))"

definition complete_tag :: "rpc_tag \<Rightarrow> bool \<Rightarrow> ('q, 'r) bidi_sys \<Rightarrow> ('q, 'r) bidi_sys result" where
  "complete_tag tag ok s =
     rbind (bidi_run tag ok (bs_ctx s)) (\<lambda>(c, calls, continue).
       Inr (s\<lparr>bs_ctx := c, bs_todo := bs_todo s @ [calls], bs_ended := \<not> continue\<rparr>))"

definition store_request :: "'q \<Rightarrow> ('q, 'r) bidi \<Rightarrow> ('q, 'r) bidi" where
  "store_request q c = c\<lparr>bd_request_queue := butlast (bd_request_queue c) @ [Some q]\<rparr>"

definition store_response :: "'r \<Rightarrow> ('q, 'r) bidi \<Rightarrow> ('q, 'r) bidi" where
  "store_response r c = c\<lparr>bd_response_queue := Some r # tl (bd_response_queue c)\<rparr>"

definition bidi_step :: "('q, 'r) bidi_event \<Rightarrow> ('q, 'r) bidi_sys \<Rightarrow> ('q, 'r) bidi_sys result option" where
  "bidi_step ev s =
     (if bs_ended s then None
      else case ev of
        Ev_start ok \<Rightarrow> if bs_queued s then Some (complete_tag Tag_main ok (s\<lparr>bs_queued := False\<rparr>)) else None
      | Ev_read q \<Rightarrow>
          if bs_reads s > 0
          then Some (complete_tag Tag_read True
            (s\<lparr>bs_reads := bs_reads s - 1, bs_received := bs_received s @ [q], bs_ctx := store_request q (bs_ctx s)\<rparr>))
          else None
      | Ev_read_end \<Rightarrow> if bs_reads s > 0 then Some (complete_tag Tag_read False (s\<lparr>bs_reads := bs_reads s - 1\<rparr>)) else None
      | Ev_write ok \<Rightarrow> if bs_writes s > 0 then Some (complete_tag Tag_write ok (s\<lparr>bs_writes := bs_writes s - 1\<rparr>)) else None
      | Ev_finish \<Rightarrow> if bs_finishes s > 0 then Some (complete_tag Tag_main True (s\<lparr>bs_finishes := bs_finishes s - 1\<rparr>)) else None
      | Ev_call i \<Rightarrow>
          if i < length (bs_todo s) \<and> bs_todo s ! i \<noteq> []
          then Some (make_call (hd (bs_todo s ! i)) (s\<lparr>bs_todo := (bs_todo s)[i := tl (bs_todo s ! i)]\<rparr>))
          else None
      | Ev_answer r \<Rightarrow>
          if bs_users s > 0
          then Some (rbind (finish_response (store_response r (bs_ctx s))) (\<lambda>(c, calls).
                 Inr (s\<lparr>bs_users := bs_users s - 1, bs_answered := bs_answered s @ [r], bs_ctx := c, bs_todo := bs_todo s @ [calls]\<rparr>)))
          else None
      | Ev_cancel \<Rightarrow>
          (case cancel_response (bs_ctx s) of (c, calls) \<Rightarrow> Some (Inr (s\<lparr>bs_ctx := c, bs_todo := bs_todo s @ [calls]\<rparr>))))"

text \<open>Runs in which the stream is opened, no write fails and the user does not call \<open>CancelResponse\<close>.\<close>

fun healthy :: "('q, 'r) bidi_event \<Rightarrow> bool" where
  "healthy (Ev_start ok) = ok"
| "healthy (Ev_write ok) = ok"
| "healthy Ev_cancel = False"
| "healthy _ = True"

inductive bidi_reach :: "('q, 'r) bidi_sys \<Rightarrow> bool" where
  bidi_init: "bd_read_next c = Bd_RequestDone \<Longrightarrow> bd_write_next c = Bd_ResponseDone \<Longrightarrow> bidi_reach (bidi_start c)"
| bidi_next: "bidi_reach s \<Longrightarrow> healthy ev \<Longrightarrow> bidi_step ev s = Some (Inr s') \<Longrightarrow> bidi_reach s'"

subsection \<open>The invariant of a stream\<close>

definition pend :: "bidi_call \<Rightarrow> bidi_call list list \<Rightarrow> nat" where
  "pend c ts = count_list (concat ts) c"

lemma pend_simps [simp]:
  "pend c [] = 0" "pend c (ts @ [t]) = pend c ts + count_list t c"
  by (simp_all add: pend_def)

lemma pend_tl:
  assumes "i < length ts" and "ts ! i \<noteq> []"
  shows "pend c ts = pend c (ts[i := tl (ts ! i)]) + (if c = hd (ts ! i) then 1 else 0)"
  using count_list_concat_update [of i ts "hd (ts ! i)" "tl (ts ! i)" c] assms by (simp add: pend_def)

text \<open>The queues are determined by the history: the requests that have not been answered, with a place for the next
  one, and the responses whose writing has not been completed.\<close>

definition queues_ok :: "('q, 'r) bidi_sys \<Rightarrow> bool" where
  "queues_ok s \<longleftrightarrow> length (bs_answered s) + bs_users s \<le> length (bs_received s)
     \<and> bd_request_queue (bs_ctx s) = (if bs_queued s then [] else map Some (drop (length (bs_answered s)) (bs_received s)) @ [None])
     \<and> length (bd_response_queue (bs_ctx s)) + length (bs_answered s) = length (bs_received s)
     \<and> bs_executed s = map Some (take (length (bs_answered s) + bs_users s) (bs_received s))
     \<and> bs_writes s \<le> length (bs_written s) \<and> length (bs_written s) \<le> length (bs_answered s)
     \<and> bs_written s = map Some (take (length (bs_written s)) (bs_answered s))
     \<and> bd_write_back_queue (bs_ctx s) = map Some (drop (length (bs_written s) - bs_writes s) (bs_answered s))"

text \<open>The flags count what is under way.\<close>

definition flags_ok :: "('q, 'r) bidi_sys \<Rightarrow> bool" where
  "flags_ok s \<longleftrightarrow> bd_read_next (bs_ctx s) = Bd_RequestDone \<and> bd_write_next (bs_ctx s) = Bd_ResponseDone
     \<and> bs_reads s + pend Do_read (bs_todo s) = (if bs_queued s \<or> bd_writes_done (bs_ctx s) then 0 else 1)
     \<and> bs_writes s + pend Do_write (bs_todo s) = (if bd_writing (bs_ctx s) then 1 else 0)
     \<and> bs_users s + pend Do_execute (bs_todo s) = (if bd_executing (bs_ctx s) then 1 else 0)
     \<and> length (bs_finished s) + pend (Do_finish True) (bs_todo s) = (if bd_finishing (bs_ctx s) then 1 else 0)
     \<and> length (bs_finished s) = bs_finishes s + (if bs_ended s then 1 else 0)
     \<and> set (bs_finished s) \<subseteq> {True} \<and> pend (Do_finish False) (bs_todo s) = 0 \<and> pend Do_queue (bs_todo s) = 0
     \<and> bd_next_state (bs_ctx s) = Some (if bs_queued s then Bd_InitializedDone else if bd_finishing (bs_ctx s) then Bd_FinishDone else Bd_Invalid)
     \<and> (bs_queued s \<longrightarrow> \<not> bd_writes_done (bs_ctx s) \<and> bs_received s = [] \<and> \<not> bs_ended s)"

text \<open>Nothing that could be done is left undone.\<close>

definition eager :: "('q, 'r) bidi \<Rightarrow> bool" where
  "eager c \<longleftrightarrow> (bd_executing c \<longleftrightarrow> bd_response_queue c \<noteq> []) \<and> (bd_writing c \<longleftrightarrow> bd_write_back_queue c \<noteq> [])
     \<and> (bd_finishing c \<longleftrightarrow> bd_writes_done c \<and> \<not> bd_writing c \<and> \<not> bd_executing c)"

definition bidi_ok :: "('q, 'r) bidi_sys \<Rightarrow> bool" where
  "bidi_ok s \<longleftrightarrow> queues_ok s \<and> flags_ok s \<and> eager (bs_ctx s)"

lemmas bidi_ok_defs = bidi_ok_def queues_ok_def flags_ok_def eager_def

lemma bidi_ok_start: "bd_read_next c = Bd_RequestDone \<Longrightarrow> bd_write_next c = Bd_ResponseDone \<Longrightarrow> bidi_ok (bidi_start c)"
  by (simp add: bidi_ok_defs bidi_start_def bidi_reset_def)

text \<open>What \<open>evaluate_and_progress\<close> makes of a context in which some flags may be down.\<close>

lemma evaluate_eq:
  assumes "bd_executing c \<longrightarrow> bd_response_queue c \<noteq> []" and "bd_writing c \<longrightarrow> bd_write_back_queue c \<noteq> []" and "\<not> bd_finishing c"
  shows "evaluate_and_progress c =
     (let e = (bd_response_queue c \<noteq> []); w = (bd_write_back_queue c \<noteq> []); f = (bd_writes_done c \<and> \<not> w \<and> \<not> e)
      in (c\<lparr>bd_executing := e, bd_writing := w, bd_finishing := f, bd_next_state := if f then Some Bd_FinishDone else bd_next_state c\<rparr>,
          (if w \<and> \<not> bd_writing c then [Do_write] else []) @ (if e \<and> \<not> bd_executing c then [Do_execute] else [])
          @ (if f then [Do_finish True] else [])))"
proof (cases c)
  case (fields ns rn wn rq sq wb w e wd f)
  show ?thesis
    using assms unfolding fields
    by (cases sq; cases wb; cases e; cases w; cases wd)
      (simp_all add: evaluate_and_progress_def evaluate_state_def progress_state_def)
qed

text \<open>One call is made: it was counted among those to be made, and is now counted as under way.\<close>

lemma call_read:
  assumes "bidi_ok s" and "pend Do_read (bs_todo s) = Suc (pend Do_read ts)" and "\<And>c. c \<noteq> Do_read \<Longrightarrow> pend c ts = pend c (bs_todo s)"
  shows "\<exists>s'. make_call Do_read (s\<lparr>bs_todo := ts\<rparr>) = Inr s' \<and> bidi_ok s'"
proof -
  have f: "flags_ok s" and q: "queues_ok s" and e: "eager (bs_ctx s)" using assms(1) by (simp_all add: bidi_ok_def)
  have nq: "\<not> bs_queued s" using f assms(2) by (auto simp: flags_ok_def split: if_splits)
  have "bd_request_queue (bs_ctx s) \<noteq> []" using q nq by (simp add: queues_ok_def)
  moreover have "flags_ok (s\<lparr>bs_todo := ts, bs_reads := bs_reads s + 1\<rparr>)"
    using f assms(2) unfolding flags_ok_def by (simp add: assms(3))
  moreover have "queues_ok (s\<lparr>bs_todo := ts, bs_reads := bs_reads s + 1\<rparr>)" using q by (simp add: queues_ok_def)
  ultimately show ?thesis using e by (simp add: make_call_def bidi_ok_def)
qed

lemma call_write:
  assumes "bidi_ok s" and "pend Do_write (bs_todo s) = Suc (pend Do_write ts)" and "\<And>c. c \<noteq> Do_write \<Longrightarrow> pend c ts = pend c (bs_todo s)"
  shows "\<exists>s'. make_call Do_write (s\<lparr>bs_todo := ts\<rparr>) = Inr s' \<and> bidi_ok s'"
proof -
  have f: "flags_ok s" and q: "queues_ok s" and e: "eager (bs_ctx s)" using assms(1) by (simp_all add: bidi_ok_def)
  let ?n = "length (bs_written s)"
  have w: "bs_writes s = 0" "pend Do_write ts = 0" "bd_writing (bs_ctx s)"
    using f assms(2) by (auto simp: flags_ok_def split: if_splits)
  then have wb: "bd_write_back_queue (bs_ctx s) = map Some (drop ?n (bs_answered s))" "bd_write_back_queue (bs_ctx s) \<noteq> []"
    using q e by (simp_all add: queues_ok_def eager_def)
  then have n: "?n < length (bs_answered s)" by simp
  let ?s = "s\<lparr>bs_todo := ts, bs_writes := bs_writes s + 1, bs_written := bs_written s @ [hd (bd_write_back_queue (bs_ctx s))]\<rparr>"
  have "hd (bd_write_back_queue (bs_ctx s)) = Some (bs_answered s ! ?n)" using n by (simp add: wb(1) hd_map hd_drop_conv_nth)
  then have "bs_written ?s = map Some (take (Suc ?n) (bs_answered s))"
    using q n by (simp add: queues_ok_def take_Suc_conv_app_nth)
  moreover have "length (bs_written ?s) = Suc ?n" by simp
  ultimately have "queues_ok ?s" using q w n wb(1) unfolding queues_ok_def by simp
  moreover have "flags_ok ?s" using f w unfolding flags_ok_def by (simp add: assms(3))
  moreover have "make_call Do_write (s\<lparr>bs_todo := ts\<rparr>) = Inr ?s" using wb(2) by (simp add: make_call_def)
  ultimately show ?thesis using e by (simp add: bidi_ok_def)
qed

lemma call_execute:
  assumes "bidi_ok s" and "pend Do_execute (bs_todo s) = Suc (pend Do_execute ts)" and "\<And>c. c \<noteq> Do_execute \<Longrightarrow> pend c ts = pend c (bs_todo s)"
  shows "\<exists>s'. make_call Do_execute (s\<lparr>bs_todo := ts\<rparr>) = Inr s' \<and> bidi_ok s'"
proof -
  have f: "flags_ok s" and q: "queues_ok s" and e: "eager (bs_ctx s)" using assms(1) by (simp_all add: bidi_ok_def)
  let ?n = "length (bs_answered s)"
  have u: "bs_users s = 0" "pend Do_execute ts = 0" "bd_executing (bs_ctx s)"
    using f assms(2) by (auto simp: flags_ok_def split: if_splits)
  have rq: "bd_response_queue (bs_ctx s) \<noteq> []" using e u by (simp add: eager_def)
  then have n: "?n < length (bs_received s)" using q by (cases "bd_response_queue (bs_ctx s)") (auto simp: queues_ok_def)
  then have nq: "\<not> bs_queued s" using f by (auto simp: flags_ok_def)
  then have qs: "bd_request_queue (bs_ctx s) = map Some (drop ?n (bs_received s)) @ [None]" using q by (simp add: queues_ok_def)
  let ?s = "s\<lparr>bs_todo := ts, bs_users := bs_users s + 1, bs_executed := bs_executed s @ [hd (bd_request_queue (bs_ctx s))]\<rparr>"
  have "hd (bd_request_queue (bs_ctx s)) = Some (bs_received s ! ?n)" using n by (simp add: qs hd_append hd_map hd_drop_conv_nth)
  then have "bs_executed ?s = map Some (take (Suc ?n) (bs_received s))"
    using q n u(1) by (simp add: queues_ok_def take_Suc_conv_app_nth)
  then have "queues_ok ?s" using q u n unfolding queues_ok_def by simp
  moreover have "flags_ok ?s" using f u unfolding flags_ok_def by (simp add: assms(3))
  moreover have "make_call Do_execute (s\<lparr>bs_todo := ts\<rparr>) = Inr ?s" using rq by (simp add: make_call_def qs)
  ultimately show ?thesis using e by (simp add: bidi_ok_def)
qed

lemma call_finish:
  assumes "bidi_ok s" and "pend (Do_finish True) (bs_todo s) = Suc (pend (Do_finish True) ts)"
    and "\<And>c. c \<noteq> Do_finish True \<Longrightarrow> pend c ts = pend c (bs_todo s)"
  shows "\<exists>s'. make_call (Do_finish True) (s\<lparr>bs_todo := ts\<rparr>) = Inr s' \<and> bidi_ok s'"
proof -
  have f: "flags_ok s" and q: "queues_ok s" and e: "eager (bs_ctx s)" using assms(1) by (simp_all add: bidi_ok_def)
  let ?s = "s\<lparr>bs_todo := ts, bs_finishes := bs_finishes s + 1, bs_finished := bs_finished s @ [True]\<rparr>"
  have "flags_ok ?s" using f assms(2) unfolding flags_ok_def by (simp add: assms(3) split: if_splits)
  moreover have "queues_ok ?s" using q by (simp add: queues_ok_def)
  ultimately show ?thesis using e by (simp add: make_call_def bidi_ok_def)
qed

lemma step_call:
  assumes "bidi_ok s" and "i < length (bs_todo s)" and "bs_todo s ! i \<noteq> []"
  shows "\<exists>s'. make_call (hd (bs_todo s ! i)) (s\<lparr>bs_todo := (bs_todo s)[i := tl (bs_todo s ! i)]\<rparr>) = Inr s' \<and> bidi_ok s'"
proof -
  note p = pend_tl [OF assms(2,3)]
  have none: "pend Do_queue (bs_todo s) = 0" "pend (Do_finish False) (bs_todo s) = 0"
    using assms(1) by (simp_all add: bidi_ok_def flags_ok_def)
  show ?thesis
  proof (cases "hd (bs_todo s ! i)")
    case Do_queue
    then show ?thesis using none(1) p [of Do_queue] by simp
  next
    case Do_read
    then show ?thesis using call_read [OF assms(1)] p by simp
  next
    case Do_write
    then show ?thesis using call_write [OF assms(1)] p by simp
  next
    case Do_execute
    then show ?thesis using call_execute [OF assms(1)] p by simp
  next
    case (Do_finish b)
    then show ?thesis using call_finish [OF assms(1)] p none(2) p [of "Do_finish False"] by (cases b) simp_all
  qed
qed

text \<open>A handler first brings flags, queues and history in line, and then lets \<open>evaluate_and_progress\<close> do what has become
  possible.\<close>

lemma evaluate_keeps:
  assumes "queues_ok s" and "flags_ok (s\<lparr>bs_todo := ts @ [pre]\<rparr>)"
    and "bd_executing (bs_ctx s) \<longrightarrow> bd_response_queue (bs_ctx s) \<noteq> []" and "bd_writing (bs_ctx s) \<longrightarrow> bd_write_back_queue (bs_ctx s) \<noteq> []"
    and "\<not> bd_finishing (bs_ctx s)" and "evaluate_and_progress (bs_ctx s) = (c', calls)"
  shows "bidi_ok (s\<lparr>bs_ctx := c', bs_todo := ts @ [pre @ calls]\<rparr>)"
proof -
  let ?c = "bs_ctx s"
  let ?e = "bd_response_queue ?c \<noteq> []" and ?w = "bd_write_back_queue ?c \<noteq> []"
  let ?f = "bd_writes_done ?c \<and> \<not> ?w \<and> \<not> ?e"
  have c': "c' = ?c\<lparr>bd_executing := ?e, bd_writing := ?w, bd_finishing := ?f, bd_next_state := if ?f then Some Bd_FinishDone else bd_next_state ?c\<rparr>"
    and calls: "calls = (if ?w \<and> \<not> bd_writing ?c then [Do_write] else []) @ (if ?e \<and> \<not> bd_executing ?c then [Do_execute] else [])
          @ (if ?f then [Do_finish True] else [])"
    using evaluate_eq [OF assms(3-5)] assms(6) by (simp_all add: Let_def)
  have "queues_ok (s\<lparr>bs_ctx := c', bs_todo := ts @ [pre @ calls]\<rparr>)" using assms(1) by (simp add: queues_ok_def c')
  moreover have "eager c'" unfolding eager_def c' by (cases ?e; cases ?w; simp)
  moreover have "flags_ok (s\<lparr>bs_ctx := c', bs_todo := ts @ [pre @ calls]\<rparr>)"
    using assms(2-5) unfolding flags_ok_def c' calls
    by (cases ?e; cases ?w; cases "bd_executing ?c"; cases "bd_writing ?c"; simp)
  ultimately show ?thesis by (simp add: bidi_ok_def)
qed

lemma still_open: "\<not> bs_ended s \<Longrightarrow> s\<lparr>bs_ended := False\<rparr> = s"
  by simp

lemma step_read:
  assumes "bidi_ok s" and "\<not> bs_ended s" and "0 < bs_reads s"
  shows "\<exists>s'. bidi_step (Ev_read q) s = Some (Inr s') \<and> bidi_ok s'"
proof -
  have f: "flags_ok s" and q: "queues_ok s" and e: "eager (bs_ctx s)" using assms(1) by (simp_all add: bidi_ok_def)
  have st: "\<not> bs_queued s" "\<not> bd_writes_done (bs_ctx s)" "bs_reads s = 1" "pend Do_read (bs_todo s) = 0"
    using f assms(3) by (auto simp: flags_ok_def split: if_splits)
  let ?c = "bs_ctx s"
  let ?c1 = "(store_request q ?c)\<lparr>bd_response_queue := bd_response_queue ?c @ [None], bd_request_queue := bd_request_queue (store_request q ?c) @ [None]\<rparr>"
  let ?s = "s\<lparr>bs_reads := 0, bs_received := bs_received s @ [q], bs_ctx := ?c1\<rparr>"
  obtain c' calls where ev: "evaluate_and_progress ?c1 = (c', calls)" by force
  have qs: "bd_request_queue ?c = map Some (drop (length (bs_answered s)) (bs_received s)) @ [None]" using q st by (simp add: queues_ok_def)
  have "queues_ok ?s" using q st unfolding queues_ok_def by (simp add: store_request_def qs)
  moreover have "flags_ok (?s\<lparr>bs_todo := bs_todo s @ [[Do_read]]\<rparr>)" using f st assms(2) unfolding flags_ok_def by (simp add: store_request_def)
  moreover have "\<not> bd_finishing ?c" "bd_writing ?c \<longrightarrow> bd_write_back_queue ?c \<noteq> []" using e st by (auto simp: eager_def)
  ultimately have "bidi_ok (?s\<lparr>bs_ctx := c', bs_todo := bs_todo s @ [[Do_read] @ calls]\<rparr>)"
    using evaluate_keeps [of ?s "bs_todo s" "[Do_read]" c' calls] ev by (simp add: store_request_def)
  moreover have "bd_read_next ?c = Bd_RequestDone" using f by (simp add: flags_ok_def)
  ultimately show ?thesis using assms(2,3) st ev
    by (simp add: bidi_step_def complete_tag_def bidi_run_def run_next_state_def state_request_done_def store_request_def still_open)
qed

lemma step_read_end:
  assumes "bidi_ok s" and "\<not> bs_ended s" and "0 < bs_reads s"
  shows "\<exists>s'. bidi_step Ev_read_end s = Some (Inr s') \<and> bidi_ok s'"
proof -
  have f: "flags_ok s" and q: "queues_ok s" and e: "eager (bs_ctx s)" using assms(1) by (simp_all add: bidi_ok_def)
  have st: "\<not> bs_queued s" "\<not> bd_writes_done (bs_ctx s)" "bs_reads s = 1" "pend Do_read (bs_todo s) = 0"
    using f assms(3) by (auto simp: flags_ok_def split: if_splits)
  let ?c = "bs_ctx s"
  let ?s = "s\<lparr>bs_reads := 0, bs_ctx := ?c\<lparr>bd_writes_done := True\<rparr>\<rparr>"
  obtain c' calls where ev: "evaluate_and_progress (?c\<lparr>bd_writes_done := True\<rparr>) = (c', calls)" by force
  have "queues_ok ?s" using q by (simp add: queues_ok_def)
  moreover have "flags_ok (?s\<lparr>bs_todo := bs_todo s @ [[]]\<rparr>)" using f st assms(2) unfolding flags_ok_def by simp
  moreover have "\<not> bd_finishing ?c" "bd_writing ?c \<longrightarrow> bd_write_back_queue ?c \<noteq> []" "bd_executing ?c \<longrightarrow> bd_response_queue ?c \<noteq> []"
    using e st by (auto simp: eager_def)
  ultimately have "bidi_ok (?s\<lparr>bs_ctx := c', bs_todo := bs_todo s @ [calls]\<rparr>)"
    using evaluate_keeps [of ?s "bs_todo s" "[]" c' calls] ev by simp
  moreover have "bd_read_next ?c = Bd_RequestDone" using f by (simp add: flags_ok_def)
  ultimately show ?thesis using assms(2,3) st ev
    by (simp add: bidi_step_def complete_tag_def bidi_run_def run_next_state_def state_request_done_def still_open)
qed

lemma step_write:
  assumes "bidi_ok s" and "\<not> bs_ended s" and "0 < bs_writes s"
  shows "\<exists>s'. bidi_step (Ev_write True) s = Some (Inr s') \<and> bidi_ok s'"
proof -
  have f: "flags_ok s" and q: "queues_ok s" and e: "eager (bs_ctx s)" using assms(1) by (simp_all add: bidi_ok_def)
  let ?c = "bs_ctx s"
  have st: "bd_writing ?c" "bs_writes s = 1" "pend Do_write (bs_todo s) = 0"
    using f assms(3) by (auto simp: flags_ok_def split: if_splits)
  have wb: "bd_write_back_queue ?c \<noteq> []" using e st by (simp add: eager_def)
  let ?c1 = "?c\<lparr>bd_writing := False, bd_write_back_queue := tl (bd_write_back_queue ?c)\<rparr>"
  let ?s = "s\<lparr>bs_writes := 0, bs_ctx := ?c1\<rparr>"
  obtain c' calls where ev: "evaluate_and_progress ?c1 = (c', calls)" by force
  have "bs_writes s \<le> length (bs_written s)" using q by (simp only: queues_ok_def)
  then have n: "0 < length (bs_written s)" using assms(3) by linarith
  have "tl (bd_write_back_queue ?c) = map Some (drop (length (bs_written s)) (bs_answered s))"
    using q st n by (simp add: queues_ok_def map_tl [symmetric] tl_drop drop_Suc [symmetric])
  then have "queues_ok ?s" using q st unfolding queues_ok_def by simp
  moreover have "flags_ok (?s\<lparr>bs_todo := bs_todo s @ [[]]\<rparr>)" using f st assms(2) unfolding flags_ok_def by simp
  moreover have "\<not> bd_finishing ?c" "bd_executing ?c \<longrightarrow> bd_response_queue ?c \<noteq> []" using e st by (auto simp: eager_def)
  ultimately have "bidi_ok (?s\<lparr>bs_ctx := c', bs_todo := bs_todo s @ [calls]\<rparr>)"
    using evaluate_keeps [of ?s "bs_todo s" "[]" c' calls] ev by simp
  moreover have "bd_write_next ?c = Bd_ResponseDone" using f by (simp add: flags_ok_def)
  ultimately show ?thesis using assms(2,3) st ev wb
    by (simp add: bidi_step_def complete_tag_def bidi_run_def run_next_state_def state_response_done_def still_open)
qed

lemma step_answer:
  assumes "bidi_ok s" and "\<not> bs_ended s" and "0 < bs_users s"
  shows "\<exists>s'. bidi_step (Ev_answer r) s = Some (Inr s') \<and> bidi_ok s'"
proof -
  have f: "flags_ok s" and q: "queues_ok s" and e: "eager (bs_ctx s)" using assms(1) by (simp_all add: bidi_ok_def)
  let ?c = "bs_ctx s" and ?n = "length (bs_answered s)"
  have st: "bd_executing ?c" "bs_users s = 1" "pend Do_execute (bs_todo s) = 0"
    using f assms(3) by (auto simp: flags_ok_def split: if_splits)
  have rq: "bd_response_queue ?c \<noteq> []" using e st by (simp add: eager_def)
  have n: "?n < length (bs_received s)" using q st by (simp add: queues_ok_def)
  then have nq: "\<not> bs_queued s" using f by (auto simp: flags_ok_def)
  have qs: "bd_request_queue ?c = map Some (drop ?n (bs_received s)) @ [None]" using q nq by (simp add: queues_ok_def)
  have tl: "tl (bd_request_queue ?c) = map Some (drop (Suc ?n) (bs_received s)) @ [None]"
    using n by (simp add: qs Cons_nth_drop_Suc [symmetric])
  let ?c1 = "?c\<lparr>bd_executing := False, bd_write_back_queue := bd_write_back_queue ?c @ [Some r],
           bd_request_queue := tl (bd_request_queue ?c), bd_response_queue := tl (bd_response_queue ?c)\<rparr>"
  let ?s = "s\<lparr>bs_users := 0, bs_answered := bs_answered s @ [r], bs_ctx := ?c1\<rparr>"
  obtain c' calls where ev: "evaluate_and_progress ?c1 = (c', calls)" by force
  have "bs_written s = map Some (take (length (bs_written s)) (bs_answered s @ [r]))" using q by (simp add: queues_ok_def)
  then have "queues_ok ?s" using q st n nq rq unfolding queues_ok_def tl by simp
  moreover have "flags_ok (?s\<lparr>bs_todo := bs_todo s @ [[]]\<rparr>)" using f st nq assms(2) unfolding flags_ok_def by simp
  moreover have "\<not> bd_finishing ?c" using e st by (auto simp: eager_def)
  ultimately have "bidi_ok (?s\<lparr>bs_ctx := c', bs_todo := bs_todo s @ [calls]\<rparr>)"
    using evaluate_keeps [of ?s "bs_todo s" "[]" c' calls] ev by simp
  then show ?thesis using assms(2,3) st ev rq qs
    by (simp add: bidi_step_def finish_response_def store_response_def)
qed

lemma step_finish:
  assumes "bidi_ok s" and "\<not> bs_ended s" and "0 < bs_finishes s"
  shows "\<exists>s'. bidi_step Ev_finish s = Some (Inr s') \<and> bidi_ok s'"
proof -
  have f: "flags_ok s" and q: "queues_ok s" and e: "eager (bs_ctx s)" using assms(1) by (simp_all add: bidi_ok_def)
  have st: "bd_finishing (bs_ctx s)" "bs_finishes s = 1" using f assms(2,3) by (auto simp: flags_ok_def split: if_splits)
  have nq: "\<not> bs_queued s" using e f st by (auto simp: eager_def flags_ok_def)
  then have ns: "bd_next_state (bs_ctx s) = Some Bd_FinishDone" using f st by (simp add: flags_ok_def)
  have "flags_ok (s\<lparr>bs_finishes := 0, bs_todo := bs_todo s @ [[]], bs_ended := True\<rparr>)"
    using f st nq assms(2) unfolding flags_ok_def by simp
  moreover have "queues_ok (s\<lparr>bs_finishes := 0, bs_todo := bs_todo s @ [[]], bs_ended := True\<rparr>)" using q by (simp add: queues_ok_def)
  ultimately show ?thesis using assms(2,3) st ns e
    by (simp add: bidi_step_def complete_tag_def bidi_run_def run_next_state_def state_finish_done_def bidi_ok_def)
qed

lemma step_start:
  assumes "bidi_ok s" and "\<not> bs_ended s" and "bs_queued s"
  shows "\<exists>s'. bidi_step (Ev_start True) s = Some (Inr s') \<and> bidi_ok s'"
proof -
  have f: "flags_ok s" and q: "queues_ok s" and e: "eager (bs_ctx s)" using assms(1) by (simp_all add: bidi_ok_def)
  let ?c = "(bs_ctx s)\<lparr>bd_request_queue := [None], bd_next_state := Some Bd_Invalid\<rparr>"
  let ?s = "s\<lparr>bs_queued := False, bs_ctx := ?c, bs_todo := bs_todo s @ [[Do_read]]\<rparr>"
  have st: "bs_received s = []" "\<not> bd_writes_done (bs_ctx s)" "bd_next_state (bs_ctx s) = Some Bd_InitializedDone" "bd_request_queue (bs_ctx s) = []"
    using f q assms(3) by (simp_all add: flags_ok_def queues_ok_def)
  have "queues_ok ?s" using q st assms(3) unfolding queues_ok_def by auto
  moreover have "\<not> bd_finishing (bs_ctx s)" using e st by (simp add: eager_def)
  then have "flags_ok ?s" using f st assms(2,3) unfolding flags_ok_def by auto
  moreover have "eager ?c" using e by (simp add: eager_def)
  ultimately show ?thesis using assms(2,3) st
    by (simp add: bidi_step_def complete_tag_def bidi_run_def run_next_state_def state_initialized_done_def bidi_ok_def still_open)
qed

lemma bidi_step_ok:
  assumes "bidi_ok s" and "healthy ev" and "bidi_step ev s = Some r"
  shows "\<exists>s'. r = Inr s' \<and> bidi_ok s'"
proof -
  have ne: "\<not> bs_ended s" using assms(3) by (auto simp: bidi_step_def)
  note steps = step_read [OF assms(1) ne] step_read_end [OF assms(1) ne] step_write [OF assms(1) ne] step_answer [OF assms(1) ne]
    step_finish [OF assms(1) ne] step_start [OF assms(1) ne]
  show ?thesis
  proof (cases ev)
    case (Ev_start ok)
    then show ?thesis using assms steps(6) by (auto simp: bidi_step_def ne split: if_splits)
  next
    case (Ev_read q)
    then show ?thesis using assms steps(1) [of q] by (auto simp: bidi_step_def ne split: if_splits)
  next
    case Ev_read_end
    then show ?thesis using assms steps(2) by (auto simp: bidi_step_def ne split: if_splits)
  next
    case (Ev_write ok)
    then show ?thesis using assms steps(3) by (auto simp: bidi_step_def ne split: if_splits)
  next
    case Ev_finish
    then show ?thesis using assms steps(5) by (auto simp: bidi_step_def ne split: if_splits)
  next
    case (Ev_call i)
    then show ?thesis using assms step_call [OF assms(1), of i] by (auto simp: bidi_step_def ne split: if_splits)
  next
    case (Ev_answer r)
    then show ?thesis using assms steps(4) [of r] by (auto simp: bidi_step_def ne split: if_splits)
  next
    case Ev_cancel
    then show ?thesis using assms(2) by simp
  qed
qed

lemma bidi_reach_ok: "bidi_reach s \<Longrightarrow> bidi_ok s"
proof (induction rule: bidi_reach.induct)
  case (bidi_init c)
  then show ?case by (rule bidi_ok_start)
next
  case (bidi_next s ev s')
  then show ?case using bidi_step_ok [of s ev "Inr s'"] by auto
qed

text \<open>What a worker relies on holds whatever the order of completions and whether writes fail or not: a context that
  is not being reset keeps the handlers of its two sub-contexts.\<close>

lemma evaluate_handlers:
  "bd_read_next (fst (evaluate_and_progress c)) = bd_read_next c \<and> bd_write_next (fst (evaluate_and_progress c)) = bd_write_next c"
  by (simp add: evaluate_and_progress_def evaluate_state_def Let_def)

lemma bidi_run_handlers:
  assumes "bidi_run tag ok c = Inr (c', calls, continue)"
  shows "bd_read_next c' = bd_read_next c \<and> bd_write_next c' = bd_write_next c"
proof -
  have ev: "evaluate_and_progress d = (d', k) \<Longrightarrow> bd_read_next d' = bd_read_next d \<and> bd_write_next d' = bd_write_next d" for d d' :: "('a, 'b) bidi" and k
    using evaluate_handlers [of d] by simp
  show ?thesis using assms
    by (auto simp: bidi_run_def run_next_state_def state_initialized_done_def state_request_done_def state_response_done_def
        state_finish_done_def cancel_response_def Let_def dest!: ev split: option.splits bidi_fn.splits prod.splits if_splits)
qed

interpretation bidi: rpc_context bidi_run bidi_reset "\<lambda>c. bd_read_next c = Bd_RequestDone \<and> bd_write_next c = Bd_ResponseDone"
  by unfold_locales (simp_all add: bidi_run_handlers bidi_reset_def)

lemma flags_okD:
  assumes "flags_ok s"
  shows "bs_reads s + pend Do_read (bs_todo s) = (if bs_queued s \<or> bd_writes_done (bs_ctx s) then 0 else 1)"
    "bs_writes s + pend Do_write (bs_todo s) = (if bd_writing (bs_ctx s) then 1 else 0)"
    "bs_users s + pend Do_execute (bs_todo s) = (if bd_executing (bs_ctx s) then 1 else 0)"
    "bs_finishes s + ((if bs_ended s then 1 else 0) + pend (Do_finish True) (bs_todo s)) = (if bd_finishing (bs_ctx s) then 1 else 0)"
    "length (bs_finished s) = bs_finishes s + (if bs_ended s then 1 else 0)" "set (bs_finished s) \<subseteq> {True}"
proof -
  have "length (bs_finished s) + pend (Do_finish True) (bs_todo s) = (if bd_finishing (bs_ctx s) then 1 else 0)"
    and len: "length (bs_finished s) = bs_finishes s + (if bs_ended s then 1 else 0)"
    using assms unfolding flags_ok_def by blast+
  then show "bs_finishes s + ((if bs_ended s then 1 else 0) + pend (Do_finish True) (bs_todo s)) = (if bd_finishing (bs_ctx s) then 1 else 0)"
    by (simp only: add.assoc)
qed (use assms in \<open>unfold flags_ok_def, blast\<close>)+

lemma flags_finished:
  assumes "flags_ok s" and "bs_finished s \<noteq> []"
  shows "bd_finishing (bs_ctx s) \<and> bs_finished s = [True]"
proof -
  have "0 < length (bs_finished s)" using assms(2) by simp
  then have "bd_finishing (bs_ctx s)" "length (bs_finished s) = 1"
    using flags_okD(4,5) [OF assms(1)] by (auto split: if_split_asm)
  then show ?thesis using flags_okD(6) [OF assms(1)] by (cases "bs_finished s") auto
qed

text \<open>C9. A stream on which no write fails, and which the user does not cancel, executes its requests one at a time and in the order of their arrival, and
  writes the responses back in the order in which they were given; never more than one read, one write and one
  finish are under way; the stream is finished at most once, when every request has been answered and every answer
  written. No handler meets an invalid state or an empty queue.\<close>

theorem bidirectional_in_order:
  assumes "bidi_reach s"
  shows "bs_executed s = map Some (take (length (bs_executed s)) (bs_received s))
     \<and> bs_written s = map Some (take (length (bs_written s)) (bs_answered s))
     \<and> length (bs_answered s) \<le> length (bs_executed s) \<and> length (bs_executed s) \<le> Suc (length (bs_answered s))
     \<and> bs_reads s \<le> 1 \<and> bs_writes s \<le> 1 \<and> bs_finishes s \<le> 1
     \<and> (bs_finished s = [] \<or> bs_finished s = [True] \<and> length (bs_answered s) = length (bs_received s) \<and> length (bs_written s) = length (bs_answered s)
          \<and> bs_reads s = 0 \<and> bs_writes s = 0)
     \<and> (\<forall>ev e. healthy ev \<longrightarrow> bidi_step ev s \<noteq> Some (Inl e))"
proof -
  have ok: "bidi_ok s" by (rule bidi_reach_ok [OF assms])
  have f: "flags_ok s" and q: "queues_ok s" and e: "eager (bs_ctx s)" using ok by (simp_all add: bidi_ok_def)
  have ex: "length (bs_executed s) = length (bs_answered s) + bs_users s" using q by (simp add: queues_ok_def)
  have small: "bs_reads s \<le> 1" "bs_writes s \<le> 1" "bs_users s \<le> 1" "bs_finishes s \<le> 1"
    using flags_okD(1-4) [OF f] by (auto split: if_split_asm)
  have fin: "bs_finished s = [True] \<and> length (bs_answered s) = length (bs_received s) \<and> length (bs_written s) = length (bs_answered s)
      \<and> bs_reads s = 0 \<and> bs_writes s = 0" if "bs_finished s \<noteq> []"
  proof -
    have fg: "bd_finishing (bs_ctx s)" "bs_finished s = [True]" using flags_finished [OF f that] by simp_all
    then have g: "bd_writes_done (bs_ctx s)" "bd_write_back_queue (bs_ctx s) = []" "bd_response_queue (bs_ctx s) = []" "\<not> bd_writing (bs_ctx s)"
      using e by (auto simp: eager_def)
    then have "bs_reads s = 0" "bs_writes s = 0" using flags_okD(1,2) [OF f] by simp_all
    then show ?thesis using q g fg by (auto simp: queues_ok_def)
  qed
  have "\<forall>ev e. healthy ev \<longrightarrow> bidi_step ev s \<noteq> Some (Inl e)" using bidi_step_ok [OF ok] by blast
  then show ?thesis using q ex small fin by (auto simp: queues_ok_def)
qed

text \<open>C16. A stream on which no write fails, and which the user does not cancel, is never stuck: when no call is left to be made, nothing is under way in gRPC and the user has
  answered every execution, the stream has been finished and the context has been handed back to the worker.\<close>

theorem bidirectional_finishes:
  assumes "bidi_reach s" and "\<forall>t \<in> set (bs_todo s). t = []" and "\<not> bs_queued s"
    and "bs_reads s = 0" and "bs_writes s = 0" and "bs_finishes s = 0" and "bs_users s = 0"
  shows "bs_ended s \<and> bs_finished s = [True] \<and> bs_written s = map Some (bs_answered s) \<and> length (bs_answered s) = length (bs_received s)"
proof -
  have ok: "bidi_ok s" by (rule bidi_reach_ok [OF assms(1)])
  have f: "flags_ok s" and q: "queues_ok s" and e: "eager (bs_ctx s)" using ok by (simp_all add: bidi_ok_def)
  have "concat (bs_todo s) = []" using assms(2) by simp
  then have p: "pend c (bs_todo s) = 0" for c unfolding pend_def by (simp only: count_list.simps)
  have fl: "bd_writes_done (bs_ctx s)" "\<not> bd_writing (bs_ctx s)" "\<not> bd_executing (bs_ctx s)"
    using flags_okD(1-3) [OF f] assms(3-7) by (auto simp: p split: if_split_asm)
  then have fin: "bd_finishing (bs_ctx s)" "bd_write_back_queue (bs_ctx s) = []" "bd_response_queue (bs_ctx s) = []"
    using e by (auto simp: eager_def)
  then have end': "bs_ended s" using flags_okD(4) [OF f] assms(6) by (simp add: p split: if_split_asm)
  then have "bs_finished s \<noteq> []" using flags_okD(5) [OF f] by auto
  then have "bs_finished s = [True]" using flags_finished [OF f] by blast
  moreover have "length (bs_written s) = length (bs_answered s)" "length (bs_answered s) = length (bs_received s)"
    using q fin assms(5) by (auto simp: queues_ok_def)
  ultimately show ?thesis using q end' by (simp add: queues_ok_def)
qed

subsection \<open>Concrete runs\<close>

fun bidi_trace :: "('q, 'r) bidi_event list \<Rightarrow> ('q, 'r) bidi_sys \<Rightarrow> ('q, 'r) bidi_sys result option" where
  "bidi_trace [] s = Some (Inr s)"
| "bidi_trace (ev # evs) s =
     (case bidi_step ev s of Some (Inr s) \<Rightarrow> bidi_trace evs s | r \<Rightarrow> r)"

lemma bidi_trace_reach:
  "bidi_trace evs s = Some (Inr s') \<Longrightarrow> bidi_reach s \<Longrightarrow> \<forall>ev \<in> set evs. healthy ev \<Longrightarrow> bidi_reach s'"
  by (induction evs arbitrary: s) (auto split: option.splits sum.splits intro: bidi_next)

definition echo_run :: "(nat, nat) bidi_event list" where
  "echo_run = [Ev_start True, Ev_call 0, Ev_read 7, Ev_call 1, Ev_call 1, Ev_answer 70, Ev_call 2, Ev_read_end, Ev_write True,
     Ev_call 4, Ev_finish]"

lemma echo_run_ok:
  "case bidi_trace echo_run (bidi_start bidi_new) of
     Some (Inr s) \<Rightarrow> bs_written s = [Some 70] \<and> bs_executed s = [Some 7] \<and> bs_received s = [7] \<and> bs_answered s = [70] \<and> bs_ended s
       \<and> list_all (\<lambda>t. t = []) (bs_todo s) \<and> \<not> bs_queued s \<and> bs_reads s = 0 \<and> bs_writes s = 0 \<and> bs_finishes s = 0 \<and> bs_users s = 0
   | _ \<Rightarrow> False"
  by code_simp

lemma echo_reach: "\<exists>s. bidi_trace echo_run (bidi_start bidi_new) = Some (Inr s) \<and> bidi_reach s"
proof -
  obtain s where s: "bidi_trace echo_run (bidi_start bidi_new) = Some (Inr s)"
    using echo_run_ok by (auto split: option.splits sum.splits)
  have "bidi_reach (bidi_start bidi_new)" by (rule bidi_init) (simp_all add: bidi_new_def)
  moreover have "\<forall>ev \<in> set echo_run. healthy ev" by (simp add: echo_run_def)
  ultimately show ?thesis using bidi_trace_reach [OF s] s by blast
qed

theorem bidirectional_in_order_witness:
  "\<exists>s. bidi_trace echo_run (bidi_start bidi_new) = Some (Inr s) \<and> bs_executed s = map Some (take 1 (bs_received s)) \<and> bs_reads s \<le> 1"
proof -
  obtain s where s: "bidi_trace echo_run (bidi_start bidi_new) = Some (Inr s)" "bidi_reach s" using echo_reach by blast
  have "length (bs_executed s) = 1" using echo_run_ok s(1) by simp
  then show ?thesis using bidirectional_in_order [OF s(2)] s(1) by auto
qed

theorem bidirectional_finishes_witness:
  "\<exists>s. bidi_trace echo_run (bidi_start bidi_new) = Some (Inr s) \<and> bs_ended s \<and> bs_finished s = [True] \<and> bs_written s = map Some (bs_answered s)"
proof -
  obtain s where s: "bidi_trace echo_run (bidi_start bidi_new) = Some (Inr s)" "bidi_reach s" using echo_reach by blast
  then have "\<forall>t \<in> set (bs_todo s). t = []" "\<not> bs_queued s" "bs_reads s = 0" "bs_writes s = 0" "bs_finishes s = 0" "bs_users s = 0"
    using echo_run_ok by (auto simp: list_all_iff)
  then show ?thesis using bidirectional_finishes [OF s(2)] s(1) by blast
qed

subsection \<open>A failed write\<close>

text \<open>After a failed write the flag \<open>m_Writing\<close> stays up, so neither a write nor a finish is ever decided on again.\<close>

definition jammed :: "('q, 'r) bidi_sys \<Rightarrow> bool" where
  "jammed s \<longleftrightarrow> \<not> bs_ended s \<and> \<not> bs_queued s \<and> bs_finished s = [] \<and> bs_finishes s = 0 \<and> bs_writes s = 0
     \<and> bd_writing (bs_ctx s) \<and> bd_read_next (bs_ctx s) = Bd_RequestDone
     \<and> (\<forall>t \<in> set (bs_todo s). set t \<subseteq> {Do_read, Do_execute})"

lemma evaluate_jammed:
  assumes "bd_writing c" and "evaluate_and_progress c = (c', calls)"
  shows "bd_writing c' \<and> bd_read_next c' = bd_read_next c \<and> set calls \<subseteq> {Do_execute}"
  using assms by (auto simp: evaluate_and_progress_def evaluate_state_def progress_state_def Let_def split: if_splits)

lemma jammed_read:
  assumes "jammed s" and "complete_tag Tag_read ok (s\<lparr>bs_reads := n, bs_received := q, bs_ctx := c\<rparr>) = Inr s'"
    and "bd_writing c" and "bd_read_next c = Bd_RequestDone"
  shows "jammed s'"
proof -
  obtain c1 where c1: "bd_writing c1" "bd_read_next c1 = Bd_RequestDone"
    and run: "bidi_run Tag_read ok c = Inr (case evaluate_and_progress c1 of (c', calls) \<Rightarrow>
        (c', (if \<not> bd_writes_done c1 then [Do_read] else []) @ calls, True))"
  proof
    let ?c = "if \<not> ok then c\<lparr>bd_writes_done := True\<rparr> else c"
    let ?c1 = "if \<not> bd_writes_done ?c then ?c\<lparr>bd_response_queue := bd_response_queue ?c @ [None], bd_request_queue := bd_request_queue ?c @ [None]\<rparr> else ?c"
    show "bidi_run Tag_read ok c = Inr (case evaluate_and_progress ?c1 of (c', calls) \<Rightarrow>
        (c', (if \<not> bd_writes_done ?c1 then [Do_read] else []) @ calls, True))"
      using assms(4) by (simp add: bidi_run_def run_next_state_def state_request_done_def Let_def split: prod.splits)
  qed (use assms(3,4) in simp_all)
  obtain c' calls where ev: "evaluate_and_progress c1 = (c', calls)" by force
  have k: "bd_writing c'" "bd_read_next c' = Bd_RequestDone" "set calls \<subseteq> {Do_execute}"
    using evaluate_jammed [OF c1(1) ev] c1(2) by simp_all
  have s': "s' = s\<lparr>bs_reads := n, bs_received := q, bs_ctx := c',
      bs_todo := bs_todo s @ [(if \<not> bd_writes_done c1 then [Do_read] else []) @ calls], bs_ended := False\<rparr>"
    using assms(2) run ev by (simp add: complete_tag_def)
  have "set ((if \<not> bd_writes_done c1 then [Do_read] else []) @ calls) \<subseteq> {Do_read, Do_execute}" using k(3) by auto
  then show ?thesis using assms(1) k(1,2) by (simp add: s' jammed_def)
qed

lemma jammed_answer:
  assumes "jammed s" and "finish_response (store_response a (bs_ctx s)) = Inr (c, calls)"
  shows "bd_writing c \<and> bd_read_next c = Bd_RequestDone \<and> set calls \<subseteq> {Do_execute}"
proof -
  let ?d = "store_response a (bs_ctx s)"
  have "evaluate_and_progress (?d\<lparr>bd_executing := False, bd_write_back_queue := bd_write_back_queue ?d @ [hd (bd_response_queue ?d)],
      bd_request_queue := tl (bd_request_queue ?d), bd_response_queue := tl (bd_response_queue ?d)\<rparr>) = (c, calls)"
    using assms(2) by (simp add: finish_response_def split: if_splits)
  from evaluate_jammed [OF _ this] assms(1) show ?thesis by (simp add: jammed_def store_response_def)
qed

lemma jammed_call:
  assumes "jammed s" and "i < length (bs_todo s)" and "bs_todo s ! i \<noteq> []"
    and "make_call (hd (bs_todo s ! i)) (s\<lparr>bs_todo := (bs_todo s)[i := tl (bs_todo s ! i)]\<rparr>) = Inr s'"
  shows "jammed s'"
proof -
  have mem: "bs_todo s ! i \<in> set (bs_todo s)" using assms(2) by simp
  then have sub: "set (bs_todo s ! i) \<subseteq> {Do_read, Do_execute}" using assms(1) by (simp add: jammed_def)
  then have hd: "hd (bs_todo s ! i) = Do_read \<or> hd (bs_todo s ! i) = Do_execute"
    using hd_in_set [OF assms(3)] by blast
  have "\<forall>t \<in> set ((bs_todo s)[i := tl (bs_todo s ! i)]). set t \<subseteq> {Do_read, Do_execute}"
    using assms(1) sub list.set_sel(2) [OF assms(3)] set_update_subset_insert [of "bs_todo s" i "tl (bs_todo s ! i)"]
    by (fastforce simp: jammed_def)
  moreover obtain s0 where "s' = s0" "bs_todo s0 = (bs_todo s)[i := tl (bs_todo s ! i)]" "bs_ctx s0 = bs_ctx s"
    "bs_ended s0 = bs_ended s" "bs_queued s0 = bs_queued s" "bs_finished s0 = bs_finished s" "bs_finishes s0 = bs_finishes s"
    "bs_writes s0 = bs_writes s"
    using hd assms(4) by (auto simp: make_call_def split: if_splits)
  ultimately show ?thesis using assms(1) by (simp add: jammed_def)
qed

lemma jammed_step:
  assumes "jammed s" and "ev \<noteq> Ev_cancel" and "bidi_step ev s = Some (Inr s')"
  shows "jammed s'"
proof -
  have j: "\<not> bs_ended s" "\<not> bs_queued s" "bs_finishes s = 0" "bs_writes s = 0" "bd_writing (bs_ctx s)" "bd_read_next (bs_ctx s) = Bd_RequestDone"
    using assms(1) by (simp_all add: jammed_def)
  show ?thesis
  proof (cases ev)
    case (Ev_read q)
    then show ?thesis using assms(3) j jammed_read [OF assms(1), of True]
      by (auto simp: bidi_step_def store_request_def split: if_splits)
  next
    case Ev_read_end
    have "s\<lparr>bs_reads := n\<rparr> = s\<lparr>bs_reads := n, bs_received := bs_received s, bs_ctx := bs_ctx s\<rparr>" for n by simp
    then show ?thesis using Ev_read_end assms(3) j jammed_read [OF assms(1), where ok = False and q = "bs_received s" and c = "bs_ctx s" and s' = s']
      by (auto simp: bidi_step_def split: if_splits)
  next
    case (Ev_call i)
    then show ?thesis using assms(3) j jammed_call [OF assms(1)] by (auto simp: bidi_step_def split: if_splits)
  next
    case (Ev_answer a)
    then obtain c calls where f: "finish_response (store_response a (bs_ctx s)) = Inr (c, calls)"
      and s': "s' = s\<lparr>bs_users := bs_users s - 1, bs_answered := bs_answered s @ [a], bs_ctx := c, bs_todo := bs_todo s @ [calls]\<rparr>"
      using assms(3) j by (auto simp: bidi_step_def rbind_eq_Inr split: if_splits)
    from jammed_answer [OF assms(1) f] show ?thesis using assms(1) by (auto simp: s' jammed_def)
  qed (use assms(2,3) j in \<open>auto simp: bidi_step_def split: if_splits\<close>)
qed

lemma jammed_trace:
  "bidi_trace evs s = Some (Inr s') \<Longrightarrow> jammed s \<Longrightarrow> Ev_cancel \<notin> set evs \<Longrightarrow> jammed s'"
proof (induction evs arbitrary: s)
  case (Cons ev evs)
  then obtain s1 where s1: "bidi_step ev s = Some (Inr s1)" "bidi_trace evs s1 = Some (Inr s')"
    by (auto split: option.splits sum.splits)
  have "jammed s1" using jammed_step [OF Cons.prems(2) _ s1(1)] Cons.prems(3) by auto
  then show ?case using Cons.IH [OF s1(2)] Cons.prems(3) by simp
qed simp

lemma failed_write_jams:
  assumes "bidi_reach s" and "bd_executing (bs_ctx s)" and "bidi_step (Ev_write False) s = Some (Inr s')"
  shows "jammed s'"
proof -
  have ok: "bidi_ok s" by (rule bidi_reach_ok [OF assms(1)])
  have f: "flags_ok s" and q: "queues_ok s" and e: "eager (bs_ctx s)" using ok by (simp_all add: bidi_ok_def)
  have ne: "\<not> bs_ended s" "0 < bs_writes s" using assms(3) by (auto simp: bidi_step_def split: if_splits)
  have w: "bd_writing (bs_ctx s)" "bs_writes s = 1" "pend Do_write (bs_todo s) = 0"
    using flags_okD(2) [OF f] ne(2) by (auto split: if_split_asm)
  have nf: "\<not> bd_finishing (bs_ctx s)" using e w(1) by (auto simp: eager_def)
  then have fin: "bs_finishes s = 0" "pend (Do_finish True) (bs_todo s) = 0" "bs_finished s = []"
    using flags_okD(4,5) [OF f] ne(1) by (simp_all split: if_split_asm)
  have rest: "pend (Do_finish False) (bs_todo s) = 0" "pend Do_queue (bs_todo s) = 0" "bd_read_next (bs_ctx s) = Bd_RequestDone"
    "bd_write_next (bs_ctx s) = Bd_ResponseDone" using f by (simp_all add: flags_ok_def)
  have "bd_response_queue (bs_ctx s) \<noteq> []" using e assms(2) by (simp add: eager_def)
  then have "bs_received s \<noteq> []" using q by (auto simp: queues_ok_def)
  then have nq: "\<not> bs_queued s" using f by (simp add: flags_ok_def)
  have s': "s' = s\<lparr>bs_writes := 0, bs_ctx := (bs_ctx s)\<lparr>bd_next_state := Some Bd_FinishDone\<rparr>, bs_todo := bs_todo s @ [[]], bs_ended := False\<rparr>"
    using assms(2,3) ne w(2) rest(4)
    by (simp add: bidi_step_def complete_tag_def bidi_run_def run_next_state_def state_response_done_def cancel_response_def)
  have "Do_write \<notin> set t \<and> Do_queue \<notin> set t \<and> Do_finish b \<notin> set t" if "t \<in> set (bs_todo s)" for t b
    using w(3) fin(2) rest(1,2) that by (cases b) (auto simp: pend_def count_list_0_iff)
  then have "\<forall>t \<in> set (bs_todo s). set t \<subseteq> {Do_read, Do_execute}"
    by (metis (full_types) bidi_call.exhaust insertCI subsetI)
  then show ?thesis using fin nq w(1) rest(3) by (auto simp: s' jammed_def)
qed

text \<open>C29. When a write fails while a request is being executed, the stream hangs, whatever happens afterwards: \<open>CancelResponse\<close>,
  which \<open>StateResponseDone\<close> calls, does not call \<^verbatim>\<open>Finish\<close> because of the execution, and as \<open>m_Writing\<close> stays set nothing
  calls it when the execution ends. Unless the user calls \<open>CancelResponse\<close>, the stream is never finished and the
  context never handed back, however many completions, answers and calls follow.\<close>

theorem bidirectional_cancel_hangs:
  assumes "bidi_reach s" and "bd_executing (bs_ctx s)" and "bidi_step (Ev_write False) s = Some (Inr s1)"
    and "bidi_trace evs s1 = Some (Inr s2)" and "Ev_cancel \<notin> set evs"
  shows "\<not> bs_ended s2 \<and> bs_finished s2 = [] \<and> bs_finishes s2 = 0 \<and> bidi_step Ev_finish s2 = None"
  using jammed_trace [OF assms(4) failed_write_jams [OF assms(1-3)] assms(5)] by (simp add: jammed_def bidi_step_def)

definition busy_run :: "(nat, nat) bidi_event list" where
  "busy_run = [Ev_start True, Ev_call 0, Ev_read 7, Ev_call 1, Ev_call 1, Ev_answer 70, Ev_call 2, Ev_read 8, Ev_call 3, Ev_call 3]"

definition late_run :: "(nat, nat) bidi_event list" where
  "late_run = [Ev_read_end, Ev_answer 80]"

lemma busy_run_ok:
  "case bidi_trace busy_run (bidi_start bidi_new) of
     Some (Inr s) \<Rightarrow> bd_executing (bs_ctx s)
       \<and> (case bidi_step (Ev_write False) s of
            Some (Inr s1) \<Rightarrow> (case bidi_trace late_run s1 of Some (Inr s2) \<Rightarrow> bs_users s2 = 0 | _ \<Rightarrow> False) | _ \<Rightarrow> False)
   | _ \<Rightarrow> False"
  by code_simp

theorem bidirectional_cancel_hangs_witness:
  "\<exists>s s1 s2. bidi_trace busy_run (bidi_start bidi_new) = Some (Inr s) \<and> bidi_step (Ev_write False) s = Some (Inr s1)
     \<and> bidi_trace late_run s1 = Some (Inr s2) \<and> \<not> bs_ended s2 \<and> bs_finished s2 = []"
proof -
  obtain s s1 s2 where s: "bidi_trace busy_run (bidi_start bidi_new) = Some (Inr s)" "bd_executing (bs_ctx s)"
    "bidi_step (Ev_write False) s = Some (Inr s1)" "bidi_trace late_run s1 = Some (Inr s2)"
    using some_okD [OF busy_run_ok] by (auto dest!: some_okD)
  have "bidi_reach (bidi_start bidi_new)" by (rule bidi_init) (simp_all add: bidi_new_def)
  moreover have "\<forall>ev \<in> set busy_run. healthy ev" by (simp add: busy_run_def)
  ultimately have "bidi_reach s" using bidi_trace_reach [OF s(1)] by blast
  moreover have "Ev_cancel \<notin> set late_run" by (simp add: late_run_def)
  ultimately show ?thesis using bidirectional_cancel_hangs [OF _ s(2-4)] s by blast
qed

end
