(* ===== verification/Streaming.thy ===== *)
theory Streaming
  imports Rpc "HOL-Library.Sublist"
begin

section \<open>The streaming life cycle\<close>

text \<open>
  \<^verbatim>\<open>tools/nvrpc/include/nvrpc/life_cycle_streaming.h\<close>: a stream whose requests are handed to the user one by one, together
  with a shared \<^verbatim>\<open>ServerStream\<close> on which the user may write responses, finish, cancel, or block the finish at any time
  and from any thread. A handler decides under the mutex what is to be called and makes the calls afterwards. The
  stream object is counted: it belongs to the context (\<open>ss_server_stream\<close>) and to \<open>ss_holders\<close> others, the callbacks
  that are about to run and the user; when the last one lets go, a deleter runs that may close the stream.
\<close>

datatype st_fn = St_Invalid | St_InitializedDone | St_ReadDone | St_WriteDone | St_FinishedDone

datatype 'q st_call =
    C_write
  | C_request "'q option"
  | C_requests_finished
  | C_read
  | C_finish
  | C_release
  | C_delete
  | C_stream_finished

record ('q, 'r) streaming =
  ss_next_state :: st_fn
  ss_read_next :: st_fn
  ss_write_next :: st_fn
  ss_request_queue :: "'q option list"
  ss_response_queue :: "'r list"
  ss_server_stream :: bool
  ss_holders :: nat
  ss_connected :: bool
  ss_reading :: bool
  ss_writing :: bool
  ss_finishing :: bool
  ss_reads_done :: bool
  ss_writes_done :: bool
  ss_reads_finished :: bool
  ss_block_finish :: bool
  ss_status :: "bool option"

definition streaming_new :: "('q, 'r) streaming" where
  "streaming_new = \<lparr>ss_next_state = St_Invalid, ss_read_next = St_Invalid, ss_write_next = St_Invalid, ss_request_queue = [],
     ss_response_queue = [], ss_server_stream = False, ss_holders = 0, ss_connected = False, ss_reading = False, ss_writing = False,
     ss_finishing = False, ss_reads_done = False, ss_writes_done = False, ss_reads_finished = False, ss_block_finish = False,
     ss_status = None\<rparr>"

text \<open>\<open>m_BlockFinish\<close> is not reset.\<close>

definition streaming_reset :: "('q, 'r) streaming \<Rightarrow> ('q, 'r) streaming" where
  "streaming_reset s =
     s\<lparr>ss_reading := False, ss_writing := False, ss_finishing := False, ss_reads_done := False, ss_writes_done := False,
       ss_reads_finished := False, ss_request_queue := [], ss_response_queue := [], ss_server_stream := False,
       ss_next_state := St_InitializedDone, ss_read_next := St_Invalid, ss_write_next := St_Invalid, ss_status := None\<rparr>"

definition expired :: "('q, 'r) streaming \<Rightarrow> bool" where
  "expired s \<longleftrightarrow> \<not> ss_server_stream s \<and> ss_holders s = 0"

text \<open>A callback captures the stream of the context, if there is one; the copy is let go of when the actions are
  destroyed.\<close>

definition capture :: "'q st_call \<Rightarrow> ('q, 'r) streaming \<Rightarrow> ('q, 'r) streaming \<times> ('q st_call \<times> bool) option" where
  "capture cb s = (if ss_server_stream s then s\<lparr>ss_holders := ss_holders s + 1\<rparr> else s, Some (cb, ss_server_stream s))"

definition eval_read :: "('q, 'r) streaming \<Rightarrow> ('q, 'r) streaming \<times> bool \<times> ('q st_call \<times> bool) option" where
  "eval_read s =
     (if \<not> ss_reading s \<and> \<not> ss_reads_done s
      then (let queue = ss_request_queue s @ [None];
                (s, ex) = capture (C_request (hd queue)) s
            in (s\<lparr>ss_reading := True, ss_request_queue := tl queue, ss_read_next := St_ReadDone\<rparr>, True, ex))
      else (s, False, None))"

definition eval_reads_finished ::
    "('q, 'r) streaming \<Rightarrow> ('q st_call \<times> bool) option \<Rightarrow> ('q, 'r) streaming \<times> ('q st_call \<times> bool) option" where
  "eval_reads_finished s ex =
     (if \<not> ss_reading s \<and> ss_reads_done s \<and> \<not> ss_reads_finished s \<and> \<not> (ss_status s \<noteq> None \<or> expired s)
      then (let (s, ex) = capture C_requests_finished s in (s\<lparr>ss_reads_finished := True, ss_server_stream := False\<rparr>, ex))
      else (s, ex))"

definition eval_cancelled ::
    "('q, 'r) streaming \<Rightarrow> ('q st_call \<times> bool) option \<Rightarrow> ('q, 'r) streaming \<times> ('q st_call \<times> bool) option" where
  "eval_cancelled s ex =
     (if ss_status s = Some False
      then (case ex of Some (cb, True) \<Rightarrow> s\<lparr>ss_holders := ss_holders s - 1\<rparr> | _ \<Rightarrow> s, None)
      else (s, ex))"

definition eval_write :: "('q, 'r) streaming \<Rightarrow> ('q, 'r) streaming \<times> bool" where
  "eval_write s =
     (if \<not> ss_writing s \<and> ss_response_queue s \<noteq> [] then (s\<lparr>ss_writing := True, ss_write_next := St_WriteDone\<rparr>, True) else (s, False))"

definition eval_finish :: "('q, 'r) streaming \<Rightarrow> ('q, 'r) streaming \<times> bool" where
  "eval_finish s =
     (if \<not> ss_reading s \<and> \<not> ss_writing s \<and> \<not> ss_finishing s \<and> ss_status s \<noteq> None \<and> \<not> ss_block_finish s
      then (s\<lparr>ss_finishing := True, ss_next_state := St_FinishedDone\<rparr>, True) else (s, False))"

definition forward_calls :: "bool \<Rightarrow> bool \<Rightarrow> ('q st_call \<times> bool) option \<Rightarrow> bool \<Rightarrow> 'q st_call list" where
  "forward_calls should_read should_write should_execute should_finish =
     (if should_write then [C_write] else [])
     @ (case should_execute of None \<Rightarrow> [] | Some (cb, _) \<Rightarrow> [cb])
     @ (if should_read then [C_read] else []) @ (if should_finish then [C_finish] else [])
     @ (case should_execute of Some (cb, True) \<Rightarrow> [C_release] | _ \<Rightarrow> [])"

definition st_evaluate :: "('q, 'r) streaming \<Rightarrow> ('q, 'r) streaming \<times> 'q st_call list" where
  "st_evaluate s =
     (let (s, should_read, ex) = eval_read s;
          (s, ex) = eval_reads_finished s ex;
          (s, ex) = eval_cancelled s ex;
          (s, should_write) = eval_write s;
          (s, should_finish) = eval_finish s
      in (s, forward_calls should_read should_write ex should_finish))"

definition close_stream :: "bool \<Rightarrow> ('q, 'r) streaming \<Rightarrow> ('q, 'r) streaming \<times> 'q st_call list" where
  "close_stream status s =
     (let s = s\<lparr>ss_writes_done := True, ss_status := Some status\<rparr>;
          s = (if \<not> ss_reads_done s then s\<lparr>ss_response_queue := []\<rparr> else s)
      in st_evaluate s)"

definition st_write_response :: "'r \<Rightarrow> ('q, 'r) streaming \<Rightarrow> ('q, 'r) streaming \<times> 'q st_call list" where
  "st_write_response response s = st_evaluate (s\<lparr>ss_response_queue := ss_response_queue s @ [response]\<rparr>)"

definition st_block_finish :: "('q, 'r) streaming \<Rightarrow> ('q, 'r) streaming" where
  "st_block_finish s = s\<lparr>ss_block_finish := True\<rparr>"

text \<open>The actions are never evaluated.\<close>

definition st_unblock_finish :: "('q, 'r) streaming \<Rightarrow> ('q, 'r) streaming \<times> 'q st_call list" where
  "st_unblock_finish s = (s\<lparr>ss_block_finish := False\<rparr>, forward_calls False False None False)"

subsection \<open>Handlers of completed tags\<close>

text \<open>\<open>StateInitializedDone\<close> calls the user between its two halves.\<close>

definition initialized_begin :: "('q, 'r) streaming \<Rightarrow> ('q, 'r) streaming" where
  "initialized_begin s = s\<lparr>ss_next_state := St_Invalid, ss_server_stream := True, ss_connected := True\<rparr>"

definition initialized_end :: "('q, 'r) streaming \<Rightarrow> ('q, 'r) streaming \<times> 'q st_call list" where
  "initialized_end s =
     (s\<lparr>ss_reading := True, ss_request_queue := ss_request_queue s @ [None], ss_read_next := St_ReadDone\<rparr>, [C_read])"

definition st_read_done :: "bool \<Rightarrow> ('q, 'r) streaming \<Rightarrow> (('q, 'r) streaming \<times> 'q st_call list) result" where
  "st_read_done ok s =
     (let s = s\<lparr>ss_reading := False\<rparr>
      in if ok then Inr (st_evaluate s)
         else if ss_request_queue s = [] then Inl (Undefined_behaviour ''pop of an empty queue'')
         else Inr (st_evaluate (s\<lparr>ss_reads_done := True, ss_request_queue := tl (ss_request_queue s), ss_read_next := St_Invalid\<rparr>)))"

text \<open>After a failed write the stream is closed under the mutex, which is recursive; the calls that this leads to are made like all
  others, with more interleavings than the code has.\<close>

definition st_write_done :: "bool \<Rightarrow> ('q, 'r) streaming \<Rightarrow> (('q, 'r) streaming \<times> 'q st_call list) result" where
  "st_write_done ok s =
     (let s = s\<lparr>ss_writing := False\<rparr>
      in if \<not> ok then (let (s, calls1) = close_stream False s; (s, calls2) = st_evaluate s in Inr (s, calls1 @ calls2))
         else if ss_response_queue s = [] then Inl (Undefined_behaviour ''pop of an empty queue'')
         else Inr (st_evaluate (s\<lparr>ss_response_queue := tl (ss_response_queue s), ss_write_next := St_Invalid\<rparr>)))"

text \<open>The deleter of the stream, and the destructor it ends with.\<close>

definition stream_deleter :: "('q, 'r) streaming \<Rightarrow> ('q, 'r) streaming \<times> 'q st_call list" where
  "stream_deleter s = (case st_evaluate s of (s, calls) \<Rightarrow> (s, calls @ [C_delete]))"

definition stream_destructor :: "('q, 'r) streaming \<Rightarrow> ('q, 'r) streaming \<times> 'q st_call list" where
  "stream_destructor s =
     (if ss_connected s
      then (let (s, calls1) = st_unblock_finish s; (s, calls2) = close_stream False s in (s\<lparr>ss_connected := False\<rparr>, calls1 @ calls2))
      else (s, []))"

definition release_stream :: "('q, 'r) streaming \<Rightarrow> ('q, 'r) streaming \<times> 'q st_call list" where
  "release_stream s =
     (let s = s\<lparr>ss_holders := ss_holders s - 1\<rparr> in if expired s then stream_deleter s else (s, []))"

definition st_finished_done :: "('q, 'r) streaming \<Rightarrow> ('q, 'r) streaming \<times> 'q st_call list" where
  "st_finished_done s =
     (let held = ss_server_stream s; s = s\<lparr>ss_server_stream := False\<rparr>;
          (s, calls) = (if held \<and> expired s then stream_deleter s else (s, []))
      in (if \<not> expired s then s\<lparr>ss_connected := False\<rparr> else s, C_stream_finished # calls))"

subsection \<open>What the user does with a stream\<close>

datatype 'r user_op = U_write 'r | U_cancel | U_finish | U_block | U_unblock | U_copy | U_release

text \<open>\<open>FinishStream\<close> and \<open>CancelStream\<close> keep the mutex of the stream until it is disconnected.\<close>

definition user_op :: "'r user_op \<Rightarrow> ('q, 'r) streaming \<Rightarrow> ('q, 'r) streaming \<times> 'q st_call list" where
  "user_op op s =
     (case op of
        U_copy \<Rightarrow> (s\<lparr>ss_holders := ss_holders s + 1\<rparr>, [])
      | U_release \<Rightarrow> release_stream s
      | _ \<Rightarrow>
          if \<not> ss_connected s then (s, [])
          else (case op of
                  U_write r \<Rightarrow> st_write_response r s
                | U_cancel \<Rightarrow> (case close_stream False s of (s, calls) \<Rightarrow> (s\<lparr>ss_connected := False\<rparr>, calls))
                | U_finish \<Rightarrow> (case close_stream True s of (s, calls) \<Rightarrow> (s\<lparr>ss_connected := False\<rparr>, calls))
                | U_block \<Rightarrow> (st_block_finish s, [])
                | U_unblock \<Rightarrow> st_unblock_finish s
                | _ \<Rightarrow> (s, [])))"

subsection \<open>A context between gRPC and the user\<close>

record ('q, 'r) st_sys =
  sy_ctx :: "('q, 'r) streaming"
  sy_todo :: "'q st_call list list"
  sy_queued :: bool
  sy_hook :: bool
  sy_reads :: nat
  sy_writes :: nat
  sy_finishes :: nat
  sy_users :: nat
  sy_ended :: bool
  sy_received :: "'q list"
  sy_delivered :: "'q option list"
  sy_written :: "'r list"
  sy_finished :: "bool list"

definition st_start :: "('q, 'r) streaming \<Rightarrow> ('q, 'r) st_sys" where
  "st_start c = \<lparr>sy_ctx = streaming_reset c, sy_todo = [], sy_queued = True, sy_hook = False, sy_reads = 0, sy_writes = 0,
     sy_finishes = 0, sy_users = 0, sy_ended = False, sy_received = [], sy_delivered = [], sy_written = [], sy_finished = []\<rparr>"

datatype ('q, 'r) st_event =
    E_start bool
  | E_hook_end
  | E_read 'q
  | E_read_end
  | E_write bool
  | E_finish
  | E_call nat
  | E_user "'r user_op"
  | E_block bool

text \<open>A call that is made by thread \<open>i\<close>; the release of the last copy of the stream, and its deletion, lead to further calls of
  the same thread.\<close>

definition push_calls :: "nat \<Rightarrow> ('q, 'r) streaming \<times> 'q st_call list \<Rightarrow> ('q, 'r) st_sys \<Rightarrow> ('q, 'r) st_sys" where
  "push_calls i = (\<lambda>(c, calls) s. s\<lparr>sy_ctx := c, sy_todo := (sy_todo s)[i := calls @ sy_todo s ! i]\<rparr>)"

definition st_make_call :: "nat \<Rightarrow> 'q st_call \<Rightarrow> ('q, 'r) st_sys \<Rightarrow> ('q, 'r) st_sys result" where
  "st_make_call i call s =
     (case call of
        C_write \<Rightarrow>
          (case ss_response_queue (sy_ctx s) of
             [] \<Rightarrow> Inl (Undefined_behaviour ''front of an empty queue'')
           | r # _ \<Rightarrow> Inr (s\<lparr>sy_writes := sy_writes s + 1, sy_written := sy_written s @ [r]\<rparr>))
      | C_request q \<Rightarrow>
          Inr (s\<lparr>sy_delivered := sy_delivered s @ [q], sy_users := sy_users s + 1,
                 sy_ctx := (sy_ctx s)\<lparr>ss_holders := ss_holders (sy_ctx s) + 1\<rparr>\<rparr>)
      | C_requests_finished \<Rightarrow>
          Inr (s\<lparr>sy_users := sy_users s + 1, sy_ctx := (sy_ctx s)\<lparr>ss_holders := ss_holders (sy_ctx s) + 1\<rparr>\<rparr>)
      | C_read \<Rightarrow>
          if ss_request_queue (sy_ctx s) = [] then Inl (Undefined_behaviour ''back of an empty queue'')
          else Inr (s\<lparr>sy_reads := sy_reads s + 1\<rparr>)
      | C_finish \<Rightarrow>
          (case ss_status (sy_ctx s) of
             None \<Rightarrow> Inl (Undefined_behaviour ''m_Status'')
           | Some ok \<Rightarrow> Inr (s\<lparr>sy_finishes := sy_finishes s + 1, sy_finished := sy_finished s @ [ok]\<rparr>))
      | C_release \<Rightarrow> Inr (push_calls i (release_stream (sy_ctx s)) s)
      | C_delete \<Rightarrow> Inr (push_calls i (stream_destructor (sy_ctx s)) s)
      | C_stream_finished \<Rightarrow> Inr s)"

definition spawn :: "('q, 'r) streaming \<times> 'q st_call list \<Rightarrow> ('q, 'r) st_sys \<Rightarrow> ('q, 'r) st_sys" where
  "spawn = (\<lambda>(c, calls) s. s\<lparr>sy_ctx := c, sy_todo := sy_todo s @ [calls]\<rparr>)"

definition st_main_done :: "bool \<Rightarrow> ('q, 'r) st_sys \<Rightarrow> ('q, 'r) st_sys result" where
  "st_main_done ok s =
     (case ss_next_state (sy_ctx s) of
        St_InitializedDone \<Rightarrow>
          if \<not> ok then Inr (s\<lparr>sy_ended := True\<rparr>) else Inr (s\<lparr>sy_ctx := initialized_begin (sy_ctx s), sy_hook := True\<rparr>)
      | St_FinishedDone \<Rightarrow> Inr ((spawn (st_finished_done (sy_ctx s)) s)\<lparr>sy_ended := True\<rparr>)
      | _ \<Rightarrow> Inl (Std_runtime_error ''invalid state''))"

definition st_sub_done :: "st_fn \<Rightarrow> bool \<Rightarrow> ('q, 'r) st_sys \<Rightarrow> ('q, 'r) st_sys result" where
  "st_sub_done state_fn ok s =
     (case state_fn of
        St_ReadDone \<Rightarrow> map_sum id (\<lambda>r. spawn r s) (st_read_done ok (sy_ctx s))
      | St_WriteDone \<Rightarrow> map_sum id (\<lambda>r. spawn r s) (st_write_done ok (sy_ctx s))
      | _ \<Rightarrow> Inl (Std_runtime_error ''invalid state''))"

definition store_read :: "'q \<Rightarrow> ('q, 'r) st_sys \<Rightarrow> ('q, 'r) st_sys" where
  "store_read q s = s\<lparr>sy_received := sy_received s @ [q],
     sy_ctx := (sy_ctx s)\<lparr>ss_request_queue := butlast (ss_request_queue (sy_ctx s)) @ [Some q]\<rparr>\<rparr>"

definition count_user :: "'r user_op \<Rightarrow> nat \<Rightarrow> nat" where
  "count_user op n = (case op of U_copy \<Rightarrow> n + 1 | U_release \<Rightarrow> n - 1 | _ \<Rightarrow> n)"

text \<open>In the hook \<open>StreamInitialized\<close> the user has a copy of the stream as long as the hook runs. \<open>BlockFinish\<close> and \<open>UnblockFinish\<close>
  of the life cycle itself are open to the derived class at any time (\<open>E_block\<close>).\<close>

definition st_step :: "('q, 'r) st_event \<Rightarrow> ('q, 'r) st_sys \<Rightarrow> ('q, 'r) st_sys result option" where
  "st_step ev s =
     (case ev of
        E_start ok \<Rightarrow> if sy_queued s then Some (st_main_done ok (s\<lparr>sy_queued := False\<rparr>)) else None
      | E_hook_end \<Rightarrow>
          if sy_hook s \<and> concat (sy_todo s) = [] then Some (Inr (spawn (initialized_end (sy_ctx s)) (s\<lparr>sy_hook := False\<rparr>))) else None
      | E_read q \<Rightarrow>
          if sy_reads s > 0 then Some (st_sub_done (ss_read_next (sy_ctx s)) True (store_read q (s\<lparr>sy_reads := sy_reads s - 1\<rparr>))) else None
      | E_read_end \<Rightarrow>
          if sy_reads s > 0 then Some (st_sub_done (ss_read_next (sy_ctx s)) False (s\<lparr>sy_reads := sy_reads s - 1\<rparr>)) else None
      | E_write ok \<Rightarrow>
          if sy_writes s > 0 then Some (st_sub_done (ss_write_next (sy_ctx s)) ok (s\<lparr>sy_writes := sy_writes s - 1\<rparr>)) else None
      | E_finish \<Rightarrow> if sy_finishes s > 0 then Some (st_main_done True (s\<lparr>sy_finishes := sy_finishes s - 1\<rparr>)) else None
      | E_call i \<Rightarrow>
          if i < length (sy_todo s) \<and> sy_todo s ! i \<noteq> []
          then Some (st_make_call i (hd (sy_todo s ! i)) (s\<lparr>sy_todo := (sy_todo s)[i := tl (sy_todo s ! i)]\<rparr>)) else None
      | E_user op \<Rightarrow>
          if sy_users s > 0 \<or> sy_hook s \<and> op \<noteq> U_release
          then Some (Inr (spawn (user_op op (sy_ctx s)) (s\<lparr>sy_users := count_user op (sy_users s)\<rparr>))) else None
      | E_block block \<Rightarrow>
          Some (Inr (spawn (if block then (st_block_finish (sy_ctx s), []) else st_unblock_finish (sy_ctx s)) s)))"

text \<open>Runs in which the user does nothing with the stream in \<open>StreamInitialized\<close> but keep copies of it.\<close>

definition patient :: "('q, 'r) st_sys \<Rightarrow> ('q, 'r) st_event \<Rightarrow> bool" where
  "patient s ev \<longleftrightarrow> (sy_hook s \<longrightarrow> (case ev of E_user op \<Rightarrow> op = U_copy | _ \<Rightarrow> True))"

inductive st_reach :: "('q, 'r) st_sys \<Rightarrow> bool" where
  st_init: "ss_holders c = 0 \<Longrightarrow> st_reach (st_start c)"
| st_next: "st_reach s \<Longrightarrow> patient s ev \<Longrightarrow> st_step ev s = Some (Inr s') \<Longrightarrow> st_reach s'"

fun st_trace :: "('q, 'r) st_event list \<Rightarrow> ('q, 'r) st_sys \<Rightarrow> ('q, 'r) st_sys result option" where
  "st_trace [] s = Some (Inr s)"
| "st_trace (ev # evs) s = (case st_step ev s of Some (Inr s) \<Rightarrow> st_trace evs s | r \<Rightarrow> r)"

definition outcome :: "('q, 'r) st_sys result option \<Rightarrow> srf_error option" where
  "outcome r = (case r of Some (Inl e) \<Rightarrow> Some e | _ \<Rightarrow> None)"

subsection \<open>Discipline of the tags\<close>

definition due :: "'q st_call \<Rightarrow> 'q st_call list list \<Rightarrow> nat" where
  "due c ts = count_list (concat ts) c"

definition requests :: "'q st_call list \<Rightarrow> 'q option list" where
  "requests t = List.map_filter (\<lambda>c. case c of C_request q \<Rightarrow> Some q | _ \<Rightarrow> None) t"

text \<open>A thread hands a request over before it posts the next read.\<close>

fun ordered :: "'q st_call list \<Rightarrow> bool" where
  "ordered [] \<longleftrightarrow> True"
| "ordered (c # t) \<longleftrightarrow> (case c of C_request q \<Rightarrow> C_read \<in> set t | _ \<Rightarrow> True) \<and> ordered t"

lemma requests_simps [simp]:
  "requests [] = []" "requests (c # t) = (case c of C_request q \<Rightarrow> q # requests t | _ \<Rightarrow> requests t)"
  "requests (t @ t') = requests t @ requests t'"
  by (simp_all add: requests_def map_filter_simps map_filter_def split: st_call.splits)

lemma ordered_requests: "ordered t \<Longrightarrow> C_read \<notin> set t \<Longrightarrow> requests t = []"
  by (induction t) (auto split: st_call.splits)

lemma ordered_append: "ordered t \<Longrightarrow> ordered t' \<Longrightarrow> ordered (t @ t')"
  by (induction t) (auto split: st_call.splits)

lemma requests_concat: "\<forall>t \<in> set ts. ordered t \<Longrightarrow> due C_read ts = 0 \<Longrightarrow> requests (concat ts) = []"
  by (induction ts) (auto simp: due_def count_list_0_iff ordered_requests)

text \<open>\<open>ts'\<close> is \<open>ts\<close> with some calls before those of one thread, or in a thread of their own.\<close>

definition adds :: "'q st_call list \<Rightarrow> 'q st_call list list \<Rightarrow> 'q st_call list list \<Rightarrow> bool" where
  "adds calls ts ts' \<longleftrightarrow> ts' = ts @ [calls] \<or> (\<exists>i < length ts. ts' = ts[i := calls @ ts ! i])"

lemma adds_due: "adds calls ts ts' \<Longrightarrow> due c ts' = due c ts + count_list calls c"
proof -
  have "i < length ts \<Longrightarrow> due c (ts[i := calls @ ts ! i]) = due c ts + count_list calls c" for i
    by (subst (3) id_take_nth_drop [of i ts]) (simp_all add: due_def upd_conv_take_nth_drop)
  then show "adds calls ts ts' \<Longrightarrow> ?thesis" by (auto simp: adds_def due_def)
qed

lemma adds_split:
  assumes "adds calls ts ts'"
  shows "\<exists>u v. requests (concat ts) = u @ v \<and> requests (concat ts') = u @ requests calls @ v"
proof -
  have "\<exists>u v. requests (concat ts) = u @ v \<and> requests (concat (ts[i := calls @ ts ! i])) = u @ requests calls @ v" if "i < length ts" for i
  proof (intro exI conjI)
    show "requests (concat ts) = requests (concat (take i ts)) @ requests (concat (drop i ts))"
      using append_take_drop_id [of i ts] by (metis concat_append requests_simps(3))
    show "requests (concat (ts[i := calls @ ts ! i])) = requests (concat (take i ts)) @ requests calls @ requests (concat (drop i ts))"
      using that by (simp add: upd_conv_take_nth_drop Cons_nth_drop_Suc [symmetric])
  qed
  moreover have "\<exists>u v. requests (concat ts) = u @ v \<and> requests (concat (ts @ [calls])) = u @ requests calls @ v"
    by (intro exI [of _ "requests (concat ts)"] exI [of _ "[]"]) simp
  ultimately show ?thesis using assms unfolding adds_def by blast
qed

lemma adds_ordered: "adds calls ts ts' \<Longrightarrow> ordered calls \<Longrightarrow> \<forall>t \<in> set ts. ordered t \<Longrightarrow> \<forall>t \<in> set ts'. ordered t"
  unfolding adds_def using set_update_subset_insert [of ts _ "calls @ ts ! _"]
  by (auto simp: ordered_append dest!: set_update_subset_insert [THEN subsetD])

text \<open>What the flags of a context \<open>c\<close> say about the tags that are under way or due.\<close>

definition tags_ok :: "('q, 'r) st_sys \<Rightarrow> ('q, 'r) streaming \<Rightarrow> ('q st_call \<Rightarrow> nat) \<Rightarrow> bool" where
  "tags_ok s c d \<longleftrightarrow>
     (ss_reading c \<longleftrightarrow> \<not> ss_reads_done c) \<and> ss_request_queue c = (if ss_reading c then [None] else [])
     \<and> sy_reads s + d C_read = (if ss_reading c then 1 else 0)
     \<and> sy_writes s + d C_write = (if ss_writing c then 1 else 0)
     \<and> length (sy_finished s) + d C_finish = (if ss_finishing c then 1 else 0)
     \<and> length (sy_finished s) = sy_finishes s + (if sy_ended s then 1 else 0)
     \<and> ss_next_state c = (if ss_finishing c then St_FinishedDone else St_Invalid)
     \<and> (ss_reading c \<longrightarrow> ss_read_next c = St_ReadDone) \<and> (ss_writing c \<longrightarrow> ss_write_next c = St_WriteDone)
     \<and> (ss_finishing c \<longrightarrow> ss_status c \<noteq> None \<and> \<not> ss_reading c)
     \<and> (ss_writing c \<longrightarrow> ss_response_queue c \<noteq> [] \<or> ss_status c \<noteq> None)"

definition live :: "('q, 'r) st_sys \<Rightarrow> bool" where
  "live s \<longleftrightarrow> tags_ok s (sy_ctx s) (\<lambda>c. due c (sy_todo s))
     \<and> subseq (sy_delivered s @ requests (concat (sy_todo s))) (map Some (sy_received s))
     \<and> length (requests (concat (sy_todo s))) \<le> 1 \<and> (\<forall>t \<in> set (sy_todo s). ordered t)"

text \<open>A part of a handler that heeds them, and starts no reading.\<close>

definition heeds :: "(('q, 'r) streaming \<Rightarrow> ('q, 'r) streaming \<times> 'q st_call list) \<Rightarrow> bool" where
  "heeds h \<longleftrightarrow> (\<forall>(s :: ('q, 'r) st_sys) c d c' calls. tags_ok s c d \<longrightarrow> h c = (c', calls) \<longrightarrow>
     tags_ok s c' (\<lambda>x. d x + count_list calls x) \<and> requests calls = [] \<and> ordered calls)"

lemma eval_result:
  assumes "ss_reading c \<or> ss_reads_done c" and "st_evaluate c = (c', calls)"
  shows "ss_reading c' = ss_reading c" "ss_reads_done c' = ss_reads_done c" "ss_request_queue c' = ss_request_queue c"
    "ss_response_queue c' = ss_response_queue c" "ss_status c' = ss_status c" "ss_read_next c' = ss_read_next c"
    "ss_writing c' = (ss_writing c \<or> ss_response_queue c \<noteq> [])"
    "ss_write_next c' = (if \<not> ss_writing c \<and> ss_response_queue c \<noteq> [] then St_WriteDone else ss_write_next c)"
    "ss_finishing c' \<longrightarrow> ss_finishing c \<or> \<not> ss_reading c \<and> ss_status c \<noteq> None" "ss_finishing c \<longrightarrow> ss_finishing c'"
    "ss_next_state c' = (if ss_finishing c' \<and> \<not> ss_finishing c then St_FinishedDone else ss_next_state c)"
    "count_list calls C_write = (if \<not> ss_writing c \<and> ss_response_queue c \<noteq> [] then 1 else 0)"
    "count_list calls C_finish = (if ss_finishing c' \<and> \<not> ss_finishing c then 1 else 0)"
    "count_list calls C_read = 0" "requests calls = []" "ordered calls"
proof -
  obtain s1 ex1 where e1: "eval_reads_finished c None = (s1, ex1)" by force
  obtain s2 ex2 where e2: "eval_cancelled s1 ex1 = (s2, ex2)" by force
  obtain s3 w where e3: "eval_write s2 = (s3, w)" by force
  obtain s4 f where e4: "eval_finish s3 = (s4, f)" by force
  have c': "c' = s4" "calls = forward_calls False w ex2 f"
    using assms by (auto simp: st_evaluate_def eval_read_def e1 e2 e3 e4)
  have ex: "ex1 = None \<or> (\<exists>b. ex1 = Some (C_requests_finished, b))"
    using e1 by (auto simp: eval_reads_finished_def capture_def split: if_splits)
  then have ex2: "ex2 = None \<or> (\<exists>b. ex2 = Some (C_requests_finished, b))"
    using e2 by (auto simp: eval_cancelled_def split: if_splits)
  have s1: "\<exists>h ss rf. s1 = c\<lparr>ss_holders := h, ss_reads_finished := rf, ss_server_stream := ss\<rparr>"
  proof -
    have "s1 = c\<lparr>ss_holders := ss_holders s1, ss_reads_finished := ss_reads_finished s1, ss_server_stream := ss_server_stream s1\<rparr>"
      using e1 by (auto simp: eval_reads_finished_def capture_def split: if_splits)
    then show ?thesis by blast
  qed
  then obtain h ss rf where s1: "s1 = c\<lparr>ss_holders := h, ss_reads_finished := rf, ss_server_stream := ss\<rparr>" by blast
  have "s2 = s1\<lparr>ss_holders := ss_holders s2\<rparr>"
    using e2 by (auto simp: eval_cancelled_def split: if_splits option.splits prod.splits bool.splits)
  then obtain h2 where s2: "s2 = c\<lparr>ss_reads_finished := rf, ss_server_stream := ss, ss_holders := h2\<rparr>" by (auto simp: s1)
  have w: "w \<longleftrightarrow> \<not> ss_writing c \<and> ss_response_queue c \<noteq> []"
    and s3: "s3 = (if w then s2\<lparr>ss_writing := True, ss_write_next := St_WriteDone\<rparr> else s2)"
    using e3 by (simp_all add: eval_write_def s2 split: if_split_asm)
  have f3: "f \<longleftrightarrow> \<not> ss_reading s3 \<and> \<not> ss_writing s3 \<and> \<not> ss_finishing s3 \<and> ss_status s3 \<noteq> None \<and> \<not> ss_block_finish s3"
    and s4: "s4 = (if f then s3\<lparr>ss_finishing := True, ss_next_state := St_FinishedDone\<rparr> else s3)"
    using e4 by (auto simp: eval_finish_def split: if_split_asm)
  have f: "f \<longleftrightarrow> \<not> ss_reading c \<and> \<not> (ss_writing c \<or> w) \<and> \<not> ss_finishing c \<and> ss_status c \<noteq> None \<and> \<not> ss_block_finish c"
    unfolding f3 by (simp add: s3 s2)
  show "ss_reading c' = ss_reading c" "ss_reads_done c' = ss_reads_done c" "ss_request_queue c' = ss_request_queue c"
    "ss_response_queue c' = ss_response_queue c" "ss_status c' = ss_status c" "ss_read_next c' = ss_read_next c"
    by (simp_all add: c' s4 s3 s2)
  show "ss_writing c' = (ss_writing c \<or> ss_response_queue c \<noteq> [])"
    "ss_write_next c' = (if \<not> ss_writing c \<and> ss_response_queue c \<noteq> [] then St_WriteDone else ss_write_next c)"
    using w by (simp_all add: c' s4 s3 s2)
  have fin: "ss_finishing c' \<longleftrightarrow> ss_finishing c \<or> f" by (simp add: c' s4 s3 s2)
  then show "ss_finishing c' \<longrightarrow> ss_finishing c \<or> \<not> ss_reading c \<and> ss_status c \<noteq> None" "ss_finishing c \<longrightarrow> ss_finishing c'"
    using f by blast+
  have nf: "ss_finishing c' \<and> \<not> ss_finishing c \<longleftrightarrow> f" using fin f by blast
  show "ss_next_state c' = (if ss_finishing c' \<and> \<not> ss_finishing c then St_FinishedDone else ss_next_state c)"
    unfolding nf by (simp add: c' s4 s3 s2)
  show "count_list calls C_write = (if \<not> ss_writing c \<and> ss_response_queue c \<noteq> [] then 1 else 0)"
    "count_list calls C_finish = (if ss_finishing c' \<and> \<not> ss_finishing c then 1 else 0)"
    "count_list calls C_read = 0" "requests calls = []" "ordered calls"
    using ex2 unfolding nf w [symmetric] c'(2) forward_calls_def by (auto split: bool.split)
qed

lemma heedsD:
  "heeds h \<Longrightarrow> tags_ok s c d \<Longrightarrow> h c = (c', calls) \<Longrightarrow>
   tags_ok s c' (\<lambda>x. d x + count_list calls x) \<and> requests calls = [] \<and> ordered calls"
  unfolding heeds_def by blast

lemma heeds_evaluate: "heeds st_evaluate"
  unfolding heeds_def
proof (intro allI impI)
  fix s :: "('a, 'b) st_sys" and c c' :: "('a, 'b) streaming" and d calls
  assume t: "tags_ok s c d" and ev: "st_evaluate c = (c', calls)"
  have rd: "ss_reading c \<or> ss_reads_done c" using t by (auto simp: tags_ok_def)
  note res = eval_result [OF rd ev]
  have fin: "ss_finishing c' \<longrightarrow> ss_status c \<noteq> None \<and> \<not> ss_reading c" using t res(9) by (auto simp: tags_ok_def)
  have "tags_ok s c' (\<lambda>x. d x + count_list calls x)"
    using t fin res(10) unfolding tags_ok_def res(1-8) res(11-14)
    by (cases "ss_writing c"; cases "ss_response_queue c = []"; cases "ss_finishing c"; cases "ss_finishing c'"; simp)
  then show "tags_ok s c' (\<lambda>x. d x + count_list calls x) \<and> requests calls = [] \<and> ordered calls" using res(15,16) by blast
qed

lemma heeds_comp:
  assumes "heeds f" and "heeds g" and "\<And>c. h c = (let (c1, k1) = f c; (c2, k2) = g c1 in (c2, k1 @ k2))"
  shows "heeds h"
  unfolding heeds_def
proof (intro allI impI)
  fix s :: "('a, 'b) st_sys" and c c' :: "('a, 'b) streaming" and d calls
  assume t: "tags_ok s c d" and h: "h c = (c', calls)"
  obtain c1 k1 k2 where f: "f c = (c1, k1)" and g: "g c1 = (c', k2)" and k: "calls = k1 @ k2"
    using h assms(3) [of c] by (cases "f c"; cases "g (fst (f c))") auto
  note 1 = heedsD [OF assms(1) t f]
  note 2 = heedsD [OF assms(2) 1 [THEN conjunct1] g]
  show "tags_ok s c' (\<lambda>x. d x + count_list calls x) \<and> requests calls = [] \<and> ordered calls"
    using 1 2 by (simp add: k ordered_append add.assoc)
qed

text \<open>Changes that the tags do not depend on.\<close>

definition same_tags :: "('q, 'r) streaming \<Rightarrow> ('q, 'r) streaming \<Rightarrow> bool" where
  "same_tags c c' \<longleftrightarrow> ss_reading c' = ss_reading c \<and> ss_reads_done c' = ss_reads_done c \<and> ss_request_queue c' = ss_request_queue c
     \<and> ss_response_queue c' = ss_response_queue c \<and> ss_status c' = ss_status c \<and> ss_read_next c' = ss_read_next c
     \<and> ss_writing c' = ss_writing c \<and> ss_write_next c' = ss_write_next c \<and> ss_finishing c' = ss_finishing c
     \<and> ss_next_state c' = ss_next_state c"

lemma same_tags_ok: "same_tags c c' \<Longrightarrow> tags_ok s c' d = tags_ok s c d"
  by (simp add: same_tags_def tags_ok_def)

lemma heeds_same:
  assumes "\<And>c. same_tags c (fst (h c))" and "\<And>c. set (snd (h c)) \<subseteq> {C_delete, C_release, C_stream_finished, C_requests_finished}"
  shows "heeds h"
  unfolding heeds_def
proof (intro allI impI)
  fix s :: "('a, 'b) st_sys" and c c' :: "('a, 'b) streaming" and d calls
  assume t: "tags_ok s c d" and h: "h c = (c', calls)"
  have sub: "set calls \<subseteq> {C_delete, C_release, C_stream_finished, C_requests_finished}" using assms(2) [of c] h by simp
  then have z: "count_list calls C_read = 0" "count_list calls C_write = 0" "count_list calls C_finish = 0"
    by (auto simp: count_list_0_iff)
  have "requests calls = []" "ordered calls" using sub by (induction calls) auto
  moreover have "tags_ok s c' (\<lambda>x. d x + count_list calls x)"
  proof -
    have "tags_ok s c' d" using t same_tags_ok [of c c' s d] assms(1) [of c] h by simp
    then show ?thesis unfolding tags_ok_def z add_0_right .
  qed
  ultimately show "tags_ok s c' (\<lambda>x. d x + count_list calls x) \<and> requests calls = [] \<and> ordered calls" by blast
qed

lemma heeds_update:
  assumes "\<And>c. same_tags c (f c)" and "heeds g" and "\<And>c. h c = g (f c)"
  shows "heeds h"
  unfolding heeds_def
proof (intro allI impI)
  fix s :: "('a, 'b) st_sys" and c c' :: "('a, 'b) streaming" and d calls
  assume t: "tags_ok s c d" and h: "h c = (c', calls)"
  have "tags_ok s (f c) d" using same_tags_ok [OF assms(1)] t by blast
  then show "tags_ok s c' (\<lambda>x. d x + count_list calls x) \<and> requests calls = [] \<and> ordered calls"
    using heedsD [OF assms(2)] h assms(3) by metis
qed

lemma heeds_if: "heeds f \<Longrightarrow> heeds g \<Longrightarrow> heeds (\<lambda>c. if P c then f c else g c)"
  unfolding heeds_def by (simp split: if_splits)

lemma heeds_id: "heeds (\<lambda>c. (c, []))"
  by (rule heeds_same) (simp_all add: same_tags_def)

lemma heeds_pre:
  assumes "\<And>s c d. tags_ok s c d \<Longrightarrow> tags_ok s (f c) d" and "heeds g" and "\<And>c. h c = g (f c)"
  shows "heeds h"
  unfolding heeds_def
proof (intro allI impI)
  fix s :: "('a, 'b) st_sys" and c c' :: "('a, 'b) streaming" and d calls
  assume t: "tags_ok s c d" and h: "h c = (c', calls)"
  then show "tags_ok s c' (\<lambda>x. d x + count_list calls x) \<and> requests calls = [] \<and> ordered calls"
    using heedsD [OF assms(2) assms(1) [OF t]] assms(3) by metis
qed

lemma heeds_close: "heeds (close_stream status)"
proof (rule heeds_pre [OF _ heeds_evaluate])
  let ?f = "\<lambda>c. let c = c\<lparr>ss_writes_done := True, ss_status := Some status\<rparr> in if \<not> ss_reads_done c then c\<lparr>ss_response_queue := []\<rparr> else c"
  show "close_stream status c = st_evaluate (?f c)" for c by (simp add: close_stream_def Let_def)
  show "tags_ok s (?f c) d" if "tags_ok s c d" for s c d using that unfolding tags_ok_def Let_def by simp blast
qed

lemma heeds_write_response: "heeds (st_write_response r)"
proof (rule heeds_pre [OF _ heeds_evaluate])
  show "st_write_response r c = st_evaluate (c\<lparr>ss_response_queue := ss_response_queue c @ [r]\<rparr>)" for c by (simp add: st_write_response_def)
  show "tags_ok s (c\<lparr>ss_response_queue := ss_response_queue c @ [r]\<rparr>) d" if "tags_ok s c d" for s c d
    using that unfolding tags_ok_def by simp blast
qed

lemma heeds_disconnect: "heeds (\<lambda>c. (if P c then c\<lparr>ss_connected := False\<rparr> else c, []))"
  by (rule heeds_same) (simp_all add: same_tags_def)

lemma heeds_close_disconnect: "heeds (\<lambda>c. case close_stream status c of (c, calls) \<Rightarrow> (c\<lparr>ss_connected := False\<rparr>, calls))"
  by (rule heeds_comp [OF heeds_close heeds_disconnect [of "\<lambda>_. True"]]) (simp add: split_beta)

lemma heeds_block: "heeds (\<lambda>c. (st_block_finish c, []))"
  by (rule heeds_same) (simp_all add: same_tags_def st_block_finish_def)

lemma heeds_unblock: "heeds st_unblock_finish"
  by (rule heeds_same) (simp_all add: same_tags_def st_unblock_finish_def forward_calls_def)

lemma heeds_deleter: "heeds stream_deleter"
  by (rule heeds_comp [OF heeds_evaluate heeds_same [of "\<lambda>c. (c, [C_delete])"]]) (simp_all add: same_tags_def stream_deleter_def split_beta)

lemma heeds_destructor: "heeds stream_destructor"
proof -
  have "heeds (\<lambda>c. let (c, k1) = st_unblock_finish c; (c, k2) = close_stream False c in (c\<lparr>ss_connected := False\<rparr>, k1 @ k2))"
    by (rule heeds_comp [OF heeds_unblock heeds_close_disconnect]) (simp add: split_beta Let_def)
  from heeds_if [OF this heeds_id, of ss_connected] show ?thesis unfolding stream_destructor_def [abs_def] .
qed

lemma heeds_release: "heeds release_stream"
  by (rule heeds_update [OF _ heeds_if [OF heeds_deleter heeds_id, of expired]]) (simp_all add: same_tags_def release_stream_def Let_def)

lemma heeds_finished_done: "heeds st_finished_done"
proof -
  let ?reset = "\<lambda>c. (c\<lparr>ss_server_stream := False\<rparr>, [C_stream_finished])"
  let ?inval = "\<lambda>c. (if \<not> expired c then c\<lparr>ss_connected := False\<rparr> else c, [])"
  let ?del = "\<lambda>c. let (c, k) = (if expired c then stream_deleter c else (c, [])); (c, k') = ?inval c in (c, k @ k')"
  have reset: "heeds ?reset" by (rule heeds_same) (simp_all add: same_tags_def)
  have del: "heeds ?del" by (rule heeds_comp [OF heeds_if [OF heeds_deleter heeds_id, of expired] heeds_disconnect [of "\<lambda>c. \<not> expired c"]]) (rule refl)
  have a: "heeds (\<lambda>c. let (c, k) = ?reset c; (c, k') = ?del c in (c, k @ k'))" by (rule heeds_comp [OF reset del]) (rule refl)
  have b: "heeds (\<lambda>c. let (c, k) = ?reset c; (c, k') = ?inval c in (c, k @ k'))"
    by (rule heeds_comp [OF reset heeds_disconnect [of "\<lambda>c. \<not> expired c"]]) (rule refl)
  have eq: "st_finished_done = (\<lambda>c. if ss_server_stream c then let (c, k) = ?reset c; (c, k') = ?del c in (c, k @ k')
      else let (c, k) = ?reset c; (c, k') = ?inval c in (c, k @ k'))"
    by (rule ext) (simp add: st_finished_done_def Let_def split_beta)
  show ?thesis unfolding eq by (rule heeds_if [OF a b])
qed

lemma heeds_user_op: "heeds (user_op op)"
proof -
  have copy: "heeds (\<lambda>c. (c\<lparr>ss_holders := Suc (ss_holders c)\<rparr>, []))" by (rule heeds_same) (simp_all add: same_tags_def)
  have guard: "heeds (\<lambda>c. if \<not> ss_connected c then (c, []) else h c)" if "heeds h" for h
    by (rule heeds_if [OF heeds_id that])
  show ?thesis
    by (cases op) (simp_all add: user_op_def [abs_def] copy heeds_release guard heeds_write_response heeds_close_disconnect heeds_block
        heeds_unblock)
qed

lemma tags_ok_cong: "(\<And>x. x \<in> {C_read, C_write, C_finish} \<Longrightarrow> d x = d' x) \<Longrightarrow> tags_ok s c d = tags_ok s c d'"
  unfolding tags_ok_def by simp

lemma eval_read_tags:
  assumes t: "tags_ok s (c\<lparr>ss_reading := True, ss_request_queue := [None]\<rparr>) (\<lambda>x. d x + (if x = C_read then 1 else 0))"
    and c: "\<not> ss_reading c" "\<not> ss_reads_done c" "ss_request_queue c = [Some q]" and ev: "st_evaluate c = (c', calls)"
  shows "tags_ok s c' (\<lambda>x. d x + count_list calls x)" "requests calls = [] \<or> requests calls = [Some q]" "ordered calls"
proof -
  let ?c0 = "c\<lparr>ss_reading := True, ss_request_queue := [None]\<rparr>"
  define w where "w \<longleftrightarrow> \<not> ss_writing c \<and> ss_response_queue c \<noteq> []"
  obtain c0' calls0 where ev0: "st_evaluate ?c0 = (c0', calls0)" by force
  have t0: "tags_ok s c0' (\<lambda>x. d x + (if x = C_read then 1 else 0) + count_list calls0 x)"
    using heedsD [OF heeds_evaluate t ev0] by blast
  have r0: "c0' = (if w then ?c0\<lparr>ss_writing := True, ss_write_next := St_WriteDone\<rparr> else ?c0)" "calls0 = (if w then [C_write] else [])"
    using ev0 by (auto simp: st_evaluate_def eval_read_def eval_reads_finished_def eval_cancelled_def eval_write_def eval_finish_def
        forward_calls_def w_def split: if_splits)
  have rn: "ss_read_next c = St_ReadDone" using t by (simp add: tags_ok_def)
  obtain k where k: "calls = (if w then [C_write] else []) @ k"
      "k = [C_read] \<or> k = [C_request (Some q), C_read] \<or> k = [C_request (Some q), C_read, C_release]"
    using ev c by (auto simp: st_evaluate_def eval_read_def eval_reads_finished_def eval_cancelled_def eval_write_def eval_finish_def
        forward_calls_def capture_def w_def split: if_splits)
  have same: "same_tags c0' c'"
    using ev c rn by (auto simp: r0 st_evaluate_def eval_read_def eval_reads_finished_def eval_cancelled_def eval_write_def eval_finish_def
        capture_def w_def same_tags_def split: if_splits)
  have t': "tags_ok s c' (\<lambda>x. d x + (if x = C_read then 1 else 0) + count_list calls0 x)"
    using same_tags_ok [OF same] t0 by blast
  have n: "count_list calls x = (if x = C_read then 1 else 0) + count_list calls0 x" if "x \<in> {C_read, C_write, C_finish}" for x
    using that k(2) by (auto simp: k(1) r0)
  show "tags_ok s c' (\<lambda>x. d x + count_list calls x)"
    by (rule tags_ok_cong [THEN iffD1, OF _ t']) (simp only: n add.assoc)
  show "requests calls = [] \<or> requests calls = [Some q]" "ordered calls" using k(2) by (auto simp: k(1))
qed

text \<open>Before the first read is posted nothing is under way.\<close>

definition calm :: "('q, 'r) st_sys \<Rightarrow> bool" where
  "calm s \<longleftrightarrow> concat (sy_todo s) = [] \<and> sy_reads s = 0 \<and> sy_writes s = 0 \<and> sy_finishes s = 0 \<and> sy_received s = [] \<and> sy_delivered s = []
     \<and> sy_finished s = []
     \<and> (sy_hook s \<or> sy_users s = 0)
     \<and> ss_next_state (sy_ctx s) = (if sy_queued s \<or> sy_ended s then St_InitializedDone else St_Invalid)
     \<and> (sy_queued s \<longrightarrow> \<not> sy_hook s \<and> \<not> sy_ended s) \<and> (sy_hook s \<longrightarrow> \<not> sy_ended s) \<and> (sy_queued s \<or> sy_hook s \<or> sy_ended s)
     \<and> ss_request_queue (sy_ctx s) = [] \<and> ss_status (sy_ctx s) = None
     \<and> \<not> ss_reading (sy_ctx s) \<and> \<not> ss_writing (sy_ctx s) \<and> \<not> ss_finishing (sy_ctx s) \<and> \<not> ss_reads_done (sy_ctx s)"

definition st_ok :: "('q, 'r) st_sys \<Rightarrow> bool" where
  "st_ok s \<longleftrightarrow> calm s \<or> \<not> sy_queued s \<and> \<not> sy_hook s \<and> live s"

lemma calm_start: "ss_holders c = 0 \<Longrightarrow> calm (st_start c)"
  by (simp add: calm_def st_start_def streaming_reset_def)

lemma calm_step:
  assumes "calm s" and "patient s ev" and "st_step ev s = Some r"
  shows "\<exists>s'. r = Inr s' \<and> st_ok s'"
proof (cases ev)
  case (E_start ok)
  let ?s = "if ok then s\<lparr>sy_queued := False, sy_ctx := initialized_begin (sy_ctx s), sy_hook := True\<rparr> else s\<lparr>sy_queued := False, sy_ended := True\<rparr>"
  have q: "sy_queued s" using assms(3) by (simp add: st_step_def E_start split: if_split_asm)
  then have n: "ss_next_state (sy_ctx s) = St_InitializedDone" using assms(1) by (simp add: calm_def)
  have r: "r = Inr ?s" using assms(3) by (cases ok) (simp_all add: st_step_def E_start q st_main_done_def n)
  have "calm ?s" using assms(1) q n by (cases ok) (auto simp: calm_def initialized_begin_def)
  then show ?thesis unfolding r st_ok_def by blast
next
  case E_hook_end
  then have r: "r = Inr (spawn (initialized_end (sy_ctx s)) (s\<lparr>sy_hook := False\<rparr>))" and h: "sy_hook s" "concat (sy_todo s) = []"
    using assms(3) by (auto simp: st_step_def split: if_splits)
  have "requests (concat (sy_todo s)) = []" "due x (sy_todo s) = 0" for x unfolding due_def h(2) by simp_all
  moreover have "\<forall>t \<in> set (sy_todo s). ordered t" using h(2) by auto
  moreover have "due x (sy_todo s @ [[C_read]]) = due x (sy_todo s) + (if x = C_read then 1 else 0)" for x by (auto simp: due_def)
  ultimately have "live (spawn (initialized_end (sy_ctx s)) (s\<lparr>sy_hook := False\<rparr>))"
    using assms(1) h(1) by (simp add: live_def calm_def spawn_def initialized_end_def tags_ok_def)
  then show ?thesis using r assms(1) h by (auto simp: st_ok_def calm_def spawn_def initialized_end_def)
next
  case (E_call i)
  then have "i < length (sy_todo s)" "sy_todo s ! i \<noteq> []" using assms(3) by (auto simp: st_step_def split: if_splits)
  moreover have "\<forall>t \<in> set (sy_todo s). t = []" using assms(1) by (auto simp: calm_def)
  ultimately show ?thesis using nth_mem by blast
next
  case (E_user op)
  have "sy_hook s \<or> sy_users s = 0" using assms(1) unfolding calm_def by (elim conjE)
  moreover have "st_step ev s = None" if "\<not> sy_hook s" "sy_users s = 0" using that by (simp add: st_step_def E_user)
  ultimately have h: "sy_hook s" using assms(3) by auto
  then have op: "op = U_copy" using E_user assms(2) by (simp add: patient_def)
  have r: "r = Inr (spawn (user_op U_copy (sy_ctx s)) (s\<lparr>sy_users := sy_users s + 1\<rparr>))"
    using assms(3) by (simp add: st_step_def E_user op h count_user_def)
  have "calm (spawn (user_op U_copy (sy_ctx s)) (s\<lparr>sy_users := sy_users s + 1\<rparr>))"
    using assms(1) h by (simp add: calm_def spawn_def user_op_def)
  then show ?thesis unfolding r st_ok_def by blast
next
  case (E_block b)
  then have r: "r = Inr (spawn (if b then (st_block_finish (sy_ctx s), []) else st_unblock_finish (sy_ctx s)) s)"
    using assms(3) by (simp add: st_step_def)
  have "calm (spawn (if b then (st_block_finish (sy_ctx s), []) else st_unblock_finish (sy_ctx s)) s)"
    using assms(1) by (cases b) (simp_all add: calm_def spawn_def st_block_finish_def st_unblock_finish_def forward_calls_def)
  then show ?thesis unfolding r st_ok_def by blast
qed (use assms in \<open>auto simp: st_step_def calm_def split: if_splits\<close>)

lemma tags_ok_frame [simp]: "tags_ok (s\<lparr>sy_ctx := c'\<rparr>) c d = tags_ok s c d"
    "tags_ok (s\<lparr>sy_todo := t\<rparr>) c d = tags_ok s c d" "tags_ok (s\<lparr>sy_users := u\<rparr>) c d = tags_ok s c d"
    "tags_ok (s\<lparr>sy_delivered := q\<rparr>) c d = tags_ok s c d" "tags_ok (s\<lparr>sy_received := q'\<rparr>) c d = tags_ok s c d"
    "tags_ok s (c\<lparr>ss_holders := n\<rparr>) d = tags_ok s c d"
  by (simp_all add: tags_ok_def)

lemma live_handler:
  assumes "live s" and "heeds h" and "h (sy_ctx s) = (c', calls)" and a: "adds calls (sy_todo s) ts'"
  shows "live (s\<lparr>sy_ctx := c', sy_todo := ts'\<rparr>)"
proof -
  have t: "tags_ok s (sy_ctx s) (\<lambda>c. due c (sy_todo s))" and o: "\<forall>t \<in> set (sy_todo s). ordered t" using assms(1) by (simp_all add: live_def)
  note h = heedsD [OF assms(2) t assms(3)]
  have "tags_ok s c' (\<lambda>c. due c ts')" using h by (simp add: adds_due [OF a])
  moreover have "requests (concat ts') = requests (concat (sy_todo s))" using adds_split [OF a] h by auto
  ultimately show ?thesis using assms(1) adds_ordered [OF a _ o] h by (simp add: live_def)
qed

lemma live_spawn: "live s \<Longrightarrow> heeds h \<Longrightarrow> live (spawn (h (sy_ctx s)) s)"
  using live_handler [of s h] by (cases "h (sy_ctx s)") (auto simp: spawn_def adds_def)

lemma live_push: "live s \<Longrightarrow> heeds h \<Longrightarrow> i < length (sy_todo s) \<Longrightarrow> live (push_calls i (h (sy_ctx s)) s)"
  using live_handler [of s h] by (cases "h (sy_ctx s)") (auto simp: push_calls_def adds_def)

text \<open>A call is taken from a thread.\<close>

lemma taken:
  assumes "live s" and i: "i < length (sy_todo s)" "sy_todo s ! i = x # xs"
  defines "ts \<equiv> (sy_todo s)[i := xs]"
  shows "tags_ok s (sy_ctx s) (\<lambda>c. due c ts + (if c = x then 1 else 0))" "\<forall>t \<in> set ts. ordered t"
    "requests [x] = [] \<Longrightarrow> requests (concat ts) = requests (concat (sy_todo s))"
    "x = C_request q \<Longrightarrow> requests (concat ts) = [] \<and> requests (concat (sy_todo s)) = [q]"
proof -
  have "sy_todo s = ts[i := [x] @ ts ! i]" using list_update_id [of "sy_todo s" i] i by (simp add: ts_def)
  then have a: "adds [x] ts (sy_todo s)" using i by (auto simp: adds_def ts_def)
  have "due c (sy_todo s) = due c ts + (if c = x then 1 else 0)" for c using adds_due [OF a, of c] by auto
  then show "tags_ok s (sy_ctx s) (\<lambda>c. due c ts + (if c = x then 1 else 0))" using assms(1) by (simp add: live_def)
  have o: "\<forall>t \<in> set (sy_todo s). ordered t" using assms(1) by (simp add: live_def)
  then have "ordered xs" using i nth_mem by fastforce
  then show "\<forall>t \<in> set ts. ordered t" using o set_update_subset_insert [of "sy_todo s" i xs] by (auto simp: ts_def)
  obtain u v where uv: "requests (concat ts) = u @ v" "requests (concat (sy_todo s)) = u @ requests [x] @ v" using adds_split [OF a] by blast
  show "requests [x] = [] \<Longrightarrow> requests (concat ts) = requests (concat (sy_todo s))" using uv by simp
  have "length (u @ requests [x] @ v) \<le> 1" using assms(1) unfolding live_def uv(2) by blast
  then show "x = C_request q \<Longrightarrow> requests (concat ts) = [] \<and> requests (concat (sy_todo s)) = [q]" using uv by simp
qed

text \<open>The only call or completion that can go wrong: a response is posted or popped after \<open>CloseStream\<close> has emptied the queue.\<close>

definition lost_write :: "('q, 'r) st_sys \<Rightarrow> bool" where
  "lost_write s \<longleftrightarrow> ss_writing (sy_ctx s) \<and> ss_response_queue (sy_ctx s) = [] \<and> ss_status (sy_ctx s) \<noteq> None"

definition fine :: "('q, 'r) st_sys \<Rightarrow> ('q, 'r) st_sys result \<Rightarrow> bool" where
  "fine s r \<longleftrightarrow> (case r of Inr s' \<Rightarrow> live s' \<and> sy_queued s' = sy_queued s \<and> sy_hook s' = sy_hook s
     | Inl e \<Rightarrow> (\<exists>m. e = Undefined_behaviour m) \<and> lost_write s)"

lemma sy_frame [simp]:
  "sy_queued (push_calls i cc s) = sy_queued s" "sy_hook (push_calls i cc s) = sy_hook s"
  "sy_queued (spawn cc s) = sy_queued s" "sy_hook (spawn cc s) = sy_hook s"
  by (simp_all add: push_calls_def spawn_def split_beta)

lemma tags_posted:
  "tags_ok s c (\<lambda>x. d x + (if x = C_write then 1 else 0)) \<Longrightarrow> tags_ok (s\<lparr>sy_todo := ts, sy_writes := Suc (sy_writes s), sy_written := w\<rparr>) c d"
  "tags_ok s c (\<lambda>x. d x + (if x = C_read then 1 else 0)) \<Longrightarrow> tags_ok (s\<lparr>sy_todo := ts, sy_reads := Suc (sy_reads s)\<rparr>) c d"
  "tags_ok s c (\<lambda>x. d x + (if x = C_finish then 1 else 0)) \<Longrightarrow>
     tags_ok (s\<lparr>sy_todo := ts, sy_finishes := Suc (sy_finishes s), sy_finished := sy_finished s @ [ok]\<rparr>) c d"
  unfolding tags_ok_def by (simp; blast)+

lemma tags_needed:
  assumes "tags_ok s c (\<lambda>x. d x + (if x = y then 1 else 0))"
  shows "y = C_write \<Longrightarrow> ss_writing c \<and> (ss_response_queue c = [] \<longrightarrow> ss_status c \<noteq> None)"
    "y = C_read \<Longrightarrow> ss_request_queue c = [None]" "y = C_finish \<Longrightarrow> ss_status c \<noteq> None"
  using assms unfolding tags_ok_def by (auto split: if_split_asm)

lemma call_fine:
  assumes l: "live s" and i: "i < length (sy_todo s)" "sy_todo s ! i = x # xs"
  shows "fine s (st_make_call i x (s\<lparr>sy_todo := (sy_todo s)[i := xs]\<rparr>))"
proof -
  define ts where "ts = (sy_todo s)[i := xs]"
  note t = taken [OF l i, folded ts_def]
  have sub: "subseq (sy_delivered s @ requests (concat (sy_todo s))) (map Some (sy_received s))"
    and len: "length (requests (concat (sy_todo s))) \<le> 1" using l by (simp_all add: live_def)
  have quiet: "live (s\<lparr>sy_todo := ts\<rparr>)" if "x \<notin> {C_read, C_write, C_finish}" "requests [x] = []"
  proof -
    have "tags_ok s (sy_ctx s) (\<lambda>c. due c ts)" using that(1) by (intro tags_ok_cong [THEN iffD1, OF _ t(1)]) auto
    then show ?thesis using t(2) t(3) [OF that(2)] sub len by (simp add: live_def)
  qed
  have n: "i < length (sy_todo (s\<lparr>sy_todo := ts\<rparr>))" using i by (simp add: ts_def)
  note def = st_make_call_def fine_def live_def
  show ?thesis
    unfolding ts_def [symmetric]
  proof (cases x)
    case C_write
    note t = t(1) [unfolded C_write] t(2) t(3) [unfolded C_write]
    show "fine s (st_make_call i x (s\<lparr>sy_todo := ts\<rparr>))"
      using tags_posted(1) [OF t(1)] tags_needed(1) [OF t(1)] t(2,3) sub len
      by (cases "ss_response_queue (sy_ctx s)") (simp_all add: C_write def lost_write_def)
  next
    case (C_request q)
    have "tags_ok s (sy_ctx s) (\<lambda>c. due c ts)" using C_request by (intro tags_ok_cong [THEN iffD1, OF _ t(1)]) auto
    then show "fine s (st_make_call i x (s\<lparr>sy_todo := ts\<rparr>))" using t(2) t(4) [OF C_request] sub
      by (simp add: C_request def)
  next
    case C_requests_finished
    then show "fine s (st_make_call i x (s\<lparr>sy_todo := ts\<rparr>))" using quiet by (simp add: def)
  next
    case C_read
    note t = t(1) [unfolded C_read] t(2) t(3) [unfolded C_read]
    show "fine s (st_make_call i x (s\<lparr>sy_todo := ts\<rparr>))"
      using tags_posted(2) [OF t(1)] tags_needed(2) [OF t(1)] t(2,3) sub len by (simp add: C_read def)
  next
    case C_finish
    note t = t(1) [unfolded C_finish] t(2) t(3) [unfolded C_finish]
    show "fine s (st_make_call i x (s\<lparr>sy_todo := ts\<rparr>))"
      using tags_posted(3) [OF t(1)] tags_needed(3) [OF t(1)] t(2,3) sub len
      by (cases "ss_status (sy_ctx s)") (simp_all add: C_finish def)
  next
    case C_release
    then show "fine s (st_make_call i x (s\<lparr>sy_todo := ts\<rparr>))"
      using live_push [OF quiet heeds_release n] by (simp add: st_make_call_def fine_def)
  next
    case C_delete
    then show "fine s (st_make_call i x (s\<lparr>sy_todo := ts\<rparr>))"
      using live_push [OF quiet heeds_destructor n] by (simp add: st_make_call_def fine_def)
  next
    case C_stream_finished
    then show "fine s (st_make_call i x (s\<lparr>sy_todo := ts\<rparr>))" using quiet by (simp add: st_make_call_def fine_def)
  qed
qed

lemma tags_okD:
  assumes "tags_ok s c d"
  shows "ss_reads_done c = (\<not> ss_reading c)" "ss_request_queue c = (if ss_reading c then [None] else [])"
    "sy_reads s + d C_read = (if ss_reading c then 1 else 0)" "sy_writes s + d C_write = (if ss_writing c then 1 else 0)"
    "length (sy_finished s) + d C_finish = (if ss_finishing c then 1 else 0)"
    "length (sy_finished s) = sy_finishes s + (if sy_ended s then 1 else 0)"
    "ss_next_state c = (if ss_finishing c then St_FinishedDone else St_Invalid)"
    "ss_reading c \<Longrightarrow> ss_read_next c = St_ReadDone" "ss_writing c \<Longrightarrow> ss_write_next c = St_WriteDone"
    "ss_finishing c \<Longrightarrow> ss_status c \<noteq> None \<and> \<not> ss_reading c" "ss_writing c \<Longrightarrow> ss_response_queue c \<noteq> [] \<or> ss_status c \<noteq> None"
  using assms unfolding tags_ok_def by blast+

lemma tags_completed:
  assumes t: "tags_ok s c d"
  shows "0 < sy_reads s \<Longrightarrow> ss_request_queue c = [None] \<and> ss_read_next c = St_ReadDone \<and> ss_reading c \<and> \<not> ss_reads_done c \<and> d C_read = 0"
    "0 < sy_reads s \<Longrightarrow> tags_ok (s\<lparr>sy_reads := sy_reads s - 1\<rparr>)
       (c\<lparr>ss_reading := False, ss_reads_done := True, ss_request_queue := [], ss_read_next := St_Invalid\<rparr>) d"
    "0 < sy_reads s \<Longrightarrow> tags_ok (s\<lparr>sy_reads := sy_reads s - 1\<rparr>) c (\<lambda>x. d x + (if x = C_read then 1 else 0))"
    "0 < sy_writes s \<Longrightarrow> ss_writing c \<and> ss_write_next c = St_WriteDone \<and> (ss_response_queue c = [] \<longrightarrow> ss_status c \<noteq> None)"
    "0 < sy_writes s \<Longrightarrow> tags_ok (s\<lparr>sy_writes := sy_writes s - 1\<rparr>) (c\<lparr>ss_writing := False\<rparr>) d"
    "0 < sy_writes s \<Longrightarrow> tags_ok (s\<lparr>sy_writes := sy_writes s - 1\<rparr>) (c\<lparr>ss_writing := False, ss_response_queue := q, ss_write_next := n\<rparr>) d"
    "0 < sy_finishes s \<Longrightarrow> ss_next_state c = St_FinishedDone"
    "0 < sy_finishes s \<Longrightarrow> tags_ok (s\<lparr>sy_finishes := sy_finishes s - 1, sy_ended := True\<rparr>) c d"
proof -
  note D = tags_okD [OF t]
  assume r: "0 < sy_reads s"
  then have rd: "ss_reading c" "sy_reads s = 1" "d C_read = 0" using D(3) by (auto split: if_split_asm)
  then show "ss_request_queue c = [None] \<and> ss_read_next c = St_ReadDone \<and> ss_reading c \<and> \<not> ss_reads_done c \<and> d C_read = 0"
    using D(1,2,8) by simp
  have f: "\<not> ss_finishing c" using D(10) rd(1) by blast
  show "tags_ok (s\<lparr>sy_reads := sy_reads s - 1\<rparr>)
       (c\<lparr>ss_reading := False, ss_reads_done := True, ss_request_queue := [], ss_read_next := St_Invalid\<rparr>) d"
    using D(4-7,9,11) f rd unfolding tags_ok_def by simp
  show "tags_ok (s\<lparr>sy_reads := sy_reads s - 1\<rparr>) c (\<lambda>x. d x + (if x = C_read then 1 else 0))"
    using D(1,2,4-9,11) f rd unfolding tags_ok_def by simp
next
  note D = tags_okD [OF t]
  assume r: "0 < sy_writes s"
  then have wr: "ss_writing c" "sy_writes s = 1" "d C_write = 0" using D(4) by (auto split: if_split_asm)
  then show "ss_writing c \<and> ss_write_next c = St_WriteDone \<and> (ss_response_queue c = [] \<longrightarrow> ss_status c \<noteq> None)" using D(9,11) by blast
  show "tags_ok (s\<lparr>sy_writes := sy_writes s - 1\<rparr>) (c\<lparr>ss_writing := False\<rparr>) d"
    "tags_ok (s\<lparr>sy_writes := sy_writes s - 1\<rparr>) (c\<lparr>ss_writing := False, ss_response_queue := q, ss_write_next := n\<rparr>) d"
    using D(1-3,5-8,10) wr unfolding tags_ok_def by simp_all
next
  note D = tags_okD [OF t]
  assume r: "0 < sy_finishes s"
  then have fn: "ss_finishing c" "\<not> sy_ended s" using D(5,6) by (auto split: if_split_asm)
  then show "ss_next_state c = St_FinishedDone" using D(7) by simp
  show "tags_ok (s\<lparr>sy_finishes := sy_finishes s - 1, sy_ended := True\<rparr>) c d"
    using D(1-9,11) D(10) [OF fn(1)] fn r unfolding tags_ok_def by simp
qed

lemma liveD:
  assumes "live s"
  shows "tags_ok s (sy_ctx s) (\<lambda>c. due c (sy_todo s))" "subseq (sy_delivered s @ requests (concat (sy_todo s))) (map Some (sy_received s))"
    "length (requests (concat (sy_todo s))) \<le> 1" "\<forall>t \<in> set (sy_todo s). ordered t"
  using assms by (simp_all add: live_def)

lemma read_fine:
  assumes l: "live s" and r: "0 < sy_reads s"
  shows "fine s (st_sub_done (ss_read_next (sy_ctx s)) True (store_read q (s\<lparr>sy_reads := sy_reads s - 1\<rparr>)))"
proof -
  note L = liveD [OF l] and C = tags_completed(1) [OF liveD(1) [OF l] r]
  define c where "c = (sy_ctx s)\<lparr>ss_request_queue := [Some q], ss_reading := False\<rparr>"
  obtain c' calls where ev: "st_evaluate c = (c', calls)" by force
  have "c\<lparr>ss_reading := True, ss_request_queue := [None]\<rparr> = sy_ctx s" using C by (cases "sy_ctx s") (simp add: c_def)
  then have t: "tags_ok (s\<lparr>sy_reads := sy_reads s - 1\<rparr>) (c\<lparr>ss_reading := True, ss_request_queue := [None]\<rparr>)
      (\<lambda>x. due x (sy_todo s) + (if x = C_read then 1 else 0))" using tags_completed(3) [OF L(1) r] by simp
  have "\<not> ss_reading c" "\<not> ss_reads_done c" "ss_request_queue c = [Some q]" using C by (simp_all add: c_def)
  note E = eval_read_tags [OF t this ev]
  have n: "requests (concat (sy_todo s)) = []" using requests_concat [OF L(4)] C by simp
  have sub: "subseq (sy_delivered s @ requests calls) (map Some (sy_received s) @ [Some q])"
    using E(2) L(2) by (auto simp: n intro: list_emb_append_mono [of _ _ _ "[]", simplified] list_emb_append_mono)
  have a: "adds calls (sy_todo s) (sy_todo s @ [calls])" by (simp add: adds_def)
  have "live (spawn (c', calls) (store_read q (s\<lparr>sy_reads := sy_reads s - 1\<rparr>)))"
    using E sub adds_ordered [OF a E(3) L(4)] by (auto simp: live_def spawn_def store_read_def n adds_due [OF a])
  moreover have "st_sub_done (ss_read_next (sy_ctx s)) True (store_read q (s\<lparr>sy_reads := sy_reads s - 1\<rparr>))
      = Inr (spawn (c', calls) (store_read q (s\<lparr>sy_reads := sy_reads s - 1\<rparr>)))"
    using C ev by (simp add: st_sub_done_def store_read_def st_read_done_def c_def)
  ultimately show ?thesis by (simp add: fine_def store_read_def)
qed

lemma live_ctx:
  assumes "live s" and "tags_ok s' c (\<lambda>x. due x (sy_todo s))" and "sy_todo s' = sy_todo s" and "sy_delivered s' = sy_delivered s"
    and "sy_received s' = sy_received s" and "sy_ctx s' = c"
  shows "live s'"
  using assms by (simp add: live_def)

lemma read_end_fine:
  assumes l: "live s" and r: "0 < sy_reads s"
  shows "fine s (st_sub_done (ss_read_next (sy_ctx s)) False (s\<lparr>sy_reads := sy_reads s - 1\<rparr>))"
proof -
  note t = liveD(1) [OF l]
  let ?c = "(sy_ctx s)\<lparr>ss_reading := False, ss_reads_done := True, ss_request_queue := [], ss_read_next := St_Invalid\<rparr>"
  let ?s = "s\<lparr>sy_reads := sy_reads s - 1, sy_ctx := ?c\<rparr>"
  have "live ?s" using tags_completed(2) [OF t r] by (intro live_ctx [OF l, of ?s ?c]) simp_all
  then have "live (spawn (st_evaluate (sy_ctx ?s)) ?s)" by (rule live_spawn [OF _ heeds_evaluate])
  then show ?thesis using tags_completed(1) [OF t r] by (simp add: fine_def st_sub_done_def st_read_done_def spawn_def split_beta)
qed

lemma write_fine:
  assumes l: "live s" and r: "0 < sy_writes s"
  shows "fine s (st_sub_done (ss_write_next (sy_ctx s)) ok (s\<lparr>sy_writes := sy_writes s - 1\<rparr>))"
proof -
  note t = liveD(1) [OF l] and C = tags_completed(4) [OF liveD(1) [OF l] r]
  let ?c0 = "(sy_ctx s)\<lparr>ss_writing := False\<rparr>"
  let ?c1 = "(sy_ctx s)\<lparr>ss_writing := False, ss_response_queue := tl (ss_response_queue (sy_ctx s)), ss_write_next := St_Invalid\<rparr>"
  let ?s = "\<lambda>c. s\<lparr>sy_writes := sy_writes s - 1, sy_ctx := c\<rparr>"
  have "live (?s ?c0)" using tags_completed(5) [OF t r] by (intro live_ctx [OF l, of "?s ?c0" ?c0]) simp_all
  moreover have "heeds (\<lambda>c. let (c, k) = close_stream False c; (c, k') = st_evaluate c in (c, k @ k'))"
    by (rule heeds_comp [OF heeds_close heeds_evaluate]) (rule refl)
  ultimately have bad: "live (spawn (let (c, k) = close_stream False ?c0; (c, k') = st_evaluate c in (c, k @ k')) (?s ?c0))"
    using live_spawn [of "?s ?c0"] by fastforce
  have "live (?s ?c1)" using tags_completed(6) [OF t r] by (intro live_ctx [OF l, of "?s ?c1" ?c1]) simp_all
  then have good: "live (spawn (st_evaluate ?c1) (?s ?c1))" using live_spawn [OF _ heeds_evaluate, of "?s ?c1"] by simp
  show ?thesis
    using C good bad by (cases ok; cases "ss_response_queue (sy_ctx s)")
      (simp_all add: fine_def st_sub_done_def st_write_done_def spawn_def split_beta Let_def lost_write_def)
qed

lemma finish_fine:
  assumes l: "live s" and r: "0 < sy_finishes s"
  shows "fine s (st_main_done True (s\<lparr>sy_finishes := sy_finishes s - 1\<rparr>))"
proof -
  note t = liveD(1) [OF l]
  let ?s = "s\<lparr>sy_finishes := sy_finishes s - 1, sy_ended := True\<rparr>"
  have "live ?s" using tags_completed(8) [OF t r] by (intro live_ctx [OF l, of ?s "sy_ctx s"]) simp_all
  then have "live (spawn (st_finished_done (sy_ctx ?s)) ?s)" by (rule live_spawn [OF _ heeds_finished_done])
  moreover have "(spawn x (s\<lparr>sy_finishes := n\<rparr>))\<lparr>sy_ended := True\<rparr> = spawn x (s\<lparr>sy_finishes := n, sy_ended := True\<rparr>)" for x n
    by (cases s) (simp add: spawn_def split_beta)
  ultimately show ?thesis using tags_completed(7) [OF t r] by (simp add: fine_def st_main_done_def)
qed

lemma user_fine: "live s \<Longrightarrow> fine s (Inr (spawn (user_op op (sy_ctx s)) (s\<lparr>sy_users := n\<rparr>)))"
  using live_spawn [OF live_ctx [of s "s\<lparr>sy_users := n\<rparr>" "sy_ctx s"] heeds_user_op [of op]] liveD(1) [of s] by (simp add: fine_def)

lemma block_fine:
  assumes "live s"
  shows "fine s (Inr (spawn (if b then (st_block_finish (sy_ctx s), []) else st_unblock_finish (sy_ctx s)) s))"
  using live_spawn [OF assms heeds_block] live_spawn [OF assms heeds_unblock] by (cases b) (simp_all add: fine_def)

lemma live_step:
  assumes l: "live s" and "\<not> sy_queued s" and "\<not> sy_hook s" and st: "st_step ev s = Some r"
  shows "fine s r"
proof (cases ev)
  case (E_call i)
  then have i: "i < length (sy_todo s)" "sy_todo s ! i \<noteq> []"
      and r: "r = st_make_call i (hd (sy_todo s ! i)) (s\<lparr>sy_todo := (sy_todo s)[i := tl (sy_todo s ! i)]\<rparr>)"
    using st by (simp_all add: st_step_def split: if_split_asm)
  then show ?thesis using call_fine [OF l, of i "hd (sy_todo s ! i)" "tl (sy_todo s ! i)"] by simp
next
  case (E_block b)
  then show ?thesis using block_fine [OF l, of b] st by (simp add: st_step_def)
qed (use assms read_fine [OF l] read_end_fine [OF l] write_fine [OF l] finish_fine [OF l] user_fine [OF l]
      in \<open>auto simp: st_step_def split: if_split_asm\<close>)

lemma st_reach_ok: "st_reach s \<Longrightarrow> st_ok s"
proof (induction rule: st_reach.induct)
  case (st_init c)
  then show ?case using calm_start by (auto simp: st_ok_def)
next
  case (st_next s ev s')
  then consider "calm s" | "\<not> sy_queued s" "\<not> sy_hook s" "live s" by (auto simp: st_ok_def)
  then show ?case
  proof cases
    case 1
    then show ?thesis using calm_step st_next.hyps by fastforce
  next
    case 2
    then have "fine s (Inr s')" using live_step st_next.hyps by blast
    then show ?thesis using 2 by (simp add: fine_def st_ok_def)
  qed
qed


fun patient_trace :: "('q, 'r) st_event list \<Rightarrow> ('q, 'r) st_sys \<Rightarrow> bool" where
  "patient_trace [] s = True"
| "patient_trace (ev # evs) s \<longleftrightarrow> patient s ev \<and> (case st_step ev s of Some (Inr s) \<Rightarrow> patient_trace evs s | _ \<Rightarrow> True)"

lemma st_trace_reach: "st_reach s \<Longrightarrow> patient_trace evs s \<Longrightarrow> st_trace evs s = Some (Inr s') \<Longrightarrow> st_reach s'"
proof (induction evs arbitrary: s)
  case (Cons ev evs)
  then show ?case by (auto split: option.splits sum.splits intro: st_next)
qed simp



subsection \<open>Closed streams\<close>

text \<open>What \<open>EvaluateState\<close> leaves alone, and what it does not decide on when the finish is blocked or there is nothing to write.\<close>

lemma evaluate_frame:
  assumes "st_evaluate c = (c', calls)"
  shows "ss_connected c' = ss_connected c" "ss_block_finish c' = ss_block_finish c" "ss_response_queue c' = ss_response_queue c"
    "ss_block_finish c \<Longrightarrow> ss_finishing c' = ss_finishing c \<and> C_finish \<notin> set calls"
    "ss_response_queue c = [] \<Longrightarrow> ss_writing c' = ss_writing c \<and> ss_write_next c' = ss_write_next c"
    "ss_next_state c \<noteq> St_InitializedDone \<Longrightarrow> ss_next_state c' \<noteq> St_InitializedDone"
  using assms
  by (auto simp: st_evaluate_def eval_read_def eval_reads_finished_def eval_cancelled_def eval_write_def eval_finish_def capture_def
      forward_calls_def Let_def split: if_splits option.splits prod.splits bool.splits)

definition keeps ::
    "(('q, 'r) streaming \<Rightarrow> bool) \<Rightarrow> 'q st_call set \<Rightarrow> (('q, 'r) streaming \<Rightarrow> ('q, 'r) streaming \<times> 'q st_call list) \<Rightarrow> bool" where
  "keeps P X h \<longleftrightarrow> (\<forall>c. P c \<longrightarrow> P (fst (h c)) \<and> set (snd (h c)) \<inter> X = {})"

definition sealed :: "(('q, 'r) streaming \<Rightarrow> bool) \<Rightarrow> 'q st_call set \<Rightarrow> ('q, 'r) st_sys \<Rightarrow> bool" where
  "sealed P X s \<longleftrightarrow> P (sy_ctx s) \<and> \<not> sy_queued s \<and> (\<forall>t \<in> set (sy_todo s). set t \<inter> X = {})"

lemma todo_update:
  "\<forall>t \<in> set ts. set t \<inter> X = {} \<Longrightarrow> set u \<inter> X = {} \<Longrightarrow> \<forall>t \<in> set (ts[i := u]). set t \<inter> X = {}"
  using set_update_subset_insert [of ts i u] by blast

text \<open>A context whose stream has been cut off: \<open>P\<close> holds of it and goes on to hold whatever is evaluated, and the calls \<open>X\<close> are not
  decided on any more.\<close>

locale cut_off =
  fixes P :: "('q, 'r) streaming \<Rightarrow> bool" and X :: "'q st_call set"
  assumes off: "P c \<Longrightarrow> \<not> ss_connected c \<and> ss_next_state c \<noteq> St_InitializedDone"
    and evaluate: "P c \<Longrightarrow> st_evaluate c = (c', calls) \<Longrightarrow> P c' \<and> set calls \<inter> X = {}"
    and frame: "P c \<Longrightarrow> \<not> ss_connected c' \<Longrightarrow> ss_next_state c' = ss_next_state c \<Longrightarrow> ss_block_finish c' = ss_block_finish c \<Longrightarrow>
      ss_finishing c' = ss_finishing c \<Longrightarrow> ss_response_queue c' = ss_response_queue c \<or> ss_response_queue c' = [] \<Longrightarrow>
      ss_writing c' = ss_writing c \<Longrightarrow> ss_write_next c' = ss_write_next c \<Longrightarrow> P c'"
    and only: "X \<subseteq> {C_write, C_finish}"
begin

lemma others: "C_delete \<notin> X" "C_stream_finished \<notin> X" "C_read \<notin> X"
  using only by blast+

lemma keeps_evaluate: "keeps P X st_evaluate"
  using evaluate by (metis keeps_def prod.collapse)

lemma keeps_close: "keeps P X (close_stream status)"
  unfolding keeps_def
proof (intro allI impI)
  fix c assume "P c"
  let ?c = "c\<lparr>ss_writes_done := True, ss_status := Some status\<rparr>"
  let ?d = "if \<not> ss_reads_done c then ?c\<lparr>ss_response_queue := []\<rparr> else ?c"
  have "P ?d" by (rule frame [OF \<open>P c\<close>]) (use off [OF \<open>P c\<close>] in auto)
  then show "P (fst (close_stream status c)) \<and> set (snd (close_stream status c)) \<inter> X = {}"
    using keeps_evaluate by (simp add: keeps_def close_stream_def Let_def)
qed

lemma keeps_deleter: "keeps P X stream_deleter"
  using keeps_evaluate others by (auto simp: keeps_def stream_deleter_def split_beta)

lemma keeps_destructor: "keeps P X stream_destructor"
  using off by (simp add: keeps_def stream_destructor_def)

lemma keeps_release: "keeps P X release_stream"
  unfolding keeps_def
proof (intro allI impI)
  fix c assume "P c"
  then have "P (c\<lparr>ss_holders := ss_holders c - 1\<rparr>)" by (rule frame) (use off [OF \<open>P c\<close>] in auto)
  then show "P (fst (release_stream c)) \<and> set (snd (release_stream c)) \<inter> X = {}"
    using keeps_deleter by (simp add: keeps_def release_stream_def Let_def)
qed

lemma keeps_finished_done: "keeps P X st_finished_done"
  unfolding keeps_def
proof (intro allI impI)
  fix c assume "P c"
  let ?c = "c\<lparr>ss_server_stream := False\<rparr>"
  let ?d = "if ss_server_stream c \<and> expired ?c then stream_deleter ?c else (?c, [])"
  have "P ?c" by (rule frame [OF \<open>P c\<close>]) (use off [OF \<open>P c\<close>] in auto)
  then have d: "P (fst ?d)" "set (snd ?d) \<inter> X = {}" using keeps_deleter by (auto simp: keeps_def)
  have "P ((fst ?d)\<lparr>ss_connected := False\<rparr>)" by (rule frame [OF d(1)]) simp_all
  then show "P (fst (st_finished_done c)) \<and> set (snd (st_finished_done c)) \<inter> X = {}"
    using d others by (auto simp: st_finished_done_def Let_def split_beta)
qed

lemma keeps_user_op: "keeps P X (user_op op)"
proof -
  have "P (c\<lparr>ss_holders := ss_holders c + 1\<rparr>)" if "P c" for c
    using that by (rule frame) (use off [OF that] in auto)
  then show ?thesis using keeps_release off by (cases op) (simp_all add: keeps_def user_op_def)
qed

lemma keeps_read_done:
  assumes "P c" and "st_read_done ok c = Inr (c', calls)"
  shows "P c' \<and> set calls \<inter> X = {}"
proof -
  let ?c = "c\<lparr>ss_reading := False\<rparr>"
  let ?d = "?c\<lparr>ss_reads_done := True, ss_request_queue := tl (ss_request_queue c), ss_read_next := St_Invalid\<rparr>"
  have "P ?c" "P ?d" by (rule frame [OF assms(1)]; use off [OF assms(1)] in simp)+
  then show ?thesis using assms(2) evaluate by (auto simp: st_read_done_def Let_def split: if_splits)
qed

lemma keeps_initialized_end: "keeps P X initialized_end"
  unfolding keeps_def initialized_end_def using others off by (auto intro: frame)

lemma sealed_spawn: "sealed P X s \<Longrightarrow> keeps P X h \<Longrightarrow> sealed P X (spawn (h (sy_ctx s)) s)"
  by (auto simp: sealed_def keeps_def spawn_def split_beta)

lemma sealed_push:
  assumes "sealed P X s" and "keeps P X h" and "i < length (sy_todo s)"
  shows "sealed P X (push_calls i (h (sy_ctx s)) s)"
proof -
  have "set (snd (h (sy_ctx s)) @ sy_todo s ! i) \<inter> X = {}" "P (fst (h (sy_ctx s)))"
    using assms nth_mem [OF assms(3)] by (auto simp: sealed_def keeps_def)
  with todo_update [OF _ this(1), of "sy_todo s" i] show ?thesis using assms(1)
    by (simp only: sealed_def push_calls_def split_beta) simp
qed

lemma sealed_call:
  assumes "sealed P X s" and "i < length (sy_todo s)" and "sy_todo s ! i \<noteq> []"
    and "st_make_call i (hd (sy_todo s ! i)) (s\<lparr>sy_todo := (sy_todo s)[i := tl (sy_todo s ! i)]\<rparr>) = Inr s'"
  shows "sealed P X s' \<and> hd (sy_todo s ! i) \<notin> X"
proof -
  let ?ts = "(sy_todo s)[i := tl (sy_todo s ! i)]"
  have i: "set (sy_todo s ! i) \<inter> X = {}" using assms(1,2) by (simp add: sealed_def)
  then have n: "hd (sy_todo s ! i) \<notin> X" using hd_in_set [OF assms(3)] by blast
  have "set (tl (sy_todo s ! i)) \<inter> X = {}" using i list.set_sel(2) [OF assms(3)] by blast
  then have s1: "sealed P X (s\<lparr>sy_todo := ?ts\<rparr>)" using assms(1) todo_update [of "sy_todo s" X] by (simp add: sealed_def)
  have len: "i < length (sy_todo (s\<lparr>sy_todo := ?ts\<rparr>))" using assms(2) by simp
  have hold: "P ((sy_ctx s)\<lparr>ss_holders := ss_holders (sy_ctx s) + 1\<rparr>)"
    using assms(1) off by (auto simp: sealed_def intro: frame)
  have "sealed P X s'"
  proof (cases "hd (sy_todo s ! i)")
    case C_release
    then show ?thesis using assms(4) sealed_push [OF s1 keeps_release len] by (simp add: st_make_call_def)
  next
    case C_delete
    then show ?thesis using assms(4) sealed_push [OF s1 keeps_destructor len] by (simp add: st_make_call_def)
  qed (use assms(4) s1 hold in \<open>auto simp: st_make_call_def sealed_def split: list.splits if_splits option.splits\<close>)
  with n show ?thesis by blast
qed

text \<open>Every step but the completion of a write and a call of \<open>BlockFinish\<close> or \<open>UnblockFinish\<close>.\<close>

lemma sealed_step:
  assumes s: "sealed P X s" and "st_step ev s = Some (Inr s')" and "\<And>ok. ev \<noteq> E_write ok" and "\<And>b. ev \<noteq> E_block b" and l: "live s"
  shows "sealed P X s'"
proof (cases ev)
  case (E_start ok)
  then show ?thesis using s assms(2) by (simp add: st_step_def sealed_def)
next
  case E_hook_end
  then have "s' = spawn (initialized_end (sy_ctx s)) (s\<lparr>sy_hook := False\<rparr>)"
    using assms(2) by (simp add: st_step_def split: if_splits)
  then show ?thesis using s sealed_spawn [OF _ keeps_initialized_end, of "s\<lparr>sy_hook := False\<rparr>"] by (simp add: sealed_def)
next
  case (E_read q)
  let ?s = "store_read q (s\<lparr>sy_reads := sy_reads s - 1\<rparr>)"
  have "P (sy_ctx ?s)" using s off by (auto simp: sealed_def store_read_def intro: frame)
  moreover have "ss_read_next (sy_ctx s) = St_ReadDone" "0 < sy_reads s"
    using assms(2) E_read tags_completed(1) [OF liveD(1) [OF l]] by (auto simp: st_step_def split: if_splits)
  then obtain c' calls where "st_read_done True (sy_ctx ?s) = Inr (c', calls)" "s' = spawn (c', calls) ?s"
    using assms(2) E_read by (cases "st_read_done True (sy_ctx ?s)") (auto simp: st_step_def st_sub_done_def)
  ultimately show ?thesis using s keeps_read_done by (auto simp: sealed_def spawn_def store_read_def)
next
  case E_read_end
  let ?s = "s\<lparr>sy_reads := sy_reads s - 1\<rparr>"
  have "ss_read_next (sy_ctx s) = St_ReadDone" "0 < sy_reads s"
    using assms(2) E_read_end tags_completed(1) [OF liveD(1) [OF l]] by (auto simp: st_step_def split: if_splits)
  then obtain c' calls where "st_read_done False (sy_ctx ?s) = Inr (c', calls)" "s' = spawn (c', calls) ?s"
    using assms(2) E_read_end by (cases "st_read_done False (sy_ctx ?s)") (auto simp: st_step_def st_sub_done_def)
  then show ?thesis using s keeps_read_done [of "sy_ctx s" False] by (auto simp: sealed_def spawn_def)
next
  case E_finish
  let ?s = "s\<lparr>sy_finishes := sy_finishes s - 1\<rparr>"
  have "ss_next_state (sy_ctx s) = St_FinishedDone"
    using assms(2) E_finish tags_completed(7) [OF liveD(1) [OF l]] by (auto simp: st_step_def split: if_splits)
  then have "s' = (spawn (st_finished_done (sy_ctx ?s)) ?s)\<lparr>sy_ended := True\<rparr>"
    using assms(2) E_finish by (auto simp: st_step_def st_main_done_def split: if_splits)
  moreover have "sealed P X ?s" using s by (simp add: sealed_def)
  ultimately show ?thesis using sealed_spawn [OF _ keeps_finished_done, of ?s] by (simp add: sealed_def)
next
  case (E_call i)
  then show ?thesis using assms(2) sealed_call [OF s, of i s'] by (auto simp: st_step_def split: if_splits)
next
  case (E_user op)
  let ?s = "s\<lparr>sy_users := count_user op (sy_users s)\<rparr>"
  have "s' = spawn (user_op op (sy_ctx ?s)) ?s" using assms(2) E_user by (auto simp: st_step_def split: if_splits)
  moreover have "sealed P X ?s" using s by (simp add: sealed_def)
  ultimately show ?thesis using sealed_spawn [OF _ keeps_user_op, of ?s] by simp
qed (use assms(3,4) in auto)

end
text \<open>A stream that was closed before the client ended its half: its queue stays empty, and a write that is under way stays so.\<close>

definition drained :: "bool \<Rightarrow> ('q, 'r) streaming \<Rightarrow> bool" where
  "drained w c \<longleftrightarrow> \<not> ss_connected c \<and> ss_next_state c \<noteq> St_InitializedDone \<and> ss_response_queue c = []
     \<and> (w \<longrightarrow> ss_writing c \<and> ss_write_next c = St_WriteDone)"

text \<open>A stream that was closed while the finish is blocked.\<close>

definition shut :: "('q, 'r) streaming \<Rightarrow> bool" where
  "shut c \<longleftrightarrow> \<not> ss_connected c \<and> ss_next_state c \<noteq> St_InitializedDone \<and> ss_block_finish c \<and> \<not> ss_finishing c"

lemma drained_evaluate: "drained w c \<Longrightarrow> st_evaluate c = (c', calls) \<Longrightarrow> drained w c'"
  using evaluate_frame [of c c' calls] by (simp add: drained_def)

lemma shut_evaluate: "shut c \<Longrightarrow> st_evaluate c = (c', calls) \<Longrightarrow> shut c' \<and> set calls \<inter> {C_finish} = {}"
  using evaluate_frame [of c c' calls] by (simp add: shut_def)

interpretation dry: cut_off "drained w" "{}"
  for w
proof unfold_locales
  show "drained w c' \<and> set calls \<inter> {} = {}" if "drained w c" "st_evaluate c = (c', calls)" for c c' calls
    using drained_evaluate that by auto
qed (auto simp: drained_def)

interpretation shu: cut_off shut "{C_finish}"
proof unfold_locales
  show "shut c' \<and> set calls \<inter> {C_finish} = {}" if "shut c" "st_evaluate c = (c', calls)" for c c' calls
    using shut_evaluate that by blast
qed (auto simp: shut_def)

lemma live_trace_step:
  assumes "live s" and "\<not> sy_queued s" and "\<not> sy_hook s" and "st_step ev s = Some (Inr s')"
  shows "live s'" "\<not> sy_queued s'" "\<not> sy_hook s'"
  using live_step [OF assms] assms(2,3) by (simp_all add: fine_def)

lemma reach_live:
  assumes "st_reach s" and "\<not> sy_hook s" and "st_step (E_user op) s = Some (Inr s')"
  shows "live s" "\<not> sy_queued s"
proof -
  have "0 < sy_users s" using assms(2,3) by (auto simp: st_step_def split: if_splits)
  then have "\<not> calm s" using assms(2) by (auto simp: calm_def)
  then show "live s" "\<not> sy_queued s" using st_reach_ok [OF assms(1)] by (auto simp: st_ok_def)
qed

lemma closed_step:
  assumes "op = U_finish \<or> op = U_cancel" and "ss_connected (sy_ctx s)" and "st_step (E_user op) s = Some (Inr s')"
  obtains c' calls where "close_stream (op = U_finish) (sy_ctx s) = (c', calls)"
    "s' = s\<lparr>sy_ctx := c'\<lparr>ss_connected := False\<rparr>, sy_todo := sy_todo s @ [calls]\<rparr>"
proof -
  obtain c' calls where c: "close_stream (op = U_finish) (sy_ctx s) = (c', calls)" by force
  then have "s' = s\<lparr>sy_ctx := c'\<lparr>ss_connected := False\<rparr>, sy_todo := sy_todo s @ [calls]\<rparr>"
    using assms by (auto simp: st_step_def user_op_def spawn_def count_user_def split: if_splits)
  with c show ?thesis by (rule that)
qed

lemma no_init: "live s \<Longrightarrow> ss_next_state (sy_ctx s) \<noteq> St_InitializedDone"
  using tags_okD(7) [OF liveD(1), of s] by simp

lemma closed_drained:
  assumes "live s" and "\<not> sy_queued s" and "op = U_finish \<or> op = U_cancel" and "ss_connected (sy_ctx s)"
    and "\<not> ss_reads_done (sy_ctx s)" and "st_step (E_user op) s = Some (Inr s')"
  shows "sealed (drained (0 < sy_writes s)) {} s'" "sy_writes s' = sy_writes s"
proof -
  from assms(3,4,6) obtain c' calls where c: "close_stream (op = U_finish) (sy_ctx s) = (c', calls)"
    and s': "s' = s\<lparr>sy_ctx := c'\<lparr>ss_connected := False\<rparr>, sy_todo := sy_todo s @ [calls]\<rparr>" by (rule closed_step)
  let ?c = "(sy_ctx s)\<lparr>ss_writes_done := True, ss_status := Some (op = U_finish), ss_response_queue := []\<rparr>"
  have ev: "st_evaluate ?c = (c', calls)" using c assms(5) by (simp add: close_stream_def)
  note f = evaluate_frame [OF ev]
  have "ss_writing (sy_ctx s) \<and> ss_write_next (sy_ctx s) = St_WriteDone" if "0 < sy_writes s"
    using tags_completed(4) [OF liveD(1) [OF assms(1)] that] by blast
  then show "sealed (drained (0 < sy_writes s)) {} s'" "sy_writes s' = sy_writes s"
    using f no_init [OF assms(1)] assms(2) by (simp_all add: s' sealed_def drained_def)
qed

text \<open>No completion of a write is handled, so one that is under way stays under way.\<close>

lemma posted_frame [simp]:
  "sy_writes (spawn x s) = sy_writes s" "sy_writes (push_calls i x s) = sy_writes s" "sy_finishes (spawn x s) = sy_finishes s"
  "sy_finishes (push_calls i x s) = sy_finishes s" "sy_finished (spawn x s) = sy_finished s" "sy_finished (push_calls i x s) = sy_finished s"
  "sy_ended (spawn x s) = sy_ended s" "sy_ended (push_calls i x s) = sy_ended s"
  by (simp_all add: spawn_def push_calls_def split_beta)

lemma sub_done_posted:
  assumes "st_sub_done fn ok s = Inr s'"
  shows "sy_writes s' = sy_writes s" "sy_finishes s' = sy_finishes s" "sy_finished s' = sy_finished s" "sy_ended s' = sy_ended s"
  using assms
  by (cases fn; cases "st_read_done ok (sy_ctx s)"; cases "st_write_done ok (sy_ctx s)"; auto simp: st_sub_done_def)+

lemma call_posted:
  assumes "st_make_call i x s = Inr s'"
  shows "sy_writes s \<le> sy_writes s'" "sy_ended s' = sy_ended s"
    "x \<noteq> C_finish \<Longrightarrow> sy_finishes s' = sy_finishes s \<and> sy_finished s' = sy_finished s"
  using assms by (cases x; auto simp: st_make_call_def split: list.splits if_splits option.splits)+

lemma step_writes:
  assumes "st_step ev s = Some (Inr s')" and "\<And>ok. ev \<noteq> E_write ok"
  shows "sy_writes s \<le> sy_writes s'"
proof (cases ev)
  case (E_read q)
  then show ?thesis using assms(1) by (auto simp: st_step_def store_read_def dest: sub_done_posted split: if_splits)
next
  case E_read_end
  then show ?thesis using assms(1) by (auto simp: st_step_def dest: sub_done_posted split: if_splits)
next
  case (E_call i)
  then show ?thesis using assms(1) by (auto simp: st_step_def dest: call_posted(1) split: if_splits)
qed (use assms in \<open>auto simp: st_step_def st_main_done_def split: if_splits st_fn.splits\<close>)

lemma drained_trace:
  assumes "st_trace evs s = Some (Inr s')" and "sealed (drained w) {} s" and "live s" and "\<not> sy_hook s"
    and "\<forall>ev \<in> set evs. \<forall>ok. ev \<noteq> E_write ok"
  shows "sealed (drained w) {} s' \<and> sy_writes s \<le> sy_writes s'"
  using assms
proof (induction evs arbitrary: s)
  case (Cons ev evs)
  then obtain s1 where s1: "st_step ev s = Some (Inr s1)" "st_trace evs s1 = Some (Inr s')"
    by (auto split: option.splits sum.splits)
  have nq: "\<not> sy_queued s" using Cons.prems(2) by (simp add: sealed_def)
  note l = live_trace_step [OF Cons.prems(3) nq Cons.prems(4) s1(1)]
  have nw: "\<And>ok. ev \<noteq> E_write ok" using Cons.prems(5) by simp
  have "sealed (drained w) {} s1"
  proof (cases "\<exists>b. ev = E_block b")
    case True
    then obtain b where "s1 = spawn (if b then (st_block_finish (sy_ctx s), []) else st_unblock_finish (sy_ctx s)) s"
      using s1(1) by (auto simp: st_step_def)
    then show ?thesis using Cons.prems(2)
      by (auto simp: sealed_def drained_def spawn_def st_block_finish_def st_unblock_finish_def split: if_splits)
  next
    case False
    then show ?thesis using dry.sealed_step [OF Cons.prems(2) s1(1) nw _ Cons.prems(3)] by blast
  qed
  then have "sealed (drained w) {} s' \<and> sy_writes s1 \<le> sy_writes s'" using Cons.IH [OF s1(2)] l Cons.prems(5) by simp
  then show ?case using step_writes [OF s1(1) nw] by simp
qed simp

text \<open>C30. Closing a stream while a response is being written is not safe before the client has ended its half of the stream:
  \<open>CloseStream\<close> empties the queue that holds the response. Whatever happens after the user has called \<open>FinishStream\<close> or
  \<open>CancelStream\<close>: when the write that was under way completes, its handler pops from the empty queue, and when a thread
  makes a write it had decided on, it takes the front of the empty queue. Both are undefined behaviour.\<close>

theorem streaming_close_loses_write:
  assumes "st_reach s" and "\<not> sy_hook s" and "ss_connected (sy_ctx s)" and "\<not> ss_reads_done (sy_ctx s)"
    and "op = U_finish \<or> op = U_cancel" and "st_step (E_user op) s = Some (Inr s1)"
    and "st_trace evs s1 = Some (Inr s2)" and "\<forall>ok. E_write ok \<notin> set evs"
  shows "(0 < sy_writes s \<longrightarrow> st_step (E_write True) s2 = Some (Inl (Undefined_behaviour ''pop of an empty queue'')))
     \<and> (\<forall>i. i < length (sy_todo s2) \<longrightarrow> sy_todo s2 ! i \<noteq> [] \<longrightarrow> hd (sy_todo s2 ! i) = C_write \<longrightarrow>
          st_step (E_call i) s2 = Some (Inl (Undefined_behaviour ''front of an empty queue'')))"
proof -
  note l = reach_live [OF assms(1,2,6)]
  note d = closed_drained [OF l assms(5,3,4,6)]
  note l1 = live_trace_step [OF l assms(2,6)]
  have "sealed (drained (0 < sy_writes s)) {} s2" "sy_writes s \<le> sy_writes s2"
    using drained_trace [OF assms(7) d(1) l1(1,3)] assms(8) d(2) by auto
  then show ?thesis
    by (auto simp: sealed_def drained_def st_step_def st_sub_done_def st_write_done_def st_make_call_def)
qed

definition open_stream :: "(nat, nat) st_event list" where
  "open_stream = [E_start True, E_hook_end, E_call 0, E_read 1, E_call 1, E_call 1, E_user (U_write 10), E_call 2]"

lemma open_stream_ok:
  "case st_trace open_stream (st_start streaming_new) of
     Some (Inr s) \<Rightarrow> \<not> sy_hook s \<and> ss_connected (sy_ctx s) \<and> \<not> ss_reads_done (sy_ctx s) \<and> 0 < sy_writes s
       \<and> (case st_step (E_user U_finish) s of Some (Inr s1) \<Rightarrow> True | _ \<Rightarrow> False)
   | _ \<Rightarrow> False"
  by code_simp

lemma reach_new: "patient_trace evs (st_start streaming_new) \<Longrightarrow> st_trace evs (st_start streaming_new) = Some (Inr s) \<Longrightarrow> st_reach s"
  by (rule st_trace_reach [OF st_init]) (simp_all add: streaming_new_def)

theorem streaming_close_loses_write_witness:
  "\<exists>s s1. st_trace open_stream (st_start streaming_new) = Some (Inr s) \<and> st_step (E_user U_finish) s = Some (Inr s1)
     \<and> st_step (E_write True) s1 = Some (Inl (Undefined_behaviour ''pop of an empty queue''))"
proof -
  obtain s s1 where s: "st_trace open_stream (st_start streaming_new) = Some (Inr s)" "\<not> sy_hook s" "ss_connected (sy_ctx s)"
    "\<not> ss_reads_done (sy_ctx s)" "0 < sy_writes s" "st_step (E_user U_finish) s = Some (Inr s1)"
    using some_okD [OF open_stream_ok] by (auto dest!: some_okD)
  have "patient_trace open_stream (st_start streaming_new)" by code_simp
  then have "st_reach s" using s(1) by (rule reach_new)
  from streaming_close_loses_write [OF this s(2-4) _ s(6), of "[]" s1] s show ?thesis by auto
qed

text \<open>Closing a stream whose finish is blocked.\<close>

lemma closed_shut:
  assumes "live s" and "\<not> sy_queued s" and "op = U_finish \<or> op = U_cancel" and "ss_connected (sy_ctx s)"
    and "ss_block_finish (sy_ctx s)" and "\<not> ss_finishing (sy_ctx s)" and "st_step (E_user op) s = Some (Inr s')"
  shows "sealed shut {C_finish} s' \<and> sy_finishes s' = 0 \<and> sy_finished s' = [] \<and> \<not> sy_ended s'"
proof -
  from assms(3,4,7) obtain c' calls where c: "close_stream (op = U_finish) (sy_ctx s) = (c', calls)"
    and s': "s' = s\<lparr>sy_ctx := c'\<lparr>ss_connected := False\<rparr>, sy_todo := sy_todo s @ [calls]\<rparr>" by (rule closed_step)
  let ?c = "(sy_ctx s)\<lparr>ss_writes_done := True, ss_status := Some (op = U_finish)\<rparr>"
  let ?d = "if \<not> ss_reads_done ?c then ?c\<lparr>ss_response_queue := []\<rparr> else ?c"
  have ev: "st_evaluate ?d = (c', calls)" using c by (simp add: close_stream_def Let_def)
  note f = evaluate_frame [OF ev] and D = tags_okD(5,6) [OF liveD(1) [OF assms(1)]]
  have fin: "sy_finished s = []" "due C_finish (sy_todo s) = 0" using D(1) assms(6) by simp_all
  then have "C_finish \<notin> set (concat (sy_todo s))" unfolding due_def by (simp add: count_list_0_iff)
  then have "\<forall>t \<in> set (sy_todo s). set t \<inter> {C_finish} = {}" by auto
  then show ?thesis using f no_init [OF assms(1)] assms(2,5,6) fin D(2)
    by (simp add: s' sealed_def shut_def split: if_split_asm)
qed

lemma shut_write_done:
  assumes "shut c" and "st_write_done ok c = Inr (c', calls)"
  shows "shut c' \<and> set calls \<inter> {C_finish} = {}"
proof (cases ok)
  case True
  have "shut (c\<lparr>ss_writing := False, ss_response_queue := tl (ss_response_queue c), ss_write_next := St_Invalid\<rparr>)"
    using assms(1) by (simp add: shut_def)
  from shut_evaluate [OF this] show ?thesis using assms(2) True by (auto simp: st_write_done_def Let_def split: if_splits)
next
  case False
  obtain c1 k1 where 1: "close_stream False (c\<lparr>ss_writing := False\<rparr>) = (c1, k1)" by force
  obtain c2 k2 where 2: "st_evaluate c1 = (c2, k2)" by force
  have "shut (c\<lparr>ss_writing := False\<rparr>)" using assms(1) by (simp add: shut_def)
  then have "shut c1 \<and> set k1 \<inter> {C_finish} = {}" using shu.keeps_close [of False] 1 by (force simp: keeps_def)
  then show ?thesis using shut_evaluate [OF _ 2] assms(2) False 1 2 by (auto simp: st_write_done_def)
qed

lemma shut_step:
  assumes s: "sealed shut {C_finish} s" and l: "live s" and st: "st_step ev s = Some (Inr s')" and "ev \<noteq> E_block False"
  shows "sealed shut {C_finish} s'"
proof (cases "(\<forall>ok. ev \<noteq> E_write ok) \<and> (\<forall>b. ev \<noteq> E_block b)")
  case True
  then show ?thesis using shu.sealed_step [OF s st _ _ l] by blast
next
  case False
  then consider ok where "ev = E_write ok" | "ev = E_block True" using assms(4) by (metis (full_types))
  then show ?thesis
  proof cases
    case 1
    let ?s = "s\<lparr>sy_writes := sy_writes s - 1\<rparr>"
    have "ss_write_next (sy_ctx s) = St_WriteDone" "0 < sy_writes s"
      using st 1 tags_completed(4) [OF liveD(1) [OF l]] by (auto simp: st_step_def split: if_splits)
    then obtain c' calls where "st_write_done ok (sy_ctx s) = Inr (c', calls)" "s' = spawn (c', calls) ?s"
      using st 1 by (cases "st_write_done ok (sy_ctx s)") (auto simp: st_step_def st_sub_done_def)
    then show ?thesis using s shut_write_done [of "sy_ctx s" ok] by (auto simp: sealed_def spawn_def)
  next
    case 2
    then show ?thesis using s st by (auto simp: st_step_def sealed_def shut_def spawn_def st_block_finish_def)
  qed
qed

lemma shut_posted:
  assumes s: "sealed shut {C_finish} s" and "live s" and st: "st_step ev s = Some (Inr s')" and "sy_finishes s = 0"
  shows "sy_finishes s' = 0" "sy_finished s' = sy_finished s" "sy_ended s' = sy_ended s"
proof -
  have "sy_finishes s' = 0 \<and> sy_finished s' = sy_finished s \<and> sy_ended s' = sy_ended s"
  proof (cases ev)
    case (E_start ok)
    then show ?thesis using s st by (simp add: st_step_def sealed_def)
  next
    case (E_read q)
    then show ?thesis using st assms(4) by (auto simp: st_step_def store_read_def dest: sub_done_posted split: if_splits)
  next
    case (E_call i)
    then have "i < length (sy_todo s)" "sy_todo s ! i \<noteq> []"
      and c: "st_make_call i (hd (sy_todo s ! i)) (s\<lparr>sy_todo := (sy_todo s)[i := tl (sy_todo s ! i)]\<rparr>) = Inr s'"
      using st by (auto simp: st_step_def split: if_splits)
    then have "hd (sy_todo s ! i) \<noteq> C_finish" using shu.sealed_call [OF s, of i s'] by blast
    then show ?thesis using call_posted [OF c] assms(4) by simp
  qed (use st assms(4) in \<open>auto simp: st_step_def dest: sub_done_posted split: if_splits\<close>)
  then show "sy_finishes s' = 0" "sy_finished s' = sy_finished s" "sy_ended s' = sy_ended s" by blast+
qed

lemma shut_trace:
  assumes "st_trace evs s = Some (Inr s')" and "sealed shut {C_finish} s" and "live s" and "\<not> sy_hook s"
    and "sy_finishes s = 0" and "E_block False \<notin> set evs"
  shows "sy_finishes s' = 0 \<and> sy_finished s' = sy_finished s \<and> sy_ended s' = sy_ended s"
  using assms
proof (induction evs arbitrary: s)
  case (Cons ev evs)
  then obtain s1 where s1: "st_step ev s = Some (Inr s1)" "st_trace evs s1 = Some (Inr s')"
    by (auto split: option.splits sum.splits)
  have nq: "\<not> sy_queued s" using Cons.prems(2) by (simp add: sealed_def)
  note l = live_trace_step [OF Cons.prems(3) nq Cons.prems(4) s1(1)]
  have "ev \<noteq> E_block False" using Cons.prems(6) by auto
  note k = shut_step [OF Cons.prems(2,3) s1(1) this] and p = shut_posted [OF Cons.prems(2,3) s1(1) Cons.prems(5)]
  show ?case using Cons.IH [OF s1(2) k l(1,3) p(1)] Cons.prems(6) p by simp
qed simp

text \<open>C31. A user who blocks the finish of a stream and then closes it can not undo the block, since \<open>FinishStream\<close> and \<open>CancelStream\<close>
  cut the stream off. Whatever follows, calls of \<open>UnblockFinish\<close> on the stream and the release of its last copy
  included, the stream is never finished and its context never handed back, unless the derived class calls the
  protected \<open>UnblockFinish\<close> of the life cycle itself.\<close>

theorem streaming_blocked_finish_hangs:
  assumes "st_reach s" and "\<not> sy_hook s" and "ss_connected (sy_ctx s)" and "ss_block_finish (sy_ctx s)" and "\<not> ss_finishing (sy_ctx s)"
    and "op = U_finish \<or> op = U_cancel" and "st_step (E_user op) s = Some (Inr s1)"
    and "st_trace evs s1 = Some (Inr s2)" and "E_block False \<notin> set evs"
  shows "sy_finished s2 = [] \<and> sy_finishes s2 = 0 \<and> \<not> sy_ended s2"
proof -
  note l = reach_live [OF assms(1,2,7)]
  note d = closed_shut [OF l assms(6,3,4,5,7)]
  show ?thesis using shut_trace [OF assms(8) _ live_trace_step(1,3) [OF l assms(2,7)] _ assms(9)] d by simp
qed

definition blocked_stream :: "(nat, nat) st_event list" where
  "blocked_stream = [E_start True, E_hook_end, E_call 0, E_read 1, E_call 1, E_call 1, E_call 1, E_user U_block, E_read_end, E_call 3, E_call 3]"

definition release_all :: "(nat, nat) st_event list" where
  "release_all = [E_user U_unblock, E_user U_release, E_user U_release, E_call 7]"

lemma blocked_stream_ok:
  "case st_trace blocked_stream (st_start streaming_new) of
     Some (Inr s) \<Rightarrow> \<not> sy_hook s \<and> ss_connected (sy_ctx s) \<and> ss_block_finish (sy_ctx s) \<and> \<not> ss_finishing (sy_ctx s)
       \<and> (case st_step (E_user U_finish) s of
            Some (Inr s1) \<Rightarrow> (case st_trace release_all s1 of Some (Inr s2) \<Rightarrow> expired (sy_ctx s2) | _ \<Rightarrow> False) | _ \<Rightarrow> False)
   | _ \<Rightarrow> False"
  by code_simp

theorem streaming_blocked_finish_hangs_witness:
  "\<exists>s s1 s2. st_trace blocked_stream (st_start streaming_new) = Some (Inr s) \<and> st_step (E_user U_finish) s = Some (Inr s1)
     \<and> st_trace release_all s1 = Some (Inr s2) \<and> expired (sy_ctx s2) \<and> sy_finished s2 = [] \<and> \<not> sy_ended s2"
proof -
  obtain s s1 s2 where s: "st_trace blocked_stream (st_start streaming_new) = Some (Inr s)" "\<not> sy_hook s" "ss_connected (sy_ctx s)"
    "ss_block_finish (sy_ctx s)" "\<not> ss_finishing (sy_ctx s)" "st_step (E_user U_finish) s = Some (Inr s1)"
    "st_trace release_all s1 = Some (Inr s2)" "expired (sy_ctx s2)"
    using some_okD [OF blocked_stream_ok] by (auto dest!: some_okD)
  have "patient_trace blocked_stream (st_start streaming_new)" by code_simp
  then have "st_reach s" using s(1) by (rule reach_new)
  moreover have "E_block False \<notin> set release_all" by (simp add: release_all_def)
  ultimately show ?thesis using streaming_blocked_finish_hangs [OF _ s(2-5) _ s(6,7)] s by blast
qed

text \<open>A response that is written while the stream is being initialized makes the progress engine hand over a request that was
  never received, and then read into an empty queue.\<close>

lemma initial_write_undefined:
  "outcome (st_trace [E_start True, E_user (U_write (10 :: nat)), E_call 0, E_call 0, E_call 0] (st_start streaming_new :: (nat, nat) st_sys))
     = Some (Undefined_behaviour ''back of an empty queue'')"
  by code_simp

text \<open>After the client has ended its half, a response whose writing fails is written again and again.\<close>

lemma failed_write_repeated:
  "(case st_trace [E_start True, E_hook_end, E_call 0, E_read 1, E_call 1, E_call 1, E_call 1, E_read_end, E_user (U_write 10), E_call 3,
        E_write False, E_call 4, E_write False, E_call 5] (st_start streaming_new :: (nat, nat) st_sys) of
      Some (Inr s) \<Rightarrow> sy_written s = [10, 10, 10] | _ \<Rightarrow> False)"
  by code_simp

end
