(* ===== verification/Batching.thy ===== *)
theory Batching
  imports Rpc "HOL-Library.Sublist"
begin

section \<open>The batching life cycle\<close>

text \<open>
  \<^verbatim>\<open>tools/nvrpc/include/nvrpc/life_cycle_batching.h\<close>: a stream whose requests are all read before they are executed together,
  and whose responses are then written one after the other. There is one tag, so that never more than one operation is
  under way. There is no mutex: a handler leaves a list of calls, which its thread makes one by one; \<open>B_advance\<close> is the
  increment of the iterator that follows the posting of a write.
\<close>

datatype batch_fn = Bt_RequestDone | Bt_ReadDone | Bt_WriteDone | Bt_FinishedDone

datatype ('q, 'r) batch_call =
    B_queue
  | B_received "'q option"
  | B_read
  | B_execute "'q option list"
  | B_write 'r
  | B_advance
  | B_write_and_finish 'r
  | B_finish bool

text \<open>The iterator is an index into the responses; a request is \<open>None\<close> until it has been read.\<close>

record ('q, 'r) batching =
  bt_next_state :: "batch_fn option"
  bt_requests :: "'q option list"
  bt_responses :: "'r list"
  bt_iterator :: nat

definition batching_new :: "('q, 'r) batching" where
  "batching_new = \<lparr>bt_next_state = None, bt_requests = [], bt_responses = [], bt_iterator = 0\<rparr>"

definition batching_reset :: "('q, 'r) batching \<Rightarrow> ('q, 'r) batching \<times> ('q, 'r) batch_call list" where
  "batching_reset s = (s\<lparr>bt_requests := [], bt_responses := [], bt_next_state := Some Bt_RequestDone\<rparr>, [B_queue])"

definition batch_request_done :: "bool \<Rightarrow> ('q, 'r) batching \<Rightarrow> ('q, 'r) batching \<times> ('q, 'r) batch_call list \<times> bool" where
  "batch_request_done ok s =
     (if \<not> ok then (s, [], False)
      else (s\<lparr>bt_requests := bt_requests s @ [None], bt_next_state := Some Bt_ReadDone\<rparr>, [B_read], True))"

definition batch_read_done :: "bool \<Rightarrow> ('q, 'r) batching \<Rightarrow> (('q, 'r) batching \<times> ('q, 'r) batch_call list \<times> bool) result" where
  "batch_read_done ok s =
     (if bt_requests s = [] then Inl (Undefined_behaviour ''back of an empty vector'')
      else if ok
      then Inr (s\<lparr>bt_requests := bt_requests s @ [None], bt_next_state := Some Bt_ReadDone\<rparr>, [B_received (last (bt_requests s)), B_read], True)
      else (let requests = butlast (bt_requests s) in Inr (s\<lparr>bt_requests := requests\<rparr>, [B_execute requests], True)))"

definition batch_write_done :: "bool \<Rightarrow> ('q, 'r) batching \<Rightarrow> ('q, 'r) batching \<times> ('q, 'r) batch_call list \<times> bool" where
  "batch_write_done ok s =
     (if \<not> ok then (s, [], False)
      else if bt_iterator s < length (bt_responses s)
      then (let r = bt_responses s ! bt_iterator s
            in if bt_iterator s + 1 < length (bt_responses s)
               then (s\<lparr>bt_next_state := Some Bt_WriteDone\<rparr>, [B_write r, B_advance], True)
               else (s\<lparr>bt_next_state := Some Bt_FinishedDone\<rparr>, [B_write_and_finish r], True))
      else (s\<lparr>bt_next_state := Some Bt_FinishedDone\<rparr>, [B_finish True], True))"

definition batch_finished_done :: "bool \<Rightarrow> ('q, 'r) batching \<Rightarrow> ('q, 'r) batching \<times> ('q, 'r) batch_call list \<times> bool" where
  "batch_finished_done ok s = (s, [], False)"

definition batching_run :: "(('q, 'r) batching, ('q, 'r) batch_call) run_state" where
  "batching_run tag ok s =
     (case bt_next_state s of
        None \<Rightarrow> Inl (Undefined_behaviour ''m_NextState'')
      | Some Bt_RequestDone \<Rightarrow> Inr (batch_request_done ok s)
      | Some Bt_ReadDone \<Rightarrow> batch_read_done ok s
      | Some Bt_WriteDone \<Rightarrow> Inr (batch_write_done ok s)
      | Some Bt_FinishedDone \<Rightarrow> Inr (batch_finished_done ok s))"

definition batch_finish_response :: "('q, 'r) batching \<Rightarrow> ('q, 'r) batching \<times> ('q, 'r) batch_call list" where
  "batch_finish_response s = (case batch_write_done True (s\<lparr>bt_iterator := 0\<rparr>) of (s, calls, _) \<Rightarrow> (s, calls))"

definition batch_cancel_response :: "('q, 'r) batching \<Rightarrow> ('q, 'r) batching \<times> ('q, 'r) batch_call list" where
  "batch_cancel_response s = (s\<lparr>bt_next_state := Some Bt_FinishedDone\<rparr>, [B_finish False])"

interpretation batch: rpc_context batching_run batching_reset "\<lambda>s. bt_next_state s \<noteq> None"
  by unfold_locales
    (auto simp: batching_run_def batch_request_done_def batch_read_done_def batch_write_done_def batch_finished_done_def batching_reset_def
      Let_def split: option.splits batch_fn.splits if_splits)

text \<open>\<open>LifeCycleBatchingNew\<close> does the same on top of the streaming life cycle. Nothing empties its requests, so that a context that
  is used again executes those of the earlier streams too.\<close>

definition batch_new_received :: "'q \<Rightarrow> 'q list \<Rightarrow> 'q list" where
  "batch_new_received request requests = requests @ [request]"

definition batch_new_requests_finished :: "'q list \<Rightarrow> 'q list \<times> 'q list" where
  "batch_new_requests_finished requests = (requests, requests)"

lemma batch_new_keeps_requests:
  "fst (batch_new_requests_finished (fold batch_new_received qs (snd (batch_new_requests_finished (fold batch_new_received ps []))))) = ps @ qs"
proof -
  have f: "fold batch_new_received qs rs = rs @ qs" for qs rs :: "'a list"
    by (induction qs arbitrary: rs) (simp_all add: batch_new_received_def)
  show ?thesis by (simp add: batch_new_requests_finished_def f)
qed

subsection \<open>A context between gRPC and the user\<close>

text \<open>Two threads: the worker that polls the queue of the context, and a thread of the user. The worker handles a completion only
  when it has made all calls of the last one and has returned from \<open>ExecuteRPC\<close> (\<open>by_inside\<close>), for it is the only thread
  that polls the queue. The user answers from inside \<open>ExecuteRPC\<close>, on the worker, or later on the other thread.\<close>

datatype batch_op = Op_queue | Op_read | Op_write | Op_finish

datatype batch_thread = On_worker | On_other

record ('q, 'r) batch_sys =
  by_ctx :: "('q, 'r) batching"
  by_worker :: "('q, 'r) batch_call list"
  by_other :: "('q, 'r) batch_call list"
  by_inside :: bool
  by_op :: "batch_op option"
  by_user :: bool
  by_ended :: bool
  by_received :: "'q list"
  by_executed :: "'q option list list"
  by_written :: "'r list"
  by_finished :: "bool list"

definition batch_start :: "('q, 'r) batching \<Rightarrow> ('q, 'r) batch_sys" where
  "batch_start c = (case batching_reset c of (c, calls) \<Rightarrow>
     \<lparr>by_ctx = c, by_worker = calls, by_other = [], by_inside = False, by_op = None, by_user = False, by_ended = False, by_received = [],
      by_executed = [], by_written = [], by_finished = []\<rparr>)"

definition batch_make_call :: "('q, 'r) batch_call \<Rightarrow> ('q, 'r) batch_sys \<Rightarrow> ('q, 'r) batch_sys result" where
  "batch_make_call call s =
     (case call of
        B_queue \<Rightarrow> Inr (s\<lparr>by_op := Some Op_queue\<rparr>)
      | B_received q \<Rightarrow> Inr s
      | B_read \<Rightarrow> Inr (s\<lparr>by_op := Some Op_read\<rparr>)
      | B_execute qs \<Rightarrow> Inr (s\<lparr>by_user := True, by_inside := True, by_executed := by_executed s @ [qs]\<rparr>)
      | B_write r \<Rightarrow> Inr (s\<lparr>by_op := Some Op_write, by_written := by_written s @ [r]\<rparr>)
      | B_advance \<Rightarrow>
          if bt_iterator (by_ctx s) < length (bt_responses (by_ctx s))
          then Inr (s\<lparr>by_ctx := (by_ctx s)\<lparr>bt_iterator := bt_iterator (by_ctx s) + 1\<rparr>\<rparr>)
          else Inl (Undefined_behaviour ''increment of end()'')
      | B_write_and_finish r \<Rightarrow>
          Inr (s\<lparr>by_op := Some Op_finish, by_written := by_written s @ [r], by_finished := by_finished s @ [True]\<rparr>)
      | B_finish ok \<Rightarrow> Inr (s\<lparr>by_op := Some Op_finish, by_finished := by_finished s @ [ok]\<rparr>))"

definition batch_complete :: "bool \<Rightarrow> ('q, 'r) batch_sys \<Rightarrow> ('q, 'r) batch_sys result" where
  "batch_complete ok s =
     rbind (batching_run Tag_main ok (by_ctx s)) (\<lambda>(c, calls, continue).
       Inr (s\<lparr>by_ctx := c, by_op := None, by_worker := calls, by_ended := \<not> continue\<rparr>))"

definition batch_ready :: "batch_op \<Rightarrow> ('q, 'r) batch_sys \<Rightarrow> bool" where
  "batch_ready op s \<longleftrightarrow> by_op s = Some op \<and> by_worker s = [] \<and> \<not> by_inside s"

definition may_answer :: "batch_thread \<Rightarrow> ('q, 'r) batch_sys \<Rightarrow> bool" where
  "may_answer t s \<longleftrightarrow> by_user s \<and> (case t of On_worker \<Rightarrow> by_inside s | On_other \<Rightarrow> True)"

definition batch_answer ::
    "batch_thread \<Rightarrow> ('q, 'r) batching \<times> ('q, 'r) batch_call list \<Rightarrow> ('q, 'r) batch_sys \<Rightarrow> ('q, 'r) batch_sys" where
  "batch_answer t = (\<lambda>(c, calls) s.
     (case t of On_worker \<Rightarrow> s\<lparr>by_user := False, by_ctx := c, by_worker := calls\<rparr> | On_other \<Rightarrow> s\<lparr>by_user := False, by_ctx := c, by_other := calls\<rparr>))"

datatype ('q, 'r) batch_event =
    Z_start bool
  | Z_read 'q
  | Z_read_end
  | Z_write bool
  | Z_finish
  | Z_call batch_thread
  | Z_return
  | Z_answer batch_thread "'r list"
  | Z_cancel batch_thread

text \<open>The user answers by filling in the responses and calling \<open>FinishResponse\<close>, or calls \<open>CancelResponse\<close>.\<close>

definition batch_step :: "('q, 'r) batch_event \<Rightarrow> ('q, 'r) batch_sys \<Rightarrow> ('q, 'r) batch_sys result option" where
  "batch_step ev s =
     (case ev of
        Z_start ok \<Rightarrow> if batch_ready Op_queue s then Some (batch_complete ok s) else None
      | Z_read q \<Rightarrow>
          if batch_ready Op_read s
          then Some (batch_complete True (s\<lparr>by_received := by_received s @ [q],
                 by_ctx := (by_ctx s)\<lparr>bt_requests := butlast (bt_requests (by_ctx s)) @ [Some q]\<rparr>\<rparr>))
          else None
      | Z_read_end \<Rightarrow> if batch_ready Op_read s then Some (batch_complete False s) else None
      | Z_write ok \<Rightarrow> if batch_ready Op_write s then Some (batch_complete ok s) else None
      | Z_finish \<Rightarrow> if batch_ready Op_finish s then Some (batch_complete True s) else None
      | Z_call On_worker \<Rightarrow> (case by_worker s of [] \<Rightarrow> None | c # cs \<Rightarrow> Some (batch_make_call c (s\<lparr>by_worker := cs\<rparr>)))
      | Z_call On_other \<Rightarrow> (case by_other s of [] \<Rightarrow> None | c # cs \<Rightarrow> Some (batch_make_call c (s\<lparr>by_other := cs\<rparr>)))
      | Z_return \<Rightarrow> if by_inside s \<and> by_worker s = [] then Some (Inr (s\<lparr>by_inside := False\<rparr>)) else None
      | Z_answer t rs \<Rightarrow>
          if may_answer t s then Some (Inr (batch_answer t (batch_finish_response ((by_ctx s)\<lparr>bt_responses := rs\<rparr>)) s)) else None
      | Z_cancel t \<Rightarrow> if may_answer t s then Some (Inr (batch_answer t (batch_cancel_response (by_ctx s)) s)) else None)"

text \<open>Runs in which \<open>FinishResponse\<close> is called inside \<open>ExecuteRPC\<close>, or with at most one response.\<close>

fun serial :: "('q, 'r) batch_event \<Rightarrow> bool" where
  "serial (Z_answer On_other rs) \<longleftrightarrow> length rs \<le> 1"
| "serial _ \<longleftrightarrow> True"

inductive batch_reach :: "('q, 'r) batch_sys \<Rightarrow> bool" where
  batch_init: "batch_reach (batch_start c)"
| batch_next: "batch_reach s \<Longrightarrow> serial ev \<Longrightarrow> batch_step ev s = Some (Inr s') \<Longrightarrow> batch_reach s'"

subsection \<open>All in, then all out\<close>

definition unexecuted :: "('q, 'r) batch_sys \<Rightarrow> bool" where
  "unexecuted s \<longleftrightarrow> by_executed s = [] \<and> by_written s = [] \<and> by_finished s = [] \<and> \<not> by_user s \<and> \<not> by_inside s \<and> \<not> by_ended s \<and> by_other s = []"

definition executed :: "('q, 'r) batch_sys \<Rightarrow> bool" where
  "executed s \<longleftrightarrow> by_executed s = [map Some (by_received s)] \<and> prefix (by_written s) (bt_responses (by_ctx s)) \<and> \<not> by_ended s"

definition at_queue :: "('q, 'r) batch_sys \<Rightarrow> bool" where
  "at_queue s \<longleftrightarrow> unexecuted s \<and> bt_next_state (by_ctx s) = Some Bt_RequestDone \<and> bt_requests (by_ctx s) = [] \<and> by_received s = []
     \<and> (by_op s = None \<and> by_worker s = [B_queue] \<or> by_op s = Some Op_queue \<and> by_worker s = [])"

definition at_read :: "('q, 'r) batch_sys \<Rightarrow> bool" where
  "at_read s \<longleftrightarrow> unexecuted s \<and> bt_next_state (by_ctx s) = Some Bt_ReadDone \<and> bt_requests (by_ctx s) = map Some (by_received s) @ [None]
     \<and> (by_op s = None \<and> (by_worker s = [B_read] \<or> (\<exists>q. by_worker s = [B_received q, B_read])) \<or> by_op s = Some Op_read \<and> by_worker s = [])"

definition at_execute :: "('q, 'r) batch_sys \<Rightarrow> bool" where
  "at_execute s \<longleftrightarrow> unexecuted s \<and> by_op s = None \<and> by_worker s = [B_execute (map Some (by_received s))]"

definition at_user :: "('q, 'r) batch_sys \<Rightarrow> bool" where
  "at_user s \<longleftrightarrow> executed s \<and> by_user s \<and> by_op s = None \<and> by_worker s = [] \<and> by_other s = [] \<and> by_written s = [] \<and> by_finished s = []"

definition at_write :: "('q, 'r) batch_sys \<Rightarrow> bool" where
  "at_write s \<longleftrightarrow> executed s \<and> \<not> by_user s \<and> by_other s = [] \<and> by_finished s = [] \<and> bt_next_state (by_ctx s) = Some Bt_WriteDone
     \<and> (let i = bt_iterator (by_ctx s); rs = bt_responses (by_ctx s)
        in i < length rs
           \<and> (by_op s = None \<and> by_worker s = [B_write (rs ! i), B_advance] \<and> Suc i < length rs \<and> by_written s = take i rs
              \<or> by_op s = Some Op_write \<and> by_worker s = [B_advance] \<and> Suc i < length rs \<and> by_written s = take (Suc i) rs
              \<or> by_op s = Some Op_write \<and> by_worker s = [] \<and> by_written s = take i rs))"

definition closing :: "('q, 'r) batch_call \<Rightarrow> ('q, 'r) batch_sys \<Rightarrow> bool" where
  "closing c s \<longleftrightarrow> c = B_finish True \<and> by_written s = bt_responses (by_ctx s) \<or> c = B_finish False \<and> by_written s = []
     \<or> (\<exists>r. c = B_write_and_finish r \<and> bt_responses (by_ctx s) = by_written s @ [r])"

definition at_finish :: "('q, 'r) batch_sys \<Rightarrow> bool" where
  "at_finish s \<longleftrightarrow> executed s \<and> \<not> by_user s \<and> bt_next_state (by_ctx s) = Some Bt_FinishedDone
     \<and> (by_op s = None \<and> by_finished s = [] \<and> (\<exists>c. closing c s \<and> (by_worker s = [c] \<and> by_other s = [] \<or> by_worker s = [] \<and> by_other s = [c]))
        \<or> by_op s = Some Op_finish \<and> by_worker s = [] \<and> by_other s = []
          \<and> (by_finished s = [True] \<and> by_written s = bt_responses (by_ctx s) \<or> by_finished s = [False] \<and> by_written s = []))"

definition at_end :: "('q, 'r) batch_sys \<Rightarrow> bool" where
  "at_end s \<longleftrightarrow> by_ended s \<and> \<not> by_user s \<and> \<not> by_inside s \<and> by_op s = None \<and> by_worker s = [] \<and> by_other s = []
     \<and> (by_executed s = [] \<and> by_written s = [] \<and> by_finished s = []
        \<or> by_executed s = [map Some (by_received s)] \<and> prefix (by_written s) (bt_responses (by_ctx s))
          \<and> (by_finished s = [] \<or> by_finished s = [True] \<and> by_written s = bt_responses (by_ctx s) \<or> by_finished s = [False] \<and> by_written s = []))"

definition batch_ok :: "('q, 'r) batch_sys \<Rightarrow> bool" where
  "batch_ok s \<longleftrightarrow> at_queue s \<or> at_read s \<or> at_execute s \<or> at_user s \<or> at_write s \<or> at_finish s \<or> at_end s"

definition fine_step :: "('q, 'r) batch_sys result option \<Rightarrow> bool" where
  "fine_step r \<longleftrightarrow> (case r of None \<Rightarrow> True | Some (Inl e) \<Rightarrow> False | Some (Inr s') \<Rightarrow> batch_ok s')"

lemmas batch_defs = batch_complete_def batching_run_def batch_request_done_def batch_read_done_def batch_write_done_def batch_finished_done_def

lemmas batch_step_defs = fine_step_def batch_step_def batch_ready_def may_answer_def batch_make_call_def

lemma batch_start_ok: "batch_ok (batch_start c)"
  by (simp add: batch_start_def batching_reset_def batch_ok_def at_queue_def unexecuted_def)

lemma batch_queue_fine:
  assumes "at_queue s"
  shows "fine_step (batch_step ev s)"
proof -
  have u: "unexecuted s" "bt_next_state (by_ctx s) = Some Bt_RequestDone" "bt_requests (by_ctx s) = []" "by_received s = []"
    using assms by (simp_all add: at_queue_def)
  consider "by_op s = None" "by_worker s = [B_queue]" | "by_op s = Some Op_queue" "by_worker s = []"
    using assms by (auto simp: at_queue_def)
  then show ?thesis
  proof cases
    case 1
    then have "batch_ok (s\<lparr>by_worker := [], by_op := Some Op_queue\<rparr>)" using u by (simp add: batch_ok_def at_queue_def unexecuted_def)
    then show ?thesis using 1 u by (auto simp: batch_step_defs unexecuted_def split: batch_event.splits batch_thread.splits)
  next
    case 2
    have "batch_ok (s\<lparr>by_ctx := (by_ctx s)\<lparr>bt_requests := [None], bt_next_state := Some Bt_ReadDone\<rparr>, by_op := None, by_worker := [B_read], by_ended := False\<rparr>)"
      "batch_ok (s\<lparr>by_op := None, by_worker := [], by_ended := True\<rparr>)"
      using u 2 by (simp_all add: batch_ok_def at_read_def at_end_def unexecuted_def)
    then show ?thesis using 2 u
      by (auto simp: batch_step_defs batch_defs unexecuted_def split: batch_event.splits batch_thread.splits)
  qed
qed

lemma batch_read_fine:
  assumes "at_read s"
  shows "fine_step (batch_step ev s)"
proof -
  have u: "unexecuted s" "bt_next_state (by_ctx s) = Some Bt_ReadDone" "bt_requests (by_ctx s) = map Some (by_received s) @ [None]"
    using assms by (simp_all add: at_read_def)
  consider q where "by_op s = None" "by_worker s = [B_received q, B_read]" | "by_op s = None" "by_worker s = [B_read]"
    | "by_op s = Some Op_read" "by_worker s = []"
    using assms by (auto simp: at_read_def)
  then show ?thesis
  proof cases
    case 1
    then have "batch_ok (s\<lparr>by_worker := [B_read]\<rparr>)" using u by (simp add: batch_ok_def at_read_def unexecuted_def)
    then show ?thesis using 1 u by (auto simp: batch_step_defs unexecuted_def split: batch_event.splits batch_thread.splits)
  next
    case 2
    then have "batch_ok (s\<lparr>by_worker := [], by_op := Some Op_read\<rparr>)" using u by (simp add: batch_ok_def at_read_def unexecuted_def)
    then show ?thesis using 2 u by (auto simp: batch_step_defs unexecuted_def split: batch_event.splits batch_thread.splits)
  next
    case 3
    have "batch_ok (s\<lparr>by_received := by_received s @ [q], by_ctx := (by_ctx s)\<lparr>bt_requests := map Some (by_received s) @ [Some q, None], bt_next_state := Some Bt_ReadDone\<rparr>,
        by_op := None, by_worker := [B_received (Some q), B_read], by_ended := False\<rparr>)" for q
      using u 3 by (simp add: batch_ok_def at_read_def unexecuted_def)
    moreover have "batch_ok (s\<lparr>by_ctx := (by_ctx s)\<lparr>bt_requests := map Some (by_received s)\<rparr>, by_op := None,
        by_worker := [B_execute (map Some (by_received s))], by_ended := False\<rparr>)"
      using u 3 by (simp add: batch_ok_def at_execute_def unexecuted_def)
    ultimately show ?thesis using 3 u
      by (auto simp: batch_step_defs batch_defs unexecuted_def Let_def split: batch_event.splits batch_thread.splits)
  qed
qed

lemma batch_execute_fine:
  assumes "at_execute s"
  shows "fine_step (batch_step ev s)"
proof -
  have "at_user (s\<lparr>by_worker := [], by_user := True, by_inside := True, by_executed := [map Some (by_received s)]\<rparr>)"
    using assms by (simp add: at_execute_def at_user_def unexecuted_def executed_def)
  then show ?thesis using assms
    by (auto simp: batch_step_defs at_execute_def unexecuted_def batch_ok_def split: batch_event.splits batch_thread.splits)
qed

text \<open>What \<open>StateWriteDone\<close> decides at position \<open>i\<close> of the responses.\<close>

lemma write_decision:
  assumes "executed s" and "\<not> by_user s" and "by_finished s = []" and "by_op s = None" and "bt_iterator (by_ctx s) \<le> length (bt_responses (by_ctx s))"
    and "by_written s = take (bt_iterator (by_ctx s)) (bt_responses (by_ctx s))" and "batch_write_done True (by_ctx s) = (c, calls, continue)"
    and "by_worker s = []" and "by_other s = []"
  shows "continue" "batch_ok (s\<lparr>by_ctx := c, by_worker := calls\<rparr>)" "length (bt_responses (by_ctx s)) \<le> 1 \<Longrightarrow> batch_ok (s\<lparr>by_ctx := c, by_other := calls\<rparr>)"
proof -
  let ?i = "bt_iterator (by_ctx s)" and ?rs = "bt_responses (by_ctx s)"
  consider "Suc ?i < length ?rs" | "Suc ?i = length ?rs" | "?i = length ?rs" using assms(5) by linarith
  then have "continue \<and> batch_ok (s\<lparr>by_ctx := c, by_worker := calls\<rparr>) \<and> (length ?rs \<le> 1 \<longrightarrow> batch_ok (s\<lparr>by_ctx := c, by_other := calls\<rparr>))"
  proof cases
    case 1
    then have "c = (by_ctx s)\<lparr>bt_next_state := Some Bt_WriteDone\<rparr>" "calls = [B_write (?rs ! ?i), B_advance]" "continue"
      using assms(7) by (auto simp: batch_write_done_def Let_def)
    then show ?thesis using assms 1 by (simp add: batch_ok_def at_write_def executed_def)
  next
    case 2
    then have c: "c = (by_ctx s)\<lparr>bt_next_state := Some Bt_FinishedDone\<rparr>" "calls = [B_write_and_finish (?rs ! ?i)]" "continue"
      using assms(7) by (auto simp: batch_write_done_def Let_def)
    have "?rs = take ?i ?rs @ [?rs ! ?i]" using 2 take_Suc_conv_app_nth [of ?i ?rs] by simp
    then show ?thesis using assms c by (simp add: batch_ok_def at_finish_def executed_def closing_def)
  next
    case 3
    then have c: "c = (by_ctx s)\<lparr>bt_next_state := Some Bt_FinishedDone\<rparr>" "calls = [B_finish True]" "continue"
      using assms(7) by (auto simp: batch_write_done_def Let_def)
    then show ?thesis using assms 3 by (simp add: batch_ok_def at_finish_def executed_def closing_def)
  qed
  then show "continue" "batch_ok (s\<lparr>by_ctx := c, by_worker := calls\<rparr>)" "length ?rs \<le> 1 \<Longrightarrow> batch_ok (s\<lparr>by_ctx := c, by_other := calls\<rparr>)" by blast+
qed

lemma batch_user_fine:
  assumes u: "at_user s" and "serial ev"
  shows "fine_step (batch_step ev s)"
proof -
  have d: "executed s" "by_user s" "by_op s = None" "by_worker s = []" "by_other s = []" "by_written s = []" "by_finished s = []"
    using u by (simp_all add: at_user_def)
  have ret: "batch_ok (s\<lparr>by_inside := False\<rparr>)" using u by (simp add: batch_ok_def at_user_def executed_def)
  have cancel: "batch_ok (batch_answer t (batch_cancel_response (by_ctx s)) s)" for t
    using d by (cases t) (simp_all add: batch_answer_def batch_cancel_response_def batch_ok_def at_finish_def executed_def closing_def)
  have answer: "batch_ok (batch_answer t (batch_finish_response ((by_ctx s)\<lparr>bt_responses := rs\<rparr>)) s)" if "t = On_other \<longrightarrow> length rs \<le> 1" for t rs
  proof -
    let ?c0 = "(by_ctx s)\<lparr>bt_responses := rs, bt_iterator := 0\<rparr>"
    let ?s = "s\<lparr>by_ctx := ?c0, by_user := False\<rparr>"
    obtain c calls continue where w: "batch_write_done True ?c0 = (c, calls, continue)" by (metis prod_cases3)
    note k = write_decision [of ?s c calls continue]
    have "batch_ok (?s\<lparr>by_ctx := c, by_worker := calls\<rparr>)" "length rs \<le> 1 \<Longrightarrow> batch_ok (?s\<lparr>by_ctx := c, by_other := calls\<rparr>)"
      using k(2,3) d w by (simp_all add: executed_def)
    then show ?thesis using w that by (cases t) (simp_all add: batch_answer_def batch_finish_response_def)
  qed
  show ?thesis
  proof (cases ev)
    case (Z_answer t rs)
    then have "t = On_other \<longrightarrow> length rs \<le> 1" using assms(2) by (cases t) simp_all
    then show ?thesis using Z_answer answer [of t rs] by (simp add: fine_step_def batch_step_def)
  next
    case (Z_cancel t)
    then show ?thesis using cancel [of t] by (simp add: fine_step_def batch_step_def)
  qed (use d ret in \<open>auto simp: batch_step_defs split: batch_thread.splits\<close>)
qed

lemma batch_write_fine:
  assumes w: "at_write s"
  shows "fine_step (batch_step ev s)"
proof -
  let ?i = "bt_iterator (by_ctx s)" and ?rs = "bt_responses (by_ctx s)"
  have d: "executed s" "\<not> by_user s" "by_other s = []" "by_finished s = []" "bt_next_state (by_ctx s) = Some Bt_WriteDone" "?i < length ?rs"
    using w by (simp_all add: at_write_def Let_def)
  consider "by_op s = None" "by_worker s = [B_write (?rs ! ?i), B_advance]" "Suc ?i < length ?rs" "by_written s = take ?i ?rs"
    | "by_op s = Some Op_write" "by_worker s = [B_advance]" "Suc ?i < length ?rs" "by_written s = take (Suc ?i) ?rs"
    | "by_op s = Some Op_write" "by_worker s = []" "by_written s = take ?i ?rs"
    using w by (auto simp: at_write_def Let_def)
  then show ?thesis
  proof cases
    case 1
    have "by_written s @ [?rs ! ?i] = take (Suc ?i) ?rs" using 1 take_Suc_conv_app_nth [OF d(6)] by simp
    then have "batch_ok (s\<lparr>by_worker := [B_advance], by_op := Some Op_write, by_written := by_written s @ [?rs ! ?i]\<rparr>)"
      using d 1 by (simp add: batch_ok_def at_write_def executed_def take_is_prefix)
    then show ?thesis using 1 d by (auto simp: batch_step_defs split: batch_event.splits batch_thread.splits)
  next
    case 2
    then have "batch_ok (s\<lparr>by_worker := [], by_ctx := (by_ctx s)\<lparr>bt_iterator := Suc ?i\<rparr>\<rparr>)"
      using d by (simp add: batch_ok_def at_write_def executed_def)
    then show ?thesis using 2 d by (auto simp: batch_step_defs split: batch_event.splits batch_thread.splits)
  next
    case 3
    have ret: "batch_ok (s\<lparr>by_inside := False\<rparr>)" using d 3 by (simp add: batch_ok_def at_write_def executed_def)
    have stop: "batch_ok (s\<lparr>by_op := None, by_worker := [], by_ended := True\<rparr>)" if "\<not> by_inside s"
      using d 3 that by (simp add: batch_ok_def at_end_def executed_def)
    obtain c calls continue where wd: "batch_write_done True (by_ctx s) = (c, calls, continue)" by (metis prod_cases3)
    have "continue" "batch_ok ((s\<lparr>by_op := None\<rparr>)\<lparr>by_ctx := c, by_worker := calls\<rparr>)"
      using write_decision [of "s\<lparr>by_op := None\<rparr>" c calls continue] d 3 wd by (simp_all add: executed_def)
    moreover have "(s\<lparr>by_op := None\<rparr>)\<lparr>by_ctx := c, by_worker := calls\<rparr> = s\<lparr>by_ctx := c, by_op := None, by_worker := calls, by_ended := False\<rparr>"
      using d(1) by (cases s) (simp add: executed_def)
    ultimately have next': "continue" "batch_ok (s\<lparr>by_ctx := c, by_op := None, by_worker := calls, by_ended := False\<rparr>)" by simp_all
    show ?thesis
    proof (cases ev)
      case (Z_write ok)
      then show ?thesis using 3 d stop next' wd
        by (cases ok) (simp_all add: fine_step_def batch_step_def batch_ready_def batch_complete_def batching_run_def batch_write_done_def)
    qed (use 3 d ret in \<open>auto simp: batch_step_defs split: batch_thread.splits\<close>)
  qed
qed

lemma batch_finish_fine:
  assumes f: "at_finish s"
  shows "fine_step (batch_step ev s)"
proof -
  have d: "executed s" "\<not> by_user s" "bt_next_state (by_ctx s) = Some Bt_FinishedDone" using f by (simp_all add: at_finish_def)
  have ret: "batch_ok (s\<lparr>by_inside := False\<rparr>)" using f by (simp add: batch_ok_def at_finish_def executed_def closing_def)
  consider c where "by_op s = None" "by_finished s = []" "closing c s" "by_worker s = [c] \<and> by_other s = [] \<or> by_worker s = [] \<and> by_other s = [c]"
    | "by_op s = Some Op_finish" "by_worker s = []" "by_other s = []"
      "by_finished s = [True] \<and> by_written s = bt_responses (by_ctx s) \<or> by_finished s = [False] \<and> by_written s = []"
    using f by (auto simp: at_finish_def)
  then show ?thesis
  proof cases
    case 1
    have call: "fine_step (Some (batch_make_call c (s\<lparr>by_worker := [], by_other := []\<rparr>)))"
      using 1(1-3) d by (auto simp: closing_def fine_step_def batch_make_call_def batch_ok_def at_finish_def executed_def)
    have one: "fine_step (Some (batch_make_call c (s\<lparr>by_worker := []\<rparr>)))" if "by_other s = []"
      using call that by (cases s) simp
    have two: "fine_step (Some (batch_make_call c (s\<lparr>by_other := []\<rparr>)))" if "by_worker s = []"
      using call that by (cases s) simp
    show ?thesis
    proof (cases ev)
      case (Z_call t)
      then show ?thesis using 1(4) one two by (cases t) (auto simp: batch_step_def fine_step_def)
    qed (use 1(1) d ret in \<open>auto simp: fine_step_def batch_step_def batch_ready_def may_answer_def\<close>)
  next
    case 2
    have "batch_ok (s\<lparr>by_op := None, by_worker := [], by_ended := True\<rparr>)" if "\<not> by_inside s"
      using d 2 that by (auto simp: batch_ok_def at_end_def executed_def)
    then show ?thesis using 2(1-3) d ret
      by (cases ev) (auto simp: batch_step_defs batch_complete_def batching_run_def batch_finished_done_def split: batch_thread.splits)
  qed
qed

lemma batch_end_fine: "at_end s \<Longrightarrow> fine_step (batch_step ev s)"
  by (cases ev) (auto simp: batch_step_defs at_end_def split: batch_thread.splits)

lemma batch_step_fine: "batch_ok s \<Longrightarrow> serial ev \<Longrightarrow> fine_step (batch_step ev s)"
  using batch_queue_fine batch_read_fine batch_execute_fine batch_user_fine batch_write_fine batch_finish_fine batch_end_fine unfolding batch_ok_def by blast

lemma batch_reach_ok: "batch_reach s \<Longrightarrow> batch_ok s"
proof (induction rule: batch_reach.induct)
  case (batch_next s ev s')
  then show ?case using batch_step_fine [of s ev] by (simp add: fine_step_def)
qed (rule batch_start_ok)

text \<open>C19. A batching stream on which \<open>FinishResponse\<close> is called inside \<open>ExecuteRPC\<close>, or from another thread but with at most one
  response, executes its requests together, once, after all of them have been received and in the order of their
  arrival; it writes the responses in their order and finishes with success only when all of them are written, or is
  cancelled before the first. When no call is left to be made, nothing is under way and the user has answered, the
  context has been handed back. No handler fails.\<close>

theorem batching_all_in_all_out:
  assumes "batch_reach s"
  shows "(by_executed s = [] \<or> by_executed s = [map Some (by_received s)])
     \<and> prefix (by_written s) (bt_responses (by_ctx s)) \<and> (by_written s \<noteq> [] \<longrightarrow> by_executed s \<noteq> [])
     \<and> (by_finished s = [] \<or> by_finished s = [True] \<and> by_written s = bt_responses (by_ctx s) \<or> by_finished s = [False] \<and> by_written s = [])
     \<and> (by_op s = None \<and> \<not> by_user s \<and> by_worker s = [] \<and> by_other s = [] \<longrightarrow> by_ended s)
     \<and> (\<forall>ev e. serial ev \<longrightarrow> batch_step ev s \<noteq> Some (Inl e))"
proof -
  have ok: "batch_ok s" by (rule batch_reach_ok [OF assms])
  have "batch_step ev s \<noteq> Some (Inl e)" if "serial ev" for ev e using batch_step_fine [OF ok that] by (auto simp: fine_step_def)
  moreover have "by_executed s = [] \<or> by_executed s = [map Some (by_received s)]"
    using ok unfolding batch_ok_def at_queue_def at_read_def at_execute_def at_user_def at_write_def at_finish_def at_end_def unexecuted_def executed_def
    by blast
  moreover have "prefix (by_written s) (bt_responses (by_ctx s)) \<and> (by_written s \<noteq> [] \<longrightarrow> by_executed s \<noteq> [])"
    using ok unfolding batch_ok_def at_queue_def at_read_def at_execute_def at_user_def at_write_def at_finish_def at_end_def unexecuted_def executed_def
    by (elim disjE conjE) simp_all
  moreover have "by_finished s = [] \<or> by_finished s = [True] \<and> by_written s = bt_responses (by_ctx s) \<or> by_finished s = [False] \<and> by_written s = []"
    using ok unfolding batch_ok_def at_queue_def at_read_def at_execute_def at_user_def at_write_def at_finish_def at_end_def unexecuted_def
    by blast
  moreover have "by_op s = None \<and> \<not> by_user s \<and> by_worker s = [] \<and> by_other s = [] \<longrightarrow> by_ended s"
    using ok unfolding batch_ok_def at_queue_def at_read_def at_execute_def at_user_def at_write_def at_finish_def at_end_def Let_def
    by (elim disjE conjE exE) simp_all
  ultimately show ?thesis by blast
qed

fun batch_trace :: "('q, 'r) batch_event list \<Rightarrow> ('q, 'r) batch_sys \<Rightarrow> ('q, 'r) batch_sys result option" where
  "batch_trace [] s = Some (Inr s)"
| "batch_trace (ev # evs) s = (case batch_step ev s of Some (Inr s) \<Rightarrow> batch_trace evs s | r \<Rightarrow> r)"

lemma batch_trace_reach: "batch_trace evs s = Some (Inr s') \<Longrightarrow> batch_reach s \<Longrightarrow> \<forall>ev \<in> set evs. serial ev \<Longrightarrow> batch_reach s'"
  by (induction evs arbitrary: s) (auto split: option.splits sum.splits intro: batch_next)

definition batch_run_sample :: "(nat, nat) batch_event list" where
  "batch_run_sample = [Z_call On_worker, Z_start True, Z_call On_worker, Z_read 1, Z_call On_worker, Z_call On_worker, Z_read 2, Z_call On_worker,
     Z_call On_worker, Z_read_end, Z_call On_worker, Z_answer On_worker [10, 20, 30], Z_call On_worker, Z_call On_worker, Z_return, Z_write True,
     Z_call On_worker, Z_call On_worker, Z_write True, Z_call On_worker, Z_finish]"

theorem batching_all_in_all_out_witness:
  "\<exists>s. batch_trace batch_run_sample (batch_start batching_new) = Some (Inr s) \<and> by_executed s = [[Some 1, Some 2]]
     \<and> by_written s = [10, 20, 30] \<and> by_written s = bt_responses (by_ctx s) \<and> by_ended s"
proof -
  let ?r = "batch_trace batch_run_sample (batch_start batching_new)"
  have "case ?r of Some (Inr s) \<Rightarrow> by_executed s = [[Some 1, Some 2]] \<and> by_written s = [10, 20, 30] \<and> by_finished s = [True] \<and> by_op s = None
      \<and> by_worker s = [] \<and> by_other s = [] \<and> \<not> by_user s | _ \<Rightarrow> False" by code_simp
  then obtain s where s: "?r = Some (Inr s)" "by_executed s = [[Some 1, Some 2]]" "by_written s = [10, 20, 30]" "by_finished s = [True]"
      "by_op s = None" "by_worker s = []" "by_other s = []" "\<not> by_user s"
    using some_okD by blast
  have "\<forall>ev \<in> set batch_run_sample. serial ev" by (simp add: batch_run_sample_def)
  from batching_all_in_all_out [OF batch_trace_reach [OF s(1) batch_init this]] show ?thesis using s by auto
qed

text \<open>When the user answers on a thread of its own with more than one response, the worker may handle the completion of the first write
  before that thread has advanced the iterator, and write the first response again.\<close>

lemma batching_race:
  assumes "batch_reach s" and "by_user s" and "\<not> by_inside s"
  shows "\<exists>s'. batch_trace [Z_answer On_other (r # r' # rs), Z_call On_other, Z_write True, Z_call On_worker] s = Some (Inr s')
     \<and> by_written s' = [r, r]"
proof -
  have ok: "batch_ok s" by (rule batch_reach_ok [OF assms(1)])
  then have "at_user s" using assms(2)
    by (auto simp: batch_ok_def at_queue_def at_read_def at_execute_def at_write_def at_finish_def at_end_def unexecuted_def)
  then have "by_op s = None" "by_worker s = []" "by_other s = []" "by_written s = []" by (simp_all add: at_user_def)
  then show ?thesis using assms(2,3)
    by (simp add: batch_step_def may_answer_def batch_answer_def batch_finish_response_def batch_write_done_def batch_make_call_def
        batch_ready_def batch_complete_def batching_run_def)
qed

end
