(* ===== verification/Spec2Isabelle.thy ===== *)
theory Spec2Isabelle
  imports Prelude Addresses Names Arena_Resource Service Runner Partitions Executor Operators Codable Scheduler Bidirectional Streaming Batching
begin

text \<open>
  \<^bold>\<open>SRF, a runtime for pipelines of segments: a verification development.\<close>

  SRF runs pipelines of segments of nodes on fibers and threads that are pinned to CPUs. A user registers the
  definition of a pipeline with an \<^emph>\<open>executor\<close>. The executor makes a \<^emph>\<open>manager\<close>, whose \<^emph>\<open>controller\<close> turns updates
  (sets of segment addresses) into \<^emph>\<open>segment instances\<close> of a \<^emph>\<open>pipeline instance\<close>. A segment instance builds its
  nodes, asks \<^emph>\<open>launch control\<close> for \<^emph>\<open>engines\<close> and ignites \<^emph>\<open>runners\<close> on them. Nodes are connected by \<^emph>\<open>edges\<close>
  over \<^emph>\<open>channels\<close>, segments by \<^emph>\<open>manifolds\<close>. Executor, manager, pipeline instance and segment instance are all
  \<^emph>\<open>services\<close>. Underneath lie the division of the machine into \<^emph>\<open>partitions\<close>, the assignment of CPUs to engine
  groups, and an \<^emph>\<open>arena\<close> allocator.

  \<^bold>\<open>Theories and sources.\<close> Paths are relative to the root of the repository.

  \<^item> \<open>Prelude\<close>: errors as values (\<open>srf_error\<close>, \<open>'a result\<close>), sorted association lists for \<^verbatim>\<open>std::map\<close>
    (\<open>smap\<close>, the locale \<open>ordered_dict\<close>), loops whose body may fail (\<open>fold_result\<close>), and 64-bit sizes.
  \<^item> \<open>Addresses\<close>: \<^verbatim>\<open>src/public/core/addresses.cpp\<close>, \<^verbatim>\<open>include/srf/segment/utils.hpp\<close>. Segment and port
    addresses as words, with round trips.
  \<^item> \<open>Names\<close>: \<^verbatim>\<open>src/internal/utils/collision_detector.cpp\<close>, \<^verbatim>\<open>segment/definition.cpp\<close>, \<^verbatim>\<open>pipeline/pipeline.cpp\<close>.
    Registration of names with hashes of 16 bits, validation of ports, adding of segments.
  \<^item> \<open>Arena_Blocks\<close>, \<open>Allocator\<close>, \<open>Global_Arena\<close>, \<open>Arena_Resource\<close>:
    \<^verbatim>\<open>include/srf/memory/resources/detail/arena.hpp\<close> and \<^verbatim>\<open>arena_resource.hpp\<close>. Blocks are sets of addresses;
    first fit, coalescing, the global arena and the arenas of the threads keep live and free memory disjoint. The
    interface of an allocator is the locale \<open>allocator\<close>. \<^verbatim>\<open>coalesce_block\<close> dereferences \<^verbatim>\<open>end()\<close> when a set of free
    blocks is empty; what that read yields is a parameter (\<open>end_block\<close>, \<open>g_end_block\<close>), \<open>None\<close> when it is not survived,
    and the theorems hold whatever it is.
  \<^item> \<open>Service\<close>: \<^verbatim>\<open>src/internal/service.cpp\<close>. The calls on a service with the hooks of a derived class as
    parameters, and the interleaving of callers (\<open>svc_step\<close>): a call decides on a hook under the mutex (\<open>Claim\<close>),
    and enters and leaves it after the mutex is released (\<open>Enter\<close>, \<open>Leave\<close>). What hooks keep is the locale
    \<open>service_impl\<close>, interpreted for segments, pipelines, managers and executors.
  \<^item> \<open>Runner\<close>: \<^verbatim>\<open>src/public/runnable/runner.cpp\<close>, \<^verbatim>\<open>context.cpp\<close>, \<^verbatim>\<open>runnable.cpp\<close>. The tasks of a runner as
    interleaved atomic steps, with the non-atomic update of \<^verbatim>\<open>m_status\<close> as two steps.
  \<^item> \<open>Parsing\<close>: \<^verbatim>\<open>src/internal/utils/parse_ints.cpp\<close>, \<^verbatim>\<open>parse_config.cpp\<close>, \<^verbatim>\<open>ranges.hpp\<close>.
  \<^item> \<open>Bitmaps\<close>: \<^verbatim>\<open>src/public/core/bitmap.cpp\<close> over the bitmap functions of hwloc. \<open>Options\<close>: \<^verbatim>\<open>src/public/options\<close>.
  \<^item> \<open>Topology\<close>, \<open>Partitions\<close>: \<^verbatim>\<open>src/internal/system/topology.cpp\<close>, \<^verbatim>\<open>gpu_info.cpp\<close>, \<^verbatim>\<open>partitions.cpp\<close>,
    \<^verbatim>\<open>host_partition.cpp\<close>, \<^verbatim>\<open>device_partition.cpp\<close>, \<^verbatim>\<open>src/internal/utils/shared_resource_bit_map.cpp\<close>.
  \<^item> \<open>Engine_Cpu_Sets\<close>, \<open>Engines\<close>: \<^verbatim>\<open>src/internal/system/engine_factory_cpu_sets.cpp\<close>, \<^verbatim>\<open>fiber_manager.cpp\<close>,
    \<^verbatim>\<open>fiber_pool.cpp\<close>, \<^verbatim>\<open>src/internal/runnable\<close>, \<^verbatim>\<open>include/srf/runnable/launch_control.hpp\<close>.
  \<^item> \<open>Manifolds\<close>, \<open>Segments\<close>, \<open>Pipelines\<close>, \<open>Executor\<close>: \<^verbatim>\<open>include/srf/manifold\<close>, \<^verbatim>\<open>src/internal/segment\<close>,
    \<^verbatim>\<open>src/internal/pipeline\<close>, \<^verbatim>\<open>src/internal/executor\<close>. Each operation returns the state as far as it got, and
    the result.
  \<^item> \<open>Channels\<close>, \<open>Edges\<close>, \<open>Operators\<close>: \<^verbatim>\<open>include/srf/channel\<close>, \<^verbatim>\<open>include/srf/node\<close>. The interface of a channel
    is the locale \<open>channel_impl\<close>, interpreted for the recent, the null and the buffered channel.
  \<^item> \<open>Memory_Blocks\<close>, \<open>Codable\<close>: \<^verbatim>\<open>include/srf/memory\<close>, \<^verbatim>\<open>include/srf/codable\<close>, \<^verbatim>\<open>src/public/codable\<close>.
  \<^item> \<open>Scheduler\<close>: \<^verbatim>\<open>src/internal/system/fiber_priority_scheduler.hpp\<close>.
  \<^item> \<open>Rpc\<close>, \<open>Bidirectional\<close>, \<open>Streaming\<close>, \<open>Batching\<close>: \<^verbatim>\<open>tools/nvrpc\<close>. Workers that take completed tags from queues and run contexts
    (\<^verbatim>\<open>src/executor.cc\<close>, \<^verbatim>\<open>src/server.cc\<close>), and the life cycles of a call (\<^verbatim>\<open>life_cycle_unary.h\<close>,
    \<^verbatim>\<open>life_cycle_bidirectional.h\<close>, \<^verbatim>\<open>life_cycle_streaming.h\<close>, \<^verbatim>\<open>life_cycle_batching.h\<close>). What a worker relies on is the locale \<open>rpc_context\<close>. A
    handler is an atomic step that leaves a list of calls; the calls of all threads, the completions of gRPC and the user
    interleave in the step functions \<open>bidi_step\<close>, \<open>st_step\<close> and \<open>batch_step\<close>.

  \<^bold>\<open>What is shown.\<close> Memory that is handed out is disjoint, inside upstream memory, and is given back. A runner calls
  its completion callback exactly once, with the outcome of all instances when they do not overlap. Hooks of
  services are decided on in order. Segments ignite all their runners and join all of them, and rethrow the first exception. An update leaves exactly the
  requested segments running; a registered pipeline runs its segments at rank 0. Sinks close their channels when
  the last upstream goes. CPUs are dealt out to engine groups without overlap, GPUs to host partitions without
  loss. Parsers, bitmaps, addresses and encoded objects are read back as they were written. Streams of an RPC post one
  read and one write at a time, hand requests over in order and finish once, as long as no write fails and the user keeps to the calls named in the claim; how they
  hang or touch freed responses otherwise is shown for every run of that kind.

  \<^bold>\<open>Errors.\<close> \<^verbatim>\<open>CHECK\<close> and \<^verbatim>\<open>LOG(FATAL)\<close> are errors like exceptions, \<^verbatim>\<open>DCHECK\<close> is off, logging has no effect.
  \<open>Undefined_behaviour\<close> marks what the language leaves undefined and ends the run, \<open>Deadlock\<close> a wait whose condition does not hold.

  \<^bold>\<open>Parameters.\<close> hwloc (\<open>hwloc\<close> with \<open>hwloc_laws\<close>, and \<open>hwloc_topo\<close>), the upstream memory resource
  (\<open>arena_env\<close>), Boost.Fiber (\<open>boost_channel\<close> with \<open>boost_laws\<close>, barriers, the order in which tasks settle), gRPC
  (what completion queues deliver, and when) and user code are arguments of the definitions that use them. The
  concrete instances \<open>list_hwloc\<close>, \<open>list_boost\<close> and the bump allocator obey the laws and serve for concrete runs.

  \<^bold>\<open>Bounds.\<close> No fuel is used. Loops that may not end are \<open>partial_function (option)\<close>, and that they return is
  proved. Sizes are naturals with the wrap-around of 64 bits written out, indices are converted between 32-bit types
  where the code does so, addresses are words.

  \<^bold>\<open>Not modelled.\<close> CUDA, UCX, the data plane and the control plane, whose behaviour is that of the libraries they
  drive; the clients of \<^verbatim>\<open>tools/nvrpc\<close>; RxCpp nodes; the Python bindings; benchmarks, tracing and metrics,
  which are clocks and floating-point statistics; logging; declarations and type traits.
\<close>

end
